(* ===== verification/Akuma_Prelude.thy ===== *)
theory Akuma_Prelude
  imports Main "HOL-Library.Word"
begin

text \<open>
  Shared vocabulary of the development: the machine-integer types the kernel uses, the
  saturating and rounding arithmetic of Rust's standard library, the error numbers that
  system calls return, and the generic facts on lists, options, folds and words that the
  component theories share.
\<close>

unbundle bit_operations_syntax

section \<open>Machine integers\<close>

type_synonym u8 = "8 word"
type_synonym u16 = "16 word"
type_synonym u32 = "32 word"
type_synonym u64 = "64 word"

text \<open>A \<open>usize\<close> that only counts or addresses (never wraps in the modelled code) is a \<open>nat\<close>.\<close>

type_synonym usize = nat
type_synonym bytes = "u8 list"

text \<open>Rust's \<open>saturating_add\<close>, \<open>saturating_sub\<close> on words, \<open>div_ceil\<close> on \<open>usize\<close>.\<close>

definition sat_add :: "'a::len word \<Rightarrow> 'a word \<Rightarrow> 'a word" where
  "sat_add x y = (if unat x + unat y < 2 ^ LENGTH('a) then x + y else - 1)"

definition sat_sub :: "'a::len word \<Rightarrow> 'a word \<Rightarrow> 'a word" where
  "sat_sub x y = (if y \<le> x then x - y else 0)"

definition div_ceil :: "nat \<Rightarrow> nat \<Rightarrow> nat" where
  "div_ceil a b = (if a mod b = 0 then a div b else a div b + 1)"

section \<open>Fact collections\<close>

named_theorems wf_intros \<open>well-formedness of a component's state is preserved\<close>
named_theorems bitmap_simps \<open>reading a page's bit back from the bitmap\<close>
named_theorems ipc_simps \<open>lookups in the kernel object tables after an operation\<close>

section \<open>Arithmetic\<close>

lemma unat_sat_sub: "unat (sat_sub x y) = unat x - unat y"
  by (auto simp: sat_sub_def word_le_nat_alt unat_sub)

lemma unat_sat_add:
  "unat (sat_add x (y :: 'a::len word)) = min (unat x + unat y) (2 ^ LENGTH('a) - 1)"
proof (cases "unat x + unat y < 2 ^ LENGTH('a)")
  case True
  then show ?thesis by (simp add: sat_add_def unat_word_ariths)
next
  case False
  have "unat (- 1 :: 'a word) = 2 ^ LENGTH('a) - 1"
    using unat_minus_one [of "0 :: 'a word"] by transfer (simp add: take_bit_minus_one_eq_mask mask_eq_exp_minus_1 nat_diff_distrib nat_power_eq)
  with False show ?thesis by (simp add: sat_add_def)
qed

lemma unat_of_nat_small: "n < 2 ^ LENGTH('a) \<Longrightarrow> unat (of_nat n :: 'a::len word) = n"
  by (simp add: unat_of_nat)

lemma div_ceil_le: "0 < b \<Longrightarrow> a \<le> b * div_ceil a b"
proof -
  assume b: "0 < b"
  have eq: "a = b * (a div b) + a mod b" by simp
  with mod_less_divisor [OF b, of a] have "a \<le> b * (a div b) + b" by linarith
  moreover have "a mod b = 0 \<Longrightarrow> a \<le> b * (a div b)" using eq by linarith
  ultimately show ?thesis by (simp add: div_ceil_def)
qed

lemma div_ceil_less: "0 < b \<Longrightarrow> i < a \<Longrightarrow> i div b < div_ceil a b"
  by (metis div_ceil_le less_le_trans less_mult_imp_div_less mult.commute)

lemma div_ceil_mono_page: "0 < b \<Longrightarrow> a \<le> b * c \<Longrightarrow> div_ceil a b \<le> c"
proof (cases "a mod b = 0")
  case True
  assume "0 < b" "a \<le> b * c"
  with True show ?thesis using div_le_mono [of a "b * c" b] by (simp add: div_ceil_def)
next
  case False
  assume b: "0 < b" and le: "a \<le> b * c"
  with False have "a < b * c" by (metis le_neq_implies_less mod_mult_self1_is_0)
  with b False show ?thesis by (simp add: div_ceil_def less_mult_imp_div_less mult.commute Suc_leI)
qed

section \<open>Lists\<close>

text \<open>The first index whose element satisfies a predicate: Rust's \<open>Iterator::position\<close>.\<close>

fun position :: "('a \<Rightarrow> bool) \<Rightarrow> 'a list \<Rightarrow> nat option" where
  "position P [] = None"
| "position P (x # xs) = (if P x then Some 0 else map_option Suc (position P xs))"

text \<open>\<open>Vec::remove\<close> and \<open>VecDeque::remove\<close>; \<open>Vec::insert\<close>.\<close>

definition remove_at :: "nat \<Rightarrow> 'a list \<Rightarrow> 'a list" where
  "remove_at i xs = take i xs @ drop (Suc i) xs"

definition insert_at :: "nat \<Rightarrow> 'a \<Rightarrow> 'a list \<Rightarrow> 'a list" where
  "insert_at i x xs = take i xs @ x # drop i xs"

lemma position_SomeD:
  "position P xs = Some i \<Longrightarrow> i < length xs \<and> P (xs ! i) \<and> (\<forall>j < i. \<not> P (xs ! j))"
proof (induction xs arbitrary: i)
  case (Cons x xs)
  then show ?case by (cases i) (auto simp: less_Suc_eq_0_disj split: if_splits)
qed simp

lemma position_None: "position P xs = None \<longleftrightarrow> (\<forall>x \<in> set xs. \<not> P x)"
  by (induction xs) auto

lemma insert_remove_at: "i < length xs \<Longrightarrow> insert_at i (xs ! i) (remove_at i xs) = xs"
  by (simp add: insert_at_def remove_at_def min_def id_take_nth_drop [symmetric])

lemma length_remove_at: "i < length xs \<Longrightarrow> length (remove_at i xs) = length xs - 1"
  by (simp add: remove_at_def)

lemma set_remove_at_subset: "set (remove_at i xs) \<subseteq> set xs"
  by (auto simp: remove_at_def dest: in_set_takeD in_set_dropD)

lemma sum_list_remove_at:
  "i < length xs \<Longrightarrow> sum_list (map f xs) = f (xs ! i) + sum_list (map f (remove_at i xs))"
  for f :: "'a \<Rightarrow> nat"
proof -
  assume "i < length xs"
  then have "xs = take i xs @ xs ! i # drop (Suc i) xs" by (rule id_take_nth_drop)
  then have "sum_list (map f xs) = sum_list (map f (take i xs @ xs ! i # drop (Suc i) xs))"
    by simp
  then show ?thesis by (simp add: remove_at_def)
qed

text \<open>An invariant carried through a left-to-right loop.\<close>

lemma fold_invariant:
  assumes "P s" and "\<And>x s. x \<in> set xs \<Longrightarrow> P s \<Longrightarrow> P (f x s)"
  shows "P (fold f xs s)"
  using assms by (induction xs arbitrary: s) auto

lemma nth_overwrite_prefix:
  "length src \<le> length buf \<Longrightarrow> i < length buf \<Longrightarrow>
   (src @ drop (length src) buf) ! i = (if i < length src then src ! i else buf ! i)"
  by (auto simp: nth_append)

section \<open>Bits of a word\<close>

text \<open>\<open>u64::trailing_zeros\<close>: the position of the lowest set bit, 64 for zero.\<close>

definition trailing_zeros :: "u64 \<Rightarrow> nat" where
  "trailing_zeros w = (case find (bit w) [0..<64] of Some b \<Rightarrow> b | None \<Rightarrow> 64)"

lemma trailing_zeros_bit:
  assumes "w \<noteq> 0"
  shows "trailing_zeros w < 64 \<and> bit w (trailing_zeros w)"
proof -
  from assms obtain n where n: "bit w n" by (auto simp: bit_eq_iff)
  then have "n < 64" using bit_imp_le_length [OF n] by simp
  with n have "find (bit w) [0..<64] \<noteq> None" by (auto simp: find_None_iff)
  then obtain b where b: "find (bit w) [0..<64] = Some b" by blast
  then have "b < 64" "bit w b" by (auto simp: find_Some_iff)
  with b show ?thesis by (simp add: trailing_zeros_def)
qed

text \<open>Adding one to a word that is not the largest.\<close>

lemma unat_plus_one: "n \<noteq> - 1 \<Longrightarrow> unat (n + 1) = Suc (unat n)" for n :: "'a::len word"
proof -
  assume "n \<noteq> - 1"
  then have "1 + n \<noteq> 0" by (metis add.commute eq_neg_iff_add_eq_0)
  then show ?thesis by (simp add: unatSuc add.commute)
qed

lemma word_less_iff_succ_le: "n \<noteq> - 1 \<Longrightarrow> n < k \<longleftrightarrow> n + 1 \<le> k" for n k :: "'a::len word"
  by (simp add: word_less_nat_alt word_le_nat_alt Suc_le_eq unat_plus_one)

lemma succ_greater: "n \<noteq> - 1 \<Longrightarrow> k < n \<Longrightarrow> k < n + 1" for n k :: "'a::len word"
  by (simp add: word_less_nat_alt unat_plus_one)

end
