(* ===== verification/Frame_Interface.thy ===== *)
theory Frame_Interface
  imports Akuma_Prelude
begin

text \<open>
  The contract of a physical-frame allocator, as the kernel's page-table, demand-paging and
  heap-growth code relies on it: a frame handed out was available and is available no longer,
  a refusal means that nothing is available, a release of a held frame makes exactly that
  frame available again, and a release of an available frame is refused. What clients get out
  of it, for any sequence of requests, is proved once here.
\<close>

datatype 'f request = Alloc | Release 'f

text \<open>
  Clients remember the frames they hold; a client releases only what it holds.
  The second component collects the frames currently held.
\<close>

fun drive :: "('s \<Rightarrow> 'f option \<times> 's) \<Rightarrow> ('f \<Rightarrow> 's \<Rightarrow> bool \<times> 's) \<Rightarrow> 'f request list \<Rightarrow>
    's \<times> 'f list \<Rightarrow> 's \<times> 'f list" where
  "drive al rel [] (s, held) = (s, held)"
| "drive al rel (Alloc # rs) (s, held) =
     (case al s of (None, s') \<Rightarrow> drive al rel rs (s', held)
                 | (Some f, s') \<Rightarrow> drive al rel rs (s', f # held))"
| "drive al rel (Release f # rs) (s, held) =
     (if f \<in> set held then drive al rel rs (snd (rel f s), remove1 f held)
      else drive al rel rs (s, held))"

locale frame_allocator =
  fixes inv :: "'s \<Rightarrow> bool"
    and managed :: "'s \<Rightarrow> 'f set"
    and avail :: "'s \<Rightarrow> 'f set"
    and al :: "'s \<Rightarrow> 'f option \<times> 's"
    and rel :: "'f \<Rightarrow> 's \<Rightarrow> bool \<times> 's"
  assumes avail_managed: "inv s \<Longrightarrow> avail s \<subseteq> managed s"
    and al_Some: "inv s \<Longrightarrow> al s = (Some f, s') \<Longrightarrow>
      f \<in> avail s \<and> avail s' = avail s - {f} \<and> managed s' = managed s \<and> inv s'"
    and al_None: "inv s \<Longrightarrow> al s = (None, s') \<Longrightarrow> avail s = {} \<and> s' = s"
    and rel_held: "inv s \<Longrightarrow> f \<in> managed s \<Longrightarrow> f \<notin> avail s \<Longrightarrow> rel f s = (ok, s') \<Longrightarrow>
      ok \<and> avail s' = insert f (avail s) \<and> managed s' = managed s \<and> inv s'"
    and rel_free: "inv s \<Longrightarrow> f \<in> avail s \<Longrightarrow> rel f s = (False, s)"
begin

text \<open>Frames held by clients are managed, pairwise different and not available.\<close>

definition owned :: "'s \<Rightarrow> 'f list \<Rightarrow> bool" where
  "owned s held \<longleftrightarrow> inv s \<and> distinct held \<and> set held \<subseteq> managed s \<and> set held \<inter> avail s = {}"

lemma al_owned: "owned s held \<Longrightarrow> al s = (Some f, s') \<Longrightarrow>
    owned s' (f # held) \<and> set (f # held) \<union> avail s' = set held \<union> avail s"
  using al_Some [of s f s'] avail_managed [of s] by (auto simp: owned_def)

lemma rel_owned:
  assumes own: "owned s held" and f: "f \<in> set held"
  shows "owned (snd (rel f s)) (remove1 f held)"
    and "set (remove1 f held) \<union> avail (snd (rel f s)) = set held \<union> avail s"
proof -
  from own f have "f \<in> managed s" "f \<notin> avail s" "inv s" by (auto simp: owned_def)
  then have r: "avail (snd (rel f s)) = insert f (avail s)"
    "managed (snd (rel f s)) = managed s" "inv (snd (rel f s))"
    using rel_held [of s f "fst (rel f s)" "snd (rel f s)"] by simp_all
  have rm: "set (remove1 f held) = set held - {f}" using own by (simp add: owned_def)
  show "owned (snd (rel f s)) (remove1 f held)"
    using own r(3) unfolding owned_def r(1,2) rm by auto
  show "set (remove1 f held) \<union> avail (snd (rel f s)) = set held \<union> avail s"
    using f unfolding r(1) rm by auto
qed

theorem drive_owned:
  "owned s held \<Longrightarrow> drive al rel rs (s, held) = (s', held') \<Longrightarrow>
   owned s' held' \<and> set held' \<union> avail s' = set held \<union> avail s"
proof (induction rs arbitrary: s held)
  case (Cons r rs)
  show ?case
  proof (cases r)
    case Alloc
    show ?thesis
    proof (cases "fst (al s)")
      case None
      then obtain s1 where al: "al s = (None, s1)" by (metis prod.collapse)
      with al_None [OF _ al] Cons.prems(1) have "s1 = s" by (simp add: owned_def)
      with Cons al Alloc show ?thesis by simp
    next
      case (Some f)
      then obtain s1 where al: "al s = (Some f, s1)" by (metis prod.collapse)
      note own = al_owned [OF Cons.prems(1) al]
      have "drive al rel rs (s1, f # held) = (s', held')" using Cons.prems(2) al Alloc by simp
      from Cons.IH [OF conjunct1 [OF own] this] conjunct2 [OF own] show ?thesis by blast
    qed
  next
    case (Release f)
    show ?thesis
    proof (cases "f \<in> set held")
      case True
      note own = rel_owned [OF Cons.prems(1) True]
      have "drive al rel rs (snd (rel f s), remove1 f held) = (s', held')"
        using Cons.prems(2) Release True by simp
      from Cons.IH [OF own(1) this] own(2) show ?thesis by blast
    next
      case False
      with Cons Release show ?thesis by simp
    qed
  qed
qed simp

end

end
