(* ===== verification/Pmm.thy ===== *)
theory Pmm
  imports Frame_Interface
begin

text \<open>
  The physical memory manager, \<^verbatim>\<open>src/pmm.rs\<close>: the bitmap allocator of 4 KiB frames
  (\<open>BitmapAllocator\<close>), the global operations built on it with their statistics counters,
  and the copy-on-write reference counts. A set bit of the bitmap is a free page.
  Page indices, addresses and sizes are \<open>nat\<close>; bitmap words are 64-bit words; the global
  atomic counters are 64-bit words, because \<open>fetch_add\<close> and \<open>fetch_sub\<close> wrap.
\<close>

section \<open>Frames and the bitmap\<close>

definition PAGE_SIZE :: nat where
  "PAGE_SIZE = 4096"

text \<open>\<open>PhysFrame::new\<close> clears the low twelve bits of the address.\<close>

record phys_frame =
  addr :: nat

definition PhysFrame_new :: "nat \<Rightarrow> phys_frame" where
  "PhysFrame_new a = \<lparr>addr = a div PAGE_SIZE * PAGE_SIZE\<rparr>"

record bitmap_allocator =
  bitmap :: "u64 list"
  base_addr :: nat
  total_pages :: nat
  free_pages :: nat
  next_free_hint :: nat

definition BitmapAllocator_new :: bitmap_allocator where
  "BitmapAllocator_new =
     \<lparr>bitmap = [], base_addr = 0, total_pages = 0, free_pages = 0, next_free_hint = 0\<rparr>"

definition mark_used :: "nat \<Rightarrow> bitmap_allocator \<Rightarrow> bitmap_allocator" where
  "mark_used page_idx a =
     (let word_idx = page_idx div 64; bit_idx = page_idx mod 64 in
      if word_idx < length (bitmap a)
      then a\<lparr>bitmap := (bitmap a)[word_idx := bitmap a ! word_idx AND NOT (push_bit bit_idx 1)]\<rparr>
      else a)"

definition mark_free :: "nat \<Rightarrow> bitmap_allocator \<Rightarrow> bitmap_allocator" where
  "mark_free page_idx a =
     (let word_idx = page_idx div 64; bit_idx = page_idx mod 64 in
      if word_idx < length (bitmap a)
      then a\<lparr>bitmap := (bitmap a)[word_idx := bitmap a ! word_idx OR push_bit bit_idx 1]\<rparr>
      else a)"

definition is_free :: "bitmap_allocator \<Rightarrow> nat \<Rightarrow> bool" where
  "is_free a page_idx =
     (let word_idx = page_idx div 64; bit_idx = page_idx mod 64 in
      if word_idx < length (bitmap a)
      then bitmap a ! word_idx AND push_bit bit_idx 1 \<noteq> 0
      else False)"

text \<open>
  \<open>init\<close> marks every page free, takes the pages below the kernel's end, and masks the bits of
  the last word beyond the managed range. \<open>None\<close> is the \<open>usize\<close> underflow of
  \<open>total_pages - kernel_pages\<close> when the kernel does not fit into the region.
\<close>

definition ba_init :: "nat \<Rightarrow> nat \<Rightarrow> nat \<Rightarrow> bitmap_allocator \<Rightarrow> bitmap_allocator option" where
  "ba_init base ram_size kernel_end a =
     (let total = ram_size div PAGE_SIZE;
          bitmap_size = div_ceil total 64;
          a1 = a\<lparr>base_addr := base, total_pages := total,
                 bitmap := replicate bitmap_size (NOT 0)\<rparr>;
          kernel_pages = div_ceil (kernel_end - base) PAGE_SIZE;
          a2 = fold mark_used [0..<kernel_pages] a1
      in if total < kernel_pages then None
         else let a3 = a2\<lparr>free_pages := total - kernel_pages, next_free_hint := kernel_pages\<rparr>;
                  remaining = total mod 64
              in Some (if remaining \<noteq> 0
                       then let last_idx = bitmap_size - 1; mask = push_bit remaining 1 - 1
                            in a3\<lparr>bitmap := (bitmap a3)[last_idx := bitmap a3 ! last_idx AND mask]\<rparr>
                       else a3))"

section \<open>Allocation\<close>

text \<open>
  The loop body of \<open>alloc_page\<close> over a sequence of word indices; the source writes it twice,
  once from the hint to the end and once from the beginning to the hint.
\<close>

fun alloc_scan :: "bitmap_allocator \<Rightarrow> nat list \<Rightarrow> nat option" where
  "alloc_scan a [] = None"
| "alloc_scan a (word_idx # ws) =
     (if bitmap a ! word_idx \<noteq> 0
      then let page_idx = word_idx * 64 + trailing_zeros (bitmap a ! word_idx) in
           if page_idx < total_pages a then Some page_idx else alloc_scan a ws
      else alloc_scan a ws)"

definition take_page :: "nat \<Rightarrow> bitmap_allocator \<Rightarrow> bitmap_allocator" where
  "take_page page_idx a =
     (let a1 = mark_used page_idx a in a1\<lparr>free_pages := free_pages a1 - 1\<rparr>)"

definition page_frame :: "bitmap_allocator \<Rightarrow> nat \<Rightarrow> phys_frame" where
  "page_frame a page_idx = PhysFrame_new (base_addr a + page_idx * PAGE_SIZE)"

definition ba_alloc_page :: "bitmap_allocator \<Rightarrow> phys_frame option \<times> bitmap_allocator" where
  "ba_alloc_page a =
     (let start_word = next_free_hint a div 64 in
      case (case alloc_scan a [start_word..<length (bitmap a)] of
              Some p \<Rightarrow> Some p
            | None \<Rightarrow> alloc_scan a [0..<start_word]) of
        Some page_idx \<Rightarrow>
          (Some (page_frame a page_idx), (take_page page_idx a)\<lparr>next_free_hint := page_idx + 1\<rparr>)
      | None \<Rightarrow> (None, a))"

text \<open>
  \<open>alloc_pages\<close>: the inner \<open>while\<close> loop drains one word; \<open>Inr\<close> is the early return with the
  full batch. The guard \<open>word_idx < length (bitmap a)\<close> is the source's index check.
\<close>

definition word_bits :: "bitmap_allocator \<Rightarrow> nat \<Rightarrow> nat set" where
  "word_bits a w = {b. b < 64 \<and> bit (bitmap a ! w) b}"

lemma bit_single [simp]: "bit (2 ^ b :: u64) n \<longleftrightarrow> n = b \<and> n < 64"
  by (auto simp: bit_exp_iff)

lemma word_bits_mark_used:
  "w < length (bitmap a) \<Longrightarrow> b < 64 \<Longrightarrow>
   word_bits (mark_used (w * 64 + b) a) w = word_bits a w - {b}"
  by (auto simp: word_bits_def mark_used_def Let_def bit_and_iff bit_not_iff)

function drain_word :: "nat \<Rightarrow> nat \<Rightarrow> bitmap_allocator \<Rightarrow> phys_frame list \<Rightarrow>
    (bitmap_allocator \<times> phys_frame list) + (bitmap_allocator \<times> phys_frame list)" where
  "drain_word count w a result =
     (if w < length (bitmap a) \<and> bitmap a ! w \<noteq> 0
      then let page_idx = w * 64 + trailing_zeros (bitmap a ! w) in
           if page_idx \<ge> total_pages a then Inl (a, result)
           else let a1 = take_page page_idx a;
                    result1 = result @ [page_frame a page_idx] in
                if length result1 = count
                then Inr (a1\<lparr>next_free_hint := page_idx + 1\<rparr>, result1)
                else drain_word count w a1 result1
      else Inl (a, result))"
  by pat_completeness auto
termination
proof (relation "measure (\<lambda>(count, w, a, result). card (word_bits a w))", goal_cases)
  case 1
  then show ?case by simp
next
  case (2 count w a result p a1 r1)
  let ?b = "trailing_zeros (bitmap a ! w)"
  from 2 have nz: "bitmap a ! w \<noteq> 0" and w: "w < length (bitmap a)" by auto
  from trailing_zeros_bit [OF nz] have b: "?b < 64" "bit (bitmap a ! w) ?b" by auto
  from 2 have "word_bits a1 w = word_bits a w - {?b}"
    using word_bits_mark_used [OF w b(1)] by (simp add: take_page_def Let_def word_bits_def)
  moreover have "?b \<in> word_bits a w" "finite (word_bits a w)"
    using b by (auto simp: word_bits_def)
  ultimately have "card (word_bits a1 w) < card (word_bits a w)"
    by (metis card_Diff1_less)
  then show ?case by simp
qed

declare drain_word.simps [simp del]

fun drain_words :: "nat \<Rightarrow> nat list \<Rightarrow> bitmap_allocator \<Rightarrow> phys_frame list \<Rightarrow>
    (bitmap_allocator \<times> phys_frame list) + (bitmap_allocator \<times> phys_frame list)" where
  "drain_words count [] a result = Inl (a, result)"
| "drain_words count (w # ws) a result =
     (case drain_word count w a result of
        Inl (a1, result1) \<Rightarrow> drain_words count ws a1 result1
      | Inr r \<Rightarrow> Inr r)"

definition roll_back :: "phys_frame list \<Rightarrow> bitmap_allocator \<Rightarrow> bitmap_allocator" where
  "roll_back frames a =
     fold (\<lambda>frame a. let page_idx = (addr frame - base_addr a) div PAGE_SIZE;
                         a1 = mark_free page_idx a
                     in a1\<lparr>free_pages := free_pages a1 + 1\<rparr>) frames a"

definition ba_alloc_pages :: "nat \<Rightarrow> bitmap_allocator \<Rightarrow> phys_frame list option \<times> bitmap_allocator" where
  "ba_alloc_pages count a =
     (if count = 0 then (Some [], a)
      else if free_pages a < count then (None, a)
      else let start_word = next_free_hint a div 64 in
           case drain_words count [start_word..<length (bitmap a)] a [] of
             Inr (a1, result) \<Rightarrow> (Some result, a1)
           | Inl (a1, result1) \<Rightarrow>
               (case drain_words count [0..<start_word] a1 result1 of
                  Inr (a2, result) \<Rightarrow> (Some result, a2)
                | Inl (a2, result2) \<Rightarrow> (None, roll_back result2 a2)))"

text \<open>
  \<open>alloc_pages_contiguous\<close>: the scan for a run of \<open>count\<close> free pages keeps the start and the
  length of the current run; the run is searched from the hint and, unless the hint is zero,
  once more from page zero.
\<close>

fun find_run :: "nat \<Rightarrow> bitmap_allocator \<Rightarrow> nat list \<Rightarrow> nat \<Rightarrow> nat \<Rightarrow> nat option" where
  "find_run count a [] run_start run_len = None"
| "find_run count a (page_idx # ps) run_start run_len =
     (if is_free a page_idx
      then let run_start1 = (if run_len = 0 then page_idx else run_start);
               run_len1 = run_len + 1
           in if run_len1 = count then Some run_start1
              else find_run count a ps run_start1 run_len1
      else find_run count a ps run_start 0)"

definition take_run :: "nat \<Rightarrow> nat \<Rightarrow> bitmap_allocator \<Rightarrow> bitmap_allocator" where
  "take_run run_start count a =
     (let a1 = fold mark_used [run_start..<run_start + count] a
      in a1\<lparr>free_pages := free_pages a1 - count, next_free_hint := run_start + count\<rparr>)"

definition ba_alloc_pages_contiguous ::
    "nat \<Rightarrow> bitmap_allocator \<Rightarrow> phys_frame option \<times> bitmap_allocator" where
  "ba_alloc_pages_contiguous count a =
     (if count = 0 then (None, a)
      else if count = 1 then ba_alloc_page a
      else if free_pages a < count then (None, a)
      else let hint = next_free_hint a in
           case find_run count a [hint..<total_pages a] 0 0 of
             Some run_start \<Rightarrow> (Some (page_frame a run_start), take_run run_start count a)
           | None \<Rightarrow>
               (if hint = 0 then (None, a)
                else case find_run count a [0..<total_pages a] 0 0 of
                       Some run_start \<Rightarrow> (Some (page_frame a run_start), take_run run_start count a)
                     | None \<Rightarrow> (None, a)))"

section \<open>Release\<close>

definition free_one :: "nat \<Rightarrow> bitmap_allocator \<Rightarrow> bitmap_allocator" where
  "free_one page_idx a =
     (if page_idx < total_pages a \<and> \<not> is_free a page_idx
      then let a1 = mark_free page_idx a in a1\<lparr>free_pages := free_pages a1 + 1\<rparr>
      else a)"

definition ba_free_pages_contiguous ::
    "phys_frame \<Rightarrow> nat \<Rightarrow> bitmap_allocator \<Rightarrow> bitmap_allocator" where
  "ba_free_pages_contiguous frame count a =
     (if addr frame < base_addr a then a
      else let start_page = (addr frame - base_addr a) div PAGE_SIZE;
               a1 = fold (\<lambda>i. free_one (start_page + i)) [0..<count] a
           in if start_page < next_free_hint a1 then a1\<lparr>next_free_hint := start_page\<rparr> else a1)"

datatype free_outcome = Freed | DoubleFree | OutOfRange

definition ba_free_page :: "phys_frame \<Rightarrow> bitmap_allocator \<Rightarrow> free_outcome \<times> bitmap_allocator" where
  "ba_free_page frame a =
     (if addr frame < base_addr a then (OutOfRange, a)
      else let page_idx = (addr frame - base_addr a) div PAGE_SIZE in
           if page_idx \<ge> total_pages a then (OutOfRange, a)
           else if is_free a page_idx then (DoubleFree, a)
           else let a1 = mark_free page_idx a;
                    a2 = a1\<lparr>free_pages := free_pages a1 + 1\<rparr>
                in (Freed, if page_idx < next_free_hint a2
                           then a2\<lparr>next_free_hint := page_idx\<rparr> else a2))"

section \<open>Reading the bitmap back\<close>

lemma and_single: "(w :: u64) AND 2 ^ b = 0 \<longleftrightarrow> \<not> (b < 64 \<and> bit w b)"
proof
  assume "w AND 2 ^ b = 0"
  then have "\<not> bit (w AND 2 ^ b) b" by simp
  then show "\<not> (b < 64 \<and> bit w b)" by (auto simp: bit_and_iff)
next
  assume "\<not> (b < 64 \<and> bit w b)"
  then show "w AND 2 ^ b = 0" by (intro bit_eqI) (auto simp: bit_and_iff)
qed

lemma is_free_iff:
  "is_free a i \<longleftrightarrow> i div 64 < length (bitmap a) \<and> bit (bitmap a ! (i div 64)) (i mod 64)"
  by (auto simp: is_free_def and_single Let_def)

lemma same_page: "i div 64 = j div 64 \<Longrightarrow> i mod 64 = j mod 64 \<Longrightarrow> i = (j :: nat)"
  by (metis mult_div_mod_eq)

lemma mark_used_frame [simp]:
  "length (bitmap (mark_used i a)) = length (bitmap a)"
  "total_pages (mark_used i a) = total_pages a"
  "base_addr (mark_used i a) = base_addr a"
  "free_pages (mark_used i a) = free_pages a"
  "next_free_hint (mark_used i a) = next_free_hint a"
  by (simp_all add: mark_used_def Let_def)

lemma mark_free_frame [simp]:
  "length (bitmap (mark_free i a)) = length (bitmap a)"
  "total_pages (mark_free i a) = total_pages a"
  "base_addr (mark_free i a) = base_addr a"
  "free_pages (mark_free i a) = free_pages a"
  "next_free_hint (mark_free i a) = next_free_hint a"
  by (simp_all add: mark_free_def Let_def)

lemma is_free_field_updates [simp, bitmap_simps]:
  "is_free (a\<lparr>free_pages := n\<rparr>) i = is_free a i"
  "is_free (a\<lparr>next_free_hint := h\<rparr>) i = is_free a i"
  by (simp_all add: is_free_def)

lemma is_free_mark_used [simp, bitmap_simps]:
  "is_free (mark_used i a) j \<longleftrightarrow> is_free a j \<and> j \<noteq> i"
  by (auto simp: is_free_iff mark_used_def Let_def nth_list_update bit_and_iff bit_not_iff
      dest: same_page)

lemma is_free_mark_free [bitmap_simps]:
  "i div 64 < length (bitmap a) \<Longrightarrow> is_free (mark_free i a) j \<longleftrightarrow> is_free a j \<or> j = i"
  by (auto simp: is_free_iff mark_free_def Let_def nth_list_update bit_or_iff dest: same_page)

lemma fold_mark_used_frame [simp]:
  "length (bitmap (fold mark_used is a)) = length (bitmap a)"
  "total_pages (fold mark_used is a) = total_pages a"
  "base_addr (fold mark_used is a) = base_addr a"
  "free_pages (fold mark_used is a) = free_pages a"
  "next_free_hint (fold mark_used is a) = next_free_hint a"
  by (induction "is" arbitrary: a) simp_all

lemma is_free_fold_mark_used [simp, bitmap_simps]:
  "is_free (fold mark_used is a) j \<longleftrightarrow> is_free a j \<and> j \<notin> set is"
  by (induction "is" arbitrary: a) auto

section \<open>The allocator's invariant\<close>

text \<open>The abstract view of the allocator: which of the managed pages are free.\<close>

definition free_set :: "bitmap_allocator \<Rightarrow> nat set" where
  "free_set a = {i. i < total_pages a \<and> is_free a i}"

definition ba_wf :: "bitmap_allocator \<Rightarrow> bool" where
  "ba_wf a \<longleftrightarrow> length (bitmap a) = div_ceil (total_pages a) 64
     \<and> (\<forall>i. is_free a i \<longrightarrow> i < total_pages a)
     \<and> free_pages a = card (free_set a)
     \<and> next_free_hint a \<le> total_pages a
     \<and> base_addr a mod PAGE_SIZE = 0"

lemma finite_free_set [simp]: "finite (free_set a)"
  by (simp add: free_set_def)

lemma page_word_in_range: "ba_wf a \<Longrightarrow> i < total_pages a \<Longrightarrow> i div 64 < length (bitmap a)"
  by (simp add: ba_wf_def div_ceil_less)

lemma free_set_iff: "ba_wf a \<Longrightarrow> i \<in> free_set a \<longleftrightarrow> is_free a i"
  by (auto simp: ba_wf_def free_set_def)

lemma free_set_mark_used: "free_set (mark_used i a) = free_set a - {i}"
  by (auto simp: free_set_def)

lemma free_set_mark_free:
  "i < total_pages a \<Longrightarrow> ba_wf a \<Longrightarrow> free_set (mark_free i a) = insert i (free_set a)"
  by (auto simp: free_set_def is_free_mark_free page_word_in_range)

lemma addr_page_frame:
  "ba_wf a \<Longrightarrow> addr (page_frame a i) = base_addr a + i * PAGE_SIZE"
proof -
  assume "ba_wf a"
  then obtain k where "base_addr a = k * PAGE_SIZE"
    by (auto simp: ba_wf_def mod_eq_0_iff_dvd dvd_def mult.commute)
  then have "base_addr a + i * PAGE_SIZE = (k + i) * PAGE_SIZE" by (simp add: algebra_simps)
  then show ?thesis by (simp add: page_frame_def PhysFrame_new_def PAGE_SIZE_def)
qed

text \<open>The page index that the release paths compute from a frame inverts \<open>page_frame\<close>.\<close>

definition page_of :: "bitmap_allocator \<Rightarrow> phys_frame \<Rightarrow> nat" where
  "page_of a frame = (addr frame - base_addr a) div PAGE_SIZE"

lemma page_of_page_frame [simp]: "ba_wf a \<Longrightarrow> page_of a (page_frame a i) = i"
  by (simp add: page_of_def addr_page_frame PAGE_SIZE_def)

lemma page_frame_inj: "ba_wf a \<Longrightarrow> page_frame a i = page_frame a j \<Longrightarrow> i = j"
  by (metis page_of_page_frame)

section \<open>Initialisation\<close>

lemma bit_low_mask: "bit (2 ^ r - 1 :: u64) n \<longleftrightarrow> n < r \<and> n < 64"
proof -
  have "2 ^ r - 1 = (mask r :: u64)"
    by (simp add: mask_eq_exp_minus_1)
  then show ?thesis by (auto simp: bit_mask_iff)
qed

lemma is_free_all_ones:
  "bitmap a = replicate n (NOT 0) \<Longrightarrow> is_free a i \<longleftrightarrow> i div 64 < n"
  by (auto simp: is_free_iff)

lemma page_order_words:
  "i < n \<longleftrightarrow> i div 64 < n div 64 \<or> i div 64 = n div 64 \<and> i mod 64 < n mod (64 :: nat)"
proof -
  have lex: "64 * q + r < 64 * q' + r' \<longleftrightarrow> q < q' \<or> q = q' \<and> r < r'"
    if "r < 64" "r' < 64" for q q' r r' :: nat
    using that by (cases q q' rule: linorder_cases) auto
  have "64 * (i div 64) + i mod 64 = i" "64 * (n div 64) + n mod 64 = n" by simp_all
  then show ?thesis using lex [of "i mod 64" "n mod 64" "i div 64" "n div 64"] by simp
qed

lemma is_free_mask_last:
  assumes len: "length (bitmap a) = div_ceil n 64" and r: "n mod 64 \<noteq> 0"
  shows "is_free (a\<lparr>bitmap := (bitmap a)[div_ceil n 64 - 1 :=
           bitmap a ! (div_ceil n 64 - 1) AND (push_bit (n mod 64) 1 - 1)]\<rparr>) i
         \<longleftrightarrow> is_free a i \<and> i < n"
proof -
  from r have last: "div_ceil n 64 - 1 = n div 64" "div_ceil n 64 = Suc (n div 64)"
    by (simp_all add: div_ceil_def)
  show ?thesis
    using len unfolding is_free_iff last page_order_words [of i n]
    by (auto simp: nth_list_update bit_and_iff bit_low_mask)
qed

lemma ba_init_spec:
  assumes init: "ba_init base ram_size kernel_end a = Some a'"
  defines "tp \<equiv> ram_size div PAGE_SIZE"
    and "kp \<equiv> div_ceil (kernel_end - base) PAGE_SIZE"
  shows "total_pages a' = tp" "base_addr a' = base" "next_free_hint a' = kp"
    "free_pages a' = tp - kp" "kp \<le> tp" "length (bitmap a') = div_ceil tp 64"
    "is_free a' i \<longleftrightarrow> kp \<le> i \<and> i < tp"
proof -
  define a1 where "a1 = a\<lparr>base_addr := base, total_pages := tp,
    bitmap := replicate (div_ceil tp 64) (NOT 0)\<rparr>"
  define a3 where "a3 = (fold mark_used [0..<kp] a1)
    \<lparr>free_pages := tp - kp, next_free_hint := kp\<rparr>"
  have kp: "kp \<le> tp"
    using init by (auto simp: ba_init_def Let_def tp_def kp_def split: if_splits)
  have a': "a' = (if tp mod 64 \<noteq> 0 then a3\<lparr>bitmap := (bitmap a3)[div_ceil tp 64 - 1 :=
      bitmap a3 ! (div_ceil tp 64 - 1) AND (push_bit (tp mod 64) 1 - 1)]\<rparr> else a3)"
    using init kp unfolding ba_init_def Let_def a3_def a1_def tp_def kp_def
    by (auto split: if_splits)
  have len: "length (bitmap a3) = div_ceil tp 64" by (simp add: a3_def a1_def)
  have free3: "is_free a3 i \<longleftrightarrow> i div 64 < div_ceil tp 64 \<and> kp \<le> i" for i
    using is_free_all_ones [of a1 "div_ceil tp 64" i] by (auto simp: a3_def a1_def)
  show "total_pages a' = tp" "base_addr a' = base" "next_free_hint a' = kp"
    "free_pages a' = tp - kp" "length (bitmap a') = div_ceil tp 64"
    using len by (simp_all add: a' a3_def a1_def)
  show "kp \<le> tp" by (rule kp)
  show "is_free a' i \<longleftrightarrow> kp \<le> i \<and> i < tp"
  proof (cases "tp mod 64 = 0")
    case True
    then have "i div 64 < div_ceil tp 64 \<longleftrightarrow> i < tp"
      by (simp add: div_ceil_def page_order_words [of i tp])
    with True free3 [of i] show ?thesis by (auto simp: a')
  next
    case False
    then have "is_free a' i \<longleftrightarrow> is_free a3 i \<and> i < tp"
      using is_free_mask_last [OF len False] by (simp add: a')
    then show ?thesis using free3 [of i] div_ceil_less [of 64 i tp] by auto
  qed
qed

lemma ba_init_wf:
  assumes "base mod PAGE_SIZE = 0" and init: "ba_init base ram_size kernel_end a = Some a'"
  shows "ba_wf a'"
    and "free_set a' = {div_ceil (kernel_end - base) PAGE_SIZE ..< ram_size div PAGE_SIZE}"
proof -
  note spec = ba_init_spec(1-6) [OF init]
  note free = ba_init_spec(7) [OF init]
  show fs: "free_set a' = {div_ceil (kernel_end - base) PAGE_SIZE ..< ram_size div PAGE_SIZE}"
    by (auto simp: free_set_def spec(1) free)
  show "ba_wf a'" using assms(1) spec(5) by (simp add: ba_wf_def fs free spec(1-4,6))
qed

section \<open>Single-page allocation\<close>

text \<open>
  \<open>taken a ps a'\<close>: from state \<open>a\<close>, exactly the pages \<open>ps\<close> (all free, all different) have been
  handed out, and the state \<open>a'\<close> that remains is well formed.
\<close>

definition taken :: "bitmap_allocator \<Rightarrow> nat list \<Rightarrow> bitmap_allocator \<Rightarrow> bool" where
  "taken a ps a' \<longleftrightarrow> ba_wf a' \<and> distinct ps \<and> set ps \<subseteq> free_set a
     \<and> free_set a' = free_set a - set ps
     \<and> total_pages a' = total_pages a \<and> base_addr a' = base_addr a
     \<and> length (bitmap a') = length (bitmap a)"

lemma taken_refl: "ba_wf a \<Longrightarrow> taken a [] a"
  by (simp add: taken_def)

lemma taken_trans: "taken a ps a' \<Longrightarrow> taken a' qs a'' \<Longrightarrow> taken a (ps @ qs) a''"
  by (auto simp: taken_def)

lemma taken_page_frame: "taken a ps a' \<Longrightarrow> page_frame a' i = page_frame a i"
  by (simp add: taken_def page_frame_def)

lemma taken_free_pages: "taken a ps a' \<Longrightarrow> ba_wf a \<Longrightarrow> free_pages a' = free_pages a - length ps"
  by (auto simp: taken_def ba_wf_def card_Diff_subset distinct_card)

lemma ba_wf_hint: "ba_wf a \<Longrightarrow> h \<le> total_pages a \<Longrightarrow> ba_wf (a\<lparr>next_free_hint := h\<rparr>)"
  by (auto simp: ba_wf_def free_set_def)

lemma free_set_field_updates [simp]:
  "free_set (a\<lparr>free_pages := n\<rparr>) = free_set a"
  "free_set (a\<lparr>next_free_hint := h\<rparr>) = free_set a"
  by (simp_all add: free_set_def)

lemma taken_hint: "taken a ps a' \<Longrightarrow> h \<le> total_pages a \<Longrightarrow> taken a ps (a'\<lparr>next_free_hint := h\<rparr>)"
  by (simp add: taken_def ba_wf_hint)

lemma taken_take_page:
  assumes wf: "ba_wf a" and p: "is_free a p"
  shows "taken a [p] (take_page p a)"
proof -
  from wf p have pf: "p \<in> free_set a" by (simp add: free_set_iff)
  have "ba_wf (take_page p a)"
    using wf pf by (auto simp: ba_wf_def take_page_def Let_def free_set_mark_used)
  then show ?thesis using pf by (simp add: taken_def take_page_def Let_def free_set_mark_used)
qed

lemma is_free_lowest_bit:
  assumes "w < length (bitmap a)" "bitmap a ! w \<noteq> 0"
  shows "is_free a (w * 64 + trailing_zeros (bitmap a ! w))"
  using trailing_zeros_bit [OF assms(2)] assms(1) by (simp add: is_free_iff)

lemma is_free_word_nonzero: "is_free a i \<Longrightarrow> bitmap a ! (i div 64) \<noteq> 0"
  by (auto simp: is_free_iff)

lemma alloc_scan_Some:
  "\<forall>w \<in> set ws. w < length (bitmap a) \<Longrightarrow> alloc_scan a ws = Some p \<Longrightarrow>
   is_free a p \<and> p < total_pages a"
  by (induction ws) (auto simp: Let_def is_free_lowest_bit split: if_splits)

lemma alloc_scan_None:
  assumes "ba_wf a" "\<forall>w \<in> set ws. w < length (bitmap a)" "alloc_scan a ws = None" "is_free a i"
  shows "i div 64 \<notin> set ws"
  using assms(2,3)
proof (induction ws)
  case (Cons w ws)
  have "bitmap a ! w = 0"
  proof (rule ccontr)
    assume nz: "bitmap a ! w \<noteq> 0"
    with Cons.prems have "is_free a (w * 64 + trailing_zeros (bitmap a ! w))"
      by (simp add: is_free_lowest_bit)
    with assms(1) have "w * 64 + trailing_zeros (bitmap a ! w) < total_pages a"
      by (auto simp: ba_wf_def)
    with nz Cons.prems show False by simp
  qed
  with Cons is_free_word_nonzero [OF assms(4)] show ?case by auto
qed simp

lemma hint_word_in_range: "ba_wf a \<Longrightarrow> next_free_hint a div 64 \<le> length (bitmap a)"
  using div_ceil_le [of 64 "total_pages a"] by (auto simp: ba_wf_def)

lemma ba_alloc_page_Some:
  assumes wf: "ba_wf a" and al: "ba_alloc_page a = (Some f, a')"
  shows "\<exists>p. p \<in> free_set a \<and> f = page_frame a p \<and> taken a [p] a'"
proof -
  let ?s = "next_free_hint a div 64"
  from al obtain p where p: "alloc_scan a [?s..<length (bitmap a)] = Some p \<or> alloc_scan a [0..<?s] = Some p"
    and f: "f = page_frame a p" and a': "a' = (take_page p a)\<lparr>next_free_hint := p + 1\<rparr>"
    by (auto simp: ba_alloc_page_def Let_def split: option.splits)
  have "\<forall>w \<in> set [?s..<length (bitmap a)]. w < length (bitmap a)"
    "\<forall>w \<in> set [0..<?s]. w < length (bitmap a)"
    using hint_word_in_range [OF wf] by auto
  with p have free: "is_free a p" "p < total_pages a"
    by (blast dest: alloc_scan_Some)+
  then have "taken a [p] a'" using taken_take_page [OF wf] taken_hint a' by auto
  with free f show ?thesis by (auto simp: free_set_def)
qed

lemma ba_alloc_page_None:
  assumes wf: "ba_wf a" and al: "ba_alloc_page a = (None, a')"
  shows "free_set a = {} \<and> a' = a"
proof -
  let ?s = "next_free_hint a div 64"
  from al have n: "alloc_scan a [?s..<length (bitmap a)] = None" "alloc_scan a [0..<?s] = None"
    and a': "a' = a" by (auto simp: ba_alloc_page_def Let_def split: option.splits)
  have "\<not> is_free a i" for i
  proof
    assume i: "is_free a i"
    have "i div 64 \<notin> set [?s..<length (bitmap a)]" "i div 64 \<notin> set [0..<?s]"
      using alloc_scan_None [OF wf _ n(1) i] alloc_scan_None [OF wf _ n(2) i]
        hint_word_in_range [OF wf] by auto
    then show False using i by (auto simp: is_free_iff)
  qed
  with a' show ?thesis by (simp add: free_set_def)
qed

section \<open>Batch allocation\<close>

text \<open>What one word's drain, and a sequence of them, leave behind.\<close>

definition drained :: "nat \<Rightarrow> bitmap_allocator \<Rightarrow> phys_frame list \<Rightarrow> nat set \<Rightarrow>
    (bitmap_allocator \<times> phys_frame list) + (bitmap_allocator \<times> phys_frame list) \<Rightarrow> bool" where
  "drained count a result W r =
     (case r of
        Inl (a', result') \<Rightarrow> length result' < count
          \<and> (\<exists>ps. taken a ps a' \<and> result' = result @ map (page_frame a) ps)
          \<and> (\<forall>i. is_free a' i \<longrightarrow> i div 64 \<notin> W)
      | Inr (a', result') \<Rightarrow> length result' = count
          \<and> (\<exists>ps. taken a ps a' \<and> result' = result @ map (page_frame a) ps))"

lemma drained_step:
  assumes t: "taken a ps a1" and r1: "result1 = result @ map (page_frame a) ps"
    and d: "drained count a1 result1 W r"
    and keep: "\<forall>i. is_free a1 i \<longrightarrow> i div 64 \<notin> V"
  shows "drained count a result (V \<union> W) r"
proof -
  have pf: "page_frame a1 = page_frame a" by (rule ext) (rule taken_page_frame [OF t])
  have sub: "is_free a' i \<Longrightarrow> is_free a1 i" if "taken a1 qs a'" for a' qs i
    using that by (auto simp: taken_def ba_wf_def free_set_def)
  have comb: "\<exists>ps. taken a ps a' \<and> result' = result @ map (page_frame a) ps"
    if "\<exists>qs. taken a1 qs a' \<and> result' = result1 @ map (page_frame a1) qs" for a' result'
    using that taken_trans [OF t] r1 pf by (metis append.assoc map_append)
  show ?thesis
  proof (cases r)
    case (Inl x)
    with d comb sub keep show ?thesis by (fastforce simp: drained_def split: prod.splits)
  next
    case (Inr x)
    with d comb show ?thesis by (auto simp: drained_def split: prod.splits)
  qed
qed

lemma drain_word_drained:
  "ba_wf a \<Longrightarrow> w < length (bitmap a) \<Longrightarrow> length result < count \<Longrightarrow>
   drained count a result {w} (drain_word count w a result)"
proof (induction count w a result rule: drain_word.induct)
  case (1 count w a result)
  let ?p = "w * 64 + trailing_zeros (bitmap a ! w)"
  let ?a1 = "take_page ?p a" and ?r1 = "result @ [page_frame a ?p]"
  show ?case
  proof (cases "bitmap a ! w = 0")
    case True
    have "\<forall>i. is_free a i \<longrightarrow> i div 64 \<noteq> w" using True is_free_word_nonzero by blast
    with True "1.prems" taken_refl show ?thesis
      by (auto simp: drain_word.simps [of count w a result] drained_def)
  next
    case nz: False
    with "1.prems" have free: "is_free a ?p" by (simp add: is_free_lowest_bit)
    with "1.prems"(1) have lt: "?p < total_pages a" by (auto simp: ba_wf_def)
    have t: "taken a [?p] ?a1" by (rule taken_take_page [OF "1.prems"(1) free])
    show ?thesis
    proof (cases "length ?r1 = count")
      case True
      have "taken a [?p] (?a1\<lparr>next_free_hint := ?p + 1\<rparr>)" using taken_hint [OF t] lt by simp
      with True nz lt "1.prems"(2) show ?thesis
        by (auto simp: drain_word.simps [of count w a result] drained_def Let_def
            intro!: exI [of _ "[?p]"])
    next
      case False
      with "1.prems" t have "drained count ?a1 ?r1 {w} (drain_word count w ?a1 ?r1)"
        by (intro "1.IH") (auto simp: nz lt taken_def not_le)
      then have "drained count a result ({} \<union> {w}) (drain_word count w ?a1 ?r1)"
        by (rule drained_step [OF t, rotated]) simp_all
      with False nz lt "1.prems"(2) show ?thesis
        by (simp add: drain_word.simps [of count w a result] Let_def)
    qed
  qed
qed

lemma drain_words_drained:
  "ba_wf a \<Longrightarrow> \<forall>w \<in> set ws. w < length (bitmap a) \<Longrightarrow> length result < count \<Longrightarrow>
   drained count a result (set ws) (drain_words count ws a result)"
proof (induction ws arbitrary: a result)
  case Nil
  then show ?case using taken_refl by (auto simp: drained_def)
next
  case (Cons w ws)
  then have d: "drained count a result {w} (drain_word count w a result)"
    by (intro drain_word_drained) auto
  show ?case
  proof (cases "drain_word count w a result")
    case (Inr r)
    with d show ?thesis by (cases r) (simp add: drained_def)
  next
    case (Inl r)
    obtain a1 result1 where r: "r = (a1, result1)" by (cases r)
    from d Inl r obtain ps where t: "taken a ps a1"
      and r1: "result1 = result @ map (page_frame a) ps" "length result1 < count"
      and keep: "\<forall>i. is_free a1 i \<longrightarrow> i div 64 \<notin> {w}"
      by (auto simp: drained_def)
    from t Cons.prems have "ba_wf a1" "\<forall>w \<in> set ws. w < length (bitmap a1)"
      by (auto simp: taken_def)
    with r1(2) have "drained count a1 result1 (set ws) (drain_words count ws a1 result1)"
      by (intro Cons.IH)
    with drained_step [OF t r1(1) _ keep] show ?thesis by (simp add: Inl r)
  qed
qed

text \<open>The two passes together cover every word, so a batch fails only for want of pages.\<close>

lemma ba_alloc_pages_Some:
  assumes wf: "ba_wf a" and al: "ba_alloc_pages count a = (Some frames, a')"
  shows "\<exists>ps. taken a ps a' \<and> frames = map (page_frame a) ps \<and> length frames = count"
proof (cases "count = 0")
  case True
  with al show ?thesis using taken_refl [OF wf] by (auto simp: ba_alloc_pages_def)
next
  case False
  let ?s = "next_free_hint a div 64"
  let ?d1 = "drain_words count [?s..<length (bitmap a)] a []"
  from wf False have d1: "drained count a [] (set [?s..<length (bitmap a)]) ?d1"
    by (intro drain_words_drained) auto
  show ?thesis
  proof (cases ?d1)
    case (Inr r)
    with d1 al False show ?thesis
      by (auto simp: ba_alloc_pages_def Let_def drained_def split: if_splits)
  next
    case (Inl r)
    obtain a1 result1 where r: "r = (a1, result1)" by (cases r)
    from d1 Inl r obtain ps where t: "taken a ps a1" and r1: "result1 = [] @ map (page_frame a) ps"
      and l1: "length result1 < count" by (auto simp: drained_def)
    have "drained count a1 result1 (set [0..<?s]) (drain_words count [0..<?s] a1 result1)"
      using t l1 hint_word_in_range [OF wf] by (intro drain_words_drained) (auto simp: taken_def)
    then have "drained count a [] ({} \<union> set [0..<?s]) (drain_words count [0..<?s] a1 result1)"
      by (rule drained_step [OF t r1]) simp
    with al False Inl r show ?thesis
      by (auto simp: ba_alloc_pages_def Let_def drained_def split: if_splits sum.splits)
  qed
qed

lemma drained_all_short:
  assumes wf: "ba_wf a" and d: "drained count a [] UNIV (Inl (a', result))"
  shows "free_pages a < count"
proof -
  from d obtain ps where t: "taken a ps a'" and r: "result = map (page_frame a) ps"
    and l: "length result < count" and none: "\<forall>i. \<not> is_free a' i"
    by (auto simp: drained_def)
  from t none have "free_set a \<subseteq> set ps" by (auto simp: taken_def free_set_def)
  then have "card (free_set a) \<le> length ps" by (metis card_length card_mono finite_set order_trans)
  with l r wf show ?thesis by (simp add: ba_wf_def)
qed

lemma ba_alloc_pages_None:
  assumes wf: "ba_wf a" and al: "ba_alloc_pages count a = (None, a')"
  shows "free_pages a < count \<and> a' = a"
proof (rule ccontr)
  assume contra: "\<not> (free_pages a < count \<and> a' = a)"
  with al have ge: "\<not> free_pages a < count" and nz: "count \<noteq> 0"
    by (auto simp: ba_alloc_pages_def split: if_splits)
  let ?s = "next_free_hint a div 64"
  let ?d1 = "drain_words count [?s..<length (bitmap a)] a []"
  from wf nz have d1: "drained count a [] (set [?s..<length (bitmap a)]) ?d1"
    by (intro drain_words_drained) auto
  from al nz ge obtain a1 result1 where Inl: "?d1 = Inl (a1, result1)"
    by (auto simp: ba_alloc_pages_def Let_def split: sum.splits)
  with d1 obtain ps where t: "taken a ps a1" and r1: "result1 = [] @ map (page_frame a) ps"
    and l1: "length result1 < count"
    and keep: "\<forall>i. is_free a1 i \<longrightarrow> i div 64 \<notin> set [?s..<length (bitmap a)]"
    by (auto simp: drained_def)
  let ?d2 = "drain_words count [0..<?s] a1 result1"
  have "drained count a1 result1 (set [0..<?s]) ?d2"
    using t l1 hint_word_in_range [OF wf] by (intro drain_words_drained) (auto simp: taken_def)
  then have d2: "drained count a [] (set [?s..<length (bitmap a)] \<union> set [0..<?s]) ?d2"
    by (rule drained_step [OF t r1 _ keep])
  from al nz ge Inl obtain a2 result2 where Inl2: "?d2 = Inl (a2, result2)"
    by (auto simp: ba_alloc_pages_def Let_def split: sum.splits)
  have "drained count a [] UNIV (Inl (a2, result2))"
    using d2 Inl2 by (fastforce simp: drained_def is_free_iff taken_def)
  then show False using drained_all_short [OF wf] ge by blast
qed

section \<open>Contiguous allocation\<close>

definition run_free :: "bitmap_allocator \<Rightarrow> nat \<Rightarrow> nat \<Rightarrow> bool" where
  "run_free a start count \<longleftrightarrow> (\<forall>i \<in> {start..<start + count}. is_free a i)"

lemma find_run_Some:
  assumes "find_run count a [p..<n] run_start run_len = Some r"
    and "run_len < count" "run_len \<le> p" "run_len \<noteq> 0 \<longrightarrow> run_start = p - run_len"
    and "\<forall>i \<in> {p - run_len..<p}. is_free a i"
  shows "run_free a r count \<and> r + count \<le> n"
  using assms
proof (induction "[p..<n]" arbitrary: p run_start run_len)
  case Nil
  then show ?case by simp
next
  case (Cons x xs)
  have pn: "p < n" and xs: "xs = [Suc p..<n]"
    using Cons.hyps(2) [symmetric] unfolding upt_eq_Cons_conv by auto
  have eq: "[p..<n] = p # [Suc p..<n]" using pn by (simp add: upt_conv_Cons)
  let ?rs = "if run_len = 0 then p else run_start"
  show ?case
  proof (cases "is_free a p")
    case False
    with Cons.prems(1) eq have "find_run count a [Suc p..<n] run_start 0 = Some r" by simp
    with Cons.prems(2) show ?thesis using Cons.hyps(1) [OF xs, of run_start 0] by simp
  next
    case free: True
    have rs: "?rs = p - run_len" using Cons.prems(4) by auto
    have all: "\<forall>i \<in> {p - run_len..<Suc p}. is_free a i"
      using Cons.prems(5) free by (auto simp: less_Suc_eq)
    show ?thesis
    proof (cases "run_len + 1 = count")
      case True
      with Cons.prems(1) eq free rs have "r = p - run_len" by (simp add: Let_def)
      with all True Cons.prems(3) pn show ?thesis by (auto simp: run_free_def)
    next
      case False
      with Cons.prems(1) eq free have "find_run count a [Suc p..<n] ?rs (run_len + 1) = Some r"
        by (simp add: Let_def)
      with False all rs Cons.prems(2,3) show ?thesis
        using Cons.hyps(1) [OF xs, of ?rs "run_len + 1"] by simp
    qed
  qed
qed

lemma find_run_None:
  assumes "find_run count a [p..<n] run_start run_len = None"
    and "run_len < count" "run_len \<le> p" "p - run_len \<le> r" "r + count \<le> n"
  shows "\<not> run_free a r count"
  using assms
proof (induction "[p..<n]" arbitrary: p run_start run_len)
  case Nil
  have "n \<le> p" using Nil.hyps [symmetric] Nil.prems by (simp add: upt_eq_Nil_conv) 
  with Nil.prems show ?case by linarith
next
  case (Cons x xs)
  have pn: "p < n" and xs: "xs = [Suc p..<n]"
    using Cons.hyps(2) [symmetric] unfolding upt_eq_Cons_conv by auto
  have eq: "[p..<n] = p # [Suc p..<n]" using pn by (simp add: upt_conv_Cons)
  show ?case
  proof (cases "is_free a p")
    case True
    with Cons.prems(1) eq have "run_len + 1 \<noteq> count"
      "find_run count a [Suc p..<n] (if run_len = 0 then p else run_start) (run_len + 1) = None"
      by (auto simp: Let_def split: if_splits)
    with Cons.prems(2-5) show ?thesis
      using Cons.hyps(1) [OF xs, of "if run_len = 0 then p else run_start" "run_len + 1"] by simp
  next
    case False
    show ?thesis
    proof (cases "Suc p \<le> r")
      case True
      from False Cons.prems(1) eq have "find_run count a [Suc p..<n] run_start 0 = None" by simp
      with True Cons.prems(2-5) show ?thesis
        using Cons.hyps(1) [OF xs, of run_start 0] by simp
    next
      case le: False
      with Cons.prems have "p \<in> {r..<r + count}" by auto
      with False show ?thesis by (auto simp: run_free_def)
    qed
  qed
qed

lemma taken_take_run:
  assumes wf: "ba_wf a" and run: "run_free a r count" "r + count \<le> total_pages a"
  shows "taken a [r..<r + count] (take_run r count a)"
proof -
  have sub: "{r..<r + count} \<subseteq> free_set a" using wf run by (auto simp: run_free_def free_set_iff)
  have fs: "free_set (take_run r count a) = free_set a - {r..<r + count}"
    by (auto simp: free_set_def take_run_def Let_def)
  have "ba_wf (take_run r count a)"
    using wf run(2) sub fs by (auto simp: ba_wf_def take_run_def Let_def card_Diff_subset)
  with sub fs show ?thesis by (simp add: taken_def take_run_def Let_def)
qed

lemma ba_alloc_pages_contiguous_Some:
  assumes wf: "ba_wf a" and al: "ba_alloc_pages_contiguous count a = (Some f, a')"
  shows "\<exists>r. run_free a r count \<and> f = page_frame a r \<and> taken a [r..<r + count] a'"
proof (cases "count = 1")
  case True
  with al obtain p where "p \<in> free_set a" "f = page_frame a p" "taken a [p] a'"
    using ba_alloc_page_Some [OF wf] by (auto simp: ba_alloc_pages_contiguous_def)
  with True wf show ?thesis by (auto simp: run_free_def free_set_iff)
next
  case False
  with al obtain r h where r: "find_run count a [h..<total_pages a] 0 0 = Some r"
    and f: "f = page_frame a r" and a': "a' = take_run r count a" and nz: "count \<noteq> 0"
    by (auto simp: ba_alloc_pages_contiguous_def Let_def split: if_splits option.splits)
  have run: "run_free a r count \<and> r + count \<le> total_pages a"
    using find_run_Some [OF r] nz by auto
  with taken_take_run [OF wf] f a' show ?thesis by blast
qed

lemma ba_alloc_pages_contiguous_None:
  assumes wf: "ba_wf a" and al: "ba_alloc_pages_contiguous count a = (None, a')"
    and nz: "count \<noteq> 0"
  shows "(\<forall>r. \<not> run_free a r count) \<and> a' = a"
proof (cases "count = 1")
  case True
  with al have "free_set a = {} \<and> a' = a"
    using ba_alloc_page_None [OF wf] by (simp add: ba_alloc_pages_contiguous_def)
  with True wf show ?thesis by (auto simp: run_free_def free_set_iff [symmetric])
next
  case ne: False
  have a': "a' = a" using al ne nz
    by (auto simp: ba_alloc_pages_contiguous_def Let_def split: if_splits option.splits)
  have "\<not> run_free a r count" for r
  proof
    assume run: "run_free a r count"
    then have "{r..<r + count} \<subseteq> free_set a" using wf by (auto simp: run_free_def free_set_iff)
    then have card: "count \<le> free_pages a" and "r + count - 1 \<in> free_set a"
      using wf card_mono [of "free_set a" "{r..<r + count}"] nz by (auto simp: ba_wf_def)
    with nz have top: "r + count \<le> total_pages a" by (auto simp: free_set_def)
    from al ne nz card have "find_run count a [0..<total_pages a] 0 0 = None"
      by (auto simp: ba_alloc_pages_contiguous_def Let_def split: if_splits option.splits)
    from find_run_None [OF this] nz top run show False by simp
  qed
  with a' show ?thesis by blast
qed

section \<open>Release of pages\<close>

lemma ba_free_page_cases:
  assumes wf: "ba_wf a"
  shows "ba_free_page frame a =
    (let p = page_of a frame in
     if addr frame < base_addr a \<or> total_pages a \<le> p then (OutOfRange, a)
     else if p \<in> free_set a then (DoubleFree, a)
     else (Freed, (mark_free p a)\<lparr>free_pages := free_pages a + 1,
             next_free_hint := min p (next_free_hint a)\<rparr>))"
  by (auto simp: ba_free_page_def Let_def free_set_iff [OF wf] page_of_def)

lemma ba_wf_give_back:
  assumes wf: "ba_wf a" and p: "p < total_pages a" "p \<notin> free_set a" and h: "h \<le> total_pages a"
  shows "ba_wf ((mark_free p a)\<lparr>free_pages := free_pages a + 1, next_free_hint := h\<rparr>)"
    and "free_set ((mark_free p a)\<lparr>free_pages := free_pages a + 1, next_free_hint := h\<rparr>)
         = insert p (free_set a)"
proof -
  let ?a = "(mark_free p a)\<lparr>free_pages := free_pages a + 1, next_free_hint := h\<rparr>"
  show fs: "free_set ?a = insert p (free_set a)" using wf p by (simp add: free_set_mark_free)
  show "ba_wf ?a" using wf p h fs
    by (auto simp: ba_wf_def is_free_mark_free [OF page_word_in_range [OF wf p(1)]])
qed

lemma ba_wf_free_one:
  assumes wf: "ba_wf a"
  shows "ba_wf (free_one i a)"
    and "free_set (free_one i a) = free_set a \<union> (if i < total_pages a then {i} else {})"
    and "total_pages (free_one i a) = total_pages a" "base_addr (free_one i a) = base_addr a"
    and "next_free_hint (free_one i a) = next_free_hint a"
proof -
  have eq: "free_one i a = (if i < total_pages a \<and> i \<notin> free_set a
    then (mark_free i a)\<lparr>free_pages := free_pages a + 1, next_free_hint := next_free_hint a\<rparr> else a)"
    by (auto simp: free_one_def Let_def free_set_iff [OF wf])
  have h: "next_free_hint a \<le> total_pages a" using wf by (simp add: ba_wf_def)
  show "ba_wf (free_one i a)" using wf ba_wf_give_back(1) [OF wf _ _ h] by (simp add: eq)
  show "free_set (free_one i a) = free_set a \<union> (if i < total_pages a then {i} else {})"
    using ba_wf_give_back(2) [OF wf _ _ h] by (auto simp: eq)
  show "total_pages (free_one i a) = total_pages a" "base_addr (free_one i a) = base_addr a"
    "next_free_hint (free_one i a) = next_free_hint a" by (simp_all add: eq)
qed

lemma free_run_spec:
  assumes "ba_wf a"
  shows "ba_wf (fold (\<lambda>i. free_one (s + i)) is a)
    \<and> free_set (fold (\<lambda>i. free_one (s + i)) is a)
      = free_set a \<union> {p \<in> (\<lambda>i. s + i) ` set is. p < total_pages a}
    \<and> total_pages (fold (\<lambda>i. free_one (s + i)) is a) = total_pages a
    \<and> base_addr (fold (\<lambda>i. free_one (s + i)) is a) = base_addr a
    \<and> next_free_hint (fold (\<lambda>i. free_one (s + i)) is a) = next_free_hint a"
  using assms
proof (induction "is" arbitrary: a)
  case (Cons i "is")
  note f = ba_wf_free_one [OF Cons.prems, of "s + i"]
  show ?case using Cons.IH [OF f(1)] f by auto
qed simp

lemma ba_free_pages_contiguous_spec:
  assumes wf: "ba_wf a" and ge: "base_addr a \<le> addr frame"
  shows "ba_wf (ba_free_pages_contiguous frame count a)"
    and "free_set (ba_free_pages_contiguous frame count a)
         = free_set a \<union> {p. page_of a frame \<le> p \<and> p < page_of a frame + count \<and> p < total_pages a}"
    and "total_pages (ba_free_pages_contiguous frame count a) = total_pages a"
proof -
  let ?s = "page_of a frame"
  let ?a1 = "fold (\<lambda>i. free_one (?s + i)) [0..<count] a"
  note spec = free_run_spec [OF wf, of ?s "[0..<count]"]
  have eq: "ba_free_pages_contiguous frame count a =
    (if ?s < next_free_hint ?a1 then ?a1\<lparr>next_free_hint := ?s\<rparr> else ?a1)"
    using ge by (simp add: ba_free_pages_contiguous_def page_of_def Let_def)
  have img: "(\<lambda>i. ?s + i) ` set [0..<count] = {?s..<?s + count}"
    using image_add_atLeastLessThan [of ?s 0 count]
    by (simp only: set_upt add_0_left add.commute [of count])
  have wf1: "ba_wf ?a1" and tp: "total_pages ?a1 = total_pages a"
    and fs: "free_set ?a1 = free_set a \<union> {p \<in> {?s..<?s + count}. p < total_pages a}"
    using spec unfolding img by blast+
  have "?s < next_free_hint ?a1 \<Longrightarrow> ?s \<le> total_pages ?a1"
    using wf1 by (simp add: ba_wf_def)
  with wf1 show "ba_wf (ba_free_pages_contiguous frame count a)" unfolding eq by (simp add: ba_wf_hint)
  have "free_set (ba_free_pages_contiguous frame count a) = free_set ?a1" unfolding eq by simp
  then show "free_set (ba_free_pages_contiguous frame count a)
     = free_set a \<union> {p. ?s \<le> p \<and> p < ?s + count \<and> p < total_pages a}"
    unfolding fs by auto
  show "total_pages (ba_free_pages_contiguous frame count a) = total_pages a"
    unfolding eq using tp by simp
qed

section \<open>The bitmap allocator meets the frame contract\<close>

definition frames_managed :: "bitmap_allocator \<Rightarrow> phys_frame set" where
  "frames_managed a = page_frame a ` {..<total_pages a}"

definition frames_avail :: "bitmap_allocator \<Rightarrow> phys_frame set" where
  "frames_avail a = page_frame a ` free_set a"

definition release_frame :: "phys_frame \<Rightarrow> bitmap_allocator \<Rightarrow> bool \<times> bitmap_allocator" where
  "release_frame f a = (case ba_free_page f a of (r, a') \<Rightarrow> (r = Freed, a'))"

lemma frames_avail_iff: "ba_wf a \<Longrightarrow> page_frame a p \<in> frames_avail a \<longleftrightarrow> p \<in> free_set a"
  using page_frame_inj [of a p] by (auto simp: frames_avail_def)

lemma taken_frames:
  assumes wf: "ba_wf a" and t: "taken a ps a'"
  shows "frames_avail a' = frames_avail a - page_frame a ` set ps"
    and "frames_managed a' = frames_managed a"
proof -
  have pf: "page_frame a' = page_frame a" by (rule ext) (rule taken_page_frame [OF t])
  show "frames_avail a' = frames_avail a - page_frame a ` set ps"
    using t image_set_diff [of "page_frame a" "free_set a" "set ps"] page_frame_inj [OF wf]
    unfolding frames_avail_def pf by (simp add: taken_def inj_def)
  show "frames_managed a' = frames_managed a"
    using t by (simp add: frames_managed_def pf taken_def)
qed

lemma ba_free_page_held:
  assumes wf: "ba_wf a" and p: "p < total_pages a" "p \<notin> free_set a"
    and fr: "ba_free_page (page_frame a p) a = (r, a')"
  shows "r = Freed" "ba_wf a'" "free_set a' = insert p (free_set a)"
    "total_pages a' = total_pages a" "base_addr a' = base_addr a" "free_pages a' = free_pages a + 1"
proof -
  let ?a = "(mark_free p a)\<lparr>free_pages := free_pages a + 1,
             next_free_hint := min p (next_free_hint a)\<rparr>"
  have "ba_free_page (page_frame a p) a = (Freed, ?a)"
    using wf p by (simp add: ba_free_page_cases Let_def addr_page_frame)
  with fr have r: "r = Freed" and a': "a' = ?a" by simp_all
  show "r = Freed" by (rule r)
  have "min p (next_free_hint a) \<le> total_pages a" using p by simp
  from ba_wf_give_back [OF wf p this] show "ba_wf a'" "free_set a' = insert p (free_set a)"
    by (simp_all add: a')
  show "total_pages a' = total_pages a" "base_addr a' = base_addr a" "free_pages a' = free_pages a + 1"
    by (simp_all add: a')
qed

interpretation bitmap_frames:
  frame_allocator ba_wf frames_managed frames_avail ba_alloc_page release_frame
proof unfold_locales
  fix s assume "ba_wf s"
  then show "frames_avail s \<subseteq> frames_managed s"
    by (auto simp: frames_avail_def frames_managed_def free_set_def)
next
  fix s f s' assume wf: "ba_wf s" and al: "ba_alloc_page s = (Some f, s')"
  from ba_alloc_page_Some [OF this] obtain p where p: "p \<in> free_set s" "f = page_frame s p"
    and t: "taken s [p] s'" by blast
  then show "f \<in> frames_avail s \<and> frames_avail s' = frames_avail s - {f}
      \<and> frames_managed s' = frames_managed s \<and> ba_wf s'"
    using taken_frames [OF wf t] by (simp add: frames_avail_iff [OF wf] taken_def)
next
  fix s s' assume "ba_wf s" "ba_alloc_page s = (None, s')"
  from ba_alloc_page_None [OF this] show "frames_avail s = {} \<and> s' = s"
    by (simp add: frames_avail_def)
next
  fix s f ok s'
  assume wf: "ba_wf s" and "f \<in> frames_managed s" and na: "f \<notin> frames_avail s"
    and rel: "release_frame f s = (ok, s')"
  then obtain p where f: "f = page_frame s p" and p: "p < total_pages s"
    by (auto simp: frames_managed_def)
  with na have np: "p \<notin> free_set s" by (simp add: frames_avail_iff [OF wf])
  obtain r where fr: "ba_free_page (page_frame s p) s = (r, s')" and ok: "ok = (r = Freed)"
    using rel by (auto simp: release_frame_def f split: prod.splits)
  note held = ba_free_page_held [OF wf p np fr]
  have "page_frame s' = page_frame s" using held by (simp add: page_frame_def fun_eq_iff)
  then show "ok \<and> frames_avail s' = insert f (frames_avail s)
      \<and> frames_managed s' = frames_managed s \<and> ba_wf s'"
    using held ok f by (simp add: frames_avail_def frames_managed_def)
next
  fix s f assume wf: "ba_wf s" and "f \<in> frames_avail s"
  then obtain p where "f = page_frame s p" "p \<in> free_set s" by (auto simp: frames_avail_def)
  then show "release_frame f s = (False, s)"
    using wf by (auto simp: release_frame_def ba_free_page_cases Let_def addr_page_frame free_set_def)
qed

end
