(* ===== verification/Pmm_Global.thy ===== *)
theory Pmm_Global
  imports Pmm
begin

text \<open>
  The kernel-wide operations of \<^verbatim>\<open>src/pmm.rs\<close>: the global allocator behind its lock, the
  statistics counters, copy-on-write reference counts, zeroing of fresh frames, the reserve
  kept back from user demand paging, and the leak-tracking table. One call is one critical
  section (interrupts disabled, lock held), so a call is one state transformer.
  \<open>reclaim_to_pmm\<close> (the heap's span reclaim, which rests on the third-party \<open>talc\<close> heap) and
  \<open>reclaim_clean_file_pages\<close> are parameters of the operations that call them.
\<close>

section \<open>State\<close>

record pmm_state =
  PMM :: bitmap_allocator
  TOTAL_PAGES :: u64
  ALLOCATED_PAGES :: u64
  DOUBLE_FREE_COUNT :: u64
  USER_PAGES_FREED :: u64
  COW_REFCOUNTS :: "nat \<rightharpoonup> u16"
  ram :: "nat \<Rightarrow> u8"

definition pmm_init :: "nat \<Rightarrow> nat \<Rightarrow> nat \<Rightarrow> pmm_state \<Rightarrow> pmm_state option" where
  "pmm_init ram_base ram_size kernel_end s =
     (case ba_init ram_base ram_size kernel_end (PMM s) of
        None \<Rightarrow> None
      | Some a \<Rightarrow> Some (s\<lparr>PMM := a, TOTAL_PAGES := of_nat (total_pages a),
                         ALLOCATED_PAGES := of_nat (total_pages a - free_pages a)\<rparr>))"

text \<open>\<open>reserve_range\<close>: a secondary core's partition is taken out of the free pool.\<close>

fun reserve_loop :: "nat list \<Rightarrow> bitmap_allocator \<Rightarrow> nat \<Rightarrow> bitmap_allocator \<times> nat" where
  "reserve_loop [] a reserved = (a, reserved)"
| "reserve_loop (i # is) a reserved =
     (if i \<ge> total_pages a then (a, reserved)
      else if is_free a i then reserve_loop is (mark_used i a) (reserved + 1)
      else reserve_loop is a reserved)"

definition reserve_range :: "nat \<Rightarrow> nat \<Rightarrow> pmm_state \<Rightarrow> pmm_state" where
  "reserve_range base len s =
     (if base < base_addr (PMM s) then s
      else let start = (base - base_addr (PMM s)) div PAGE_SIZE;
               pages = len div PAGE_SIZE;
               (a, reserved) = reserve_loop [start..<start + pages] (PMM s) 0
           in s\<lparr>PMM := a\<lparr>free_pages := free_pages a - reserved\<rparr>,
                ALLOCATED_PAGES := ALLOCATED_PAGES s + of_nat reserved\<rparr>)"

section \<open>Copy-on-write reference counts\<close>

definition cow_ref_inc :: "nat \<Rightarrow> pmm_state \<Rightarrow> pmm_state" where
  "cow_ref_inc pa s =
     (let entry = (case COW_REFCOUNTS s pa of None \<Rightarrow> 1 | Some c \<Rightarrow> c)
      in s\<lparr>COW_REFCOUNTS := (COW_REFCOUNTS s)(pa \<mapsto> sat_add entry 1)\<rparr>)"

definition cow_ref_dec :: "nat \<Rightarrow> pmm_state \<Rightarrow> bool \<times> pmm_state" where
  "cow_ref_dec pa s =
     (case COW_REFCOUNTS s pa of
        Some count \<Rightarrow>
          (let count1 = sat_sub count 1 in
           if count1 = 0 then (True, s\<lparr>COW_REFCOUNTS := (COW_REFCOUNTS s)(pa := None)\<rparr>)
           else (False, s\<lparr>COW_REFCOUNTS := (COW_REFCOUNTS s)(pa \<mapsto> count1)\<rparr>))
      | None \<Rightarrow> (True, s))"

definition cow_ref_get :: "pmm_state \<Rightarrow> nat \<Rightarrow> u16" where
  "cow_ref_get s pa = (case COW_REFCOUNTS s pa of None \<Rightarrow> 0 | Some c \<Rightarrow> c)"

section \<open>Allocation and release\<close>

definition alloc_page_once :: "pmm_state \<Rightarrow> phys_frame option \<times> pmm_state" where
  "alloc_page_once s =
     (case ba_alloc_page (PMM s) of
        (Some f, a) \<Rightarrow> (Some f, s\<lparr>PMM := a, ALLOCATED_PAGES := ALLOCATED_PAGES s + 1\<rparr>)
      | (None, a) \<Rightarrow> (None, s\<lparr>PMM := a\<rparr>))"

type_synonym reclaimer = "pmm_state \<Rightarrow> nat \<times> pmm_state"

definition alloc_page :: "reclaimer \<Rightarrow> pmm_state \<Rightarrow> phys_frame option \<times> pmm_state" where
  "alloc_page reclaim_to_pmm s =
     (case alloc_page_once s of
        (Some f, s1) \<Rightarrow> (Some f, s1)
      | (None, s1) \<Rightarrow>
          (case reclaim_to_pmm s1 of (n, s2) \<Rightarrow>
             if n > 0 then alloc_page_once s2 else (None, s2)))"

definition free_page :: "phys_frame \<Rightarrow> pmm_state \<Rightarrow> pmm_state" where
  "free_page frame s =
     (case cow_ref_dec (addr frame) s of
        (False, s1) \<Rightarrow> s1
      | (True, s1) \<Rightarrow>
          (case ba_free_page frame (PMM s1) of
             (Freed, a) \<Rightarrow> s1\<lparr>PMM := a, ALLOCATED_PAGES := ALLOCATED_PAGES s1 - 1,
                              USER_PAGES_FREED := USER_PAGES_FREED s1 + 1\<rparr>
           | (DoubleFree, a) \<Rightarrow> s1\<lparr>PMM := a, DOUBLE_FREE_COUNT := DOUBLE_FREE_COUNT s1 + 1\<rparr>
           | (OutOfRange, a) \<Rightarrow> s1\<lparr>PMM := a\<rparr>))"

definition free_pages_contiguous :: "phys_frame \<Rightarrow> nat \<Rightarrow> pmm_state \<Rightarrow> pmm_state" where
  "free_pages_contiguous frame count s =
     s\<lparr>PMM := ba_free_pages_contiguous frame count (PMM s),
       ALLOCATED_PAGES := ALLOCATED_PAGES s - of_nat count\<rparr>"

text \<open>\<open>write_bytes(virt, 0, n)\<close>: physical memory is identity mapped for the kernel.\<close>

definition zero_bytes :: "nat \<Rightarrow> nat \<Rightarrow> pmm_state \<Rightarrow> pmm_state" where
  "zero_bytes start n s =
     s\<lparr>ram := (\<lambda>x. if start \<le> x \<and> x < start + n then 0 else ram s x)\<rparr>"

definition alloc_page_zeroed :: "reclaimer \<Rightarrow> pmm_state \<Rightarrow> phys_frame option \<times> pmm_state" where
  "alloc_page_zeroed reclaim_to_pmm s =
     (case alloc_page reclaim_to_pmm s of
        (None, s1) \<Rightarrow> (None, s1)
      | (Some frame, s1) \<Rightarrow> (Some frame, zero_bytes (addr frame) PAGE_SIZE s1))"

definition alloc_contiguous_once :: "nat \<Rightarrow> pmm_state \<Rightarrow> phys_frame option \<times> pmm_state" where
  "alloc_contiguous_once count s =
     (case ba_alloc_pages_contiguous count (PMM s) of
        (None, a) \<Rightarrow> (None, s\<lparr>PMM := a\<rparr>)
      | (Some f, a) \<Rightarrow> (Some f, s\<lparr>PMM := a, ALLOCATED_PAGES := ALLOCATED_PAGES s + of_nat count\<rparr>))"

definition alloc_pages_contiguous_zeroed ::
    "reclaimer \<Rightarrow> nat \<Rightarrow> pmm_state \<Rightarrow> phys_frame option \<times> pmm_state" where
  "alloc_pages_contiguous_zeroed reclaim_to_pmm count s =
     (case (case alloc_contiguous_once count s of
              (Some f, s1) \<Rightarrow> (Some f, s1)
            | (None, s1) \<Rightarrow>
                (case reclaim_to_pmm s1 of (n, s2) \<Rightarrow>
                   if n > 0 then alloc_contiguous_once count s2 else (None, s2))) of
        (None, s3) \<Rightarrow> (None, s3)
      | (Some frame, s3) \<Rightarrow> (Some frame, zero_bytes (addr frame) (count * PAGE_SIZE) s3))"

definition alloc_pages_zeroed :: "nat \<Rightarrow> pmm_state \<Rightarrow> phys_frame list option \<times> pmm_state" where
  "alloc_pages_zeroed count s =
     (case ba_alloc_pages count (PMM s) of
        (None, a) \<Rightarrow> (None, s\<lparr>PMM := a\<rparr>)
      | (Some frames, a) \<Rightarrow>
          (Some frames,
           fold (\<lambda>frame. zero_bytes (addr frame) PAGE_SIZE) frames
             (s\<lparr>PMM := a, ALLOCATED_PAGES := ALLOCATED_PAGES s + of_nat count\<rparr>)))"

section \<open>Statistics and the user reserve\<close>

definition pmm_stats :: "pmm_state \<Rightarrow> u64 \<times> u64 \<times> u64" where
  "pmm_stats s = (TOTAL_PAGES s, ALLOCATED_PAGES s, sat_sub (TOTAL_PAGES s) (ALLOCATED_PAGES s))"

definition free_count :: "pmm_state \<Rightarrow> u64" where
  "free_count s = (case pmm_stats s of (tot, allocated, _) \<Rightarrow> sat_sub tot allocated)"

definition USER_PAGE_RESERVE :: u64 where
  "USER_PAGE_RESERVE = 16"

definition user_alloc_would_starve :: "u64 \<Rightarrow> bool" where
  "user_alloc_would_starve free \<longleftrightarrow> free \<le> USER_PAGE_RESERVE"

definition user_readahead_budget :: "u64 \<Rightarrow> u64" where
  "user_readahead_budget free = sat_sub free USER_PAGE_RESERVE"

definition USER_RECLAIM_BATCH :: nat where
  "USER_RECLAIM_BATCH = 512"

definition alloc_page_zeroed_user ::
    "reclaimer \<Rightarrow> (nat \<Rightarrow> pmm_state \<Rightarrow> pmm_state) \<Rightarrow> pmm_state \<Rightarrow> phys_frame option \<times> pmm_state" where
  "alloc_page_zeroed_user reclaim_to_pmm reclaim_clean_file_pages s =
     (if user_alloc_would_starve (free_count s)
      then let s1 = snd (reclaim_to_pmm s) in
           if user_alloc_would_starve (free_count s1)
           then let s2 = reclaim_clean_file_pages USER_RECLAIM_BATCH s1 in
                if user_alloc_would_starve (free_count s2) then (None, s2)
                else alloc_page_zeroed reclaim_to_pmm s2
           else alloc_page_zeroed reclaim_to_pmm s1
      else alloc_page_zeroed reclaim_to_pmm s)"

section \<open>Leak tracking\<close>

datatype frame_source = Kernel | UserPageTable | UserData | ElfLoader | UnknownSource

record frame_tracker =
  allocations :: "nat \<rightharpoonup> frame_source"
  kernel_count :: nat
  user_page_table_count :: nat
  user_data_count :: nat
  elf_loader_count :: nat
  unknown_count :: nat
  total_tracked :: nat
  total_untracked :: nat

definition FrameTracker_new :: frame_tracker where
  "FrameTracker_new = \<lparr>allocations = Map.empty, kernel_count = 0, user_page_table_count = 0,
     user_data_count = 0, elf_loader_count = 0, unknown_count = 0,
     total_tracked = 0, total_untracked = 0\<rparr>"

definition ft_track :: "nat \<Rightarrow> frame_source \<Rightarrow> frame_tracker \<Rightarrow> frame_tracker" where
  "ft_track a src t =
     (let t1 = t\<lparr>allocations := (allocations t)(a \<mapsto> src)\<rparr>;
          t2 = (case src of
                  Kernel \<Rightarrow> t1\<lparr>kernel_count := kernel_count t1 + 1\<rparr>
                | UserPageTable \<Rightarrow> t1\<lparr>user_page_table_count := user_page_table_count t1 + 1\<rparr>
                | UserData \<Rightarrow> t1\<lparr>user_data_count := user_data_count t1 + 1\<rparr>
                | ElfLoader \<Rightarrow> t1\<lparr>elf_loader_count := elf_loader_count t1 + 1\<rparr>
                | UnknownSource \<Rightarrow> t1\<lparr>unknown_count := unknown_count t1 + 1\<rparr>)
      in t2\<lparr>total_tracked := total_tracked t2 + 1\<rparr>)"

definition ft_untrack :: "nat \<Rightarrow> frame_tracker \<Rightarrow> frame_source option \<times> frame_tracker" where
  "ft_untrack a t =
     (case allocations t a of
        Some src \<Rightarrow>
          (let t1 = t\<lparr>allocations := (allocations t)(a := None)\<rparr>;
               t2 = (case src of
                       Kernel \<Rightarrow> t1\<lparr>kernel_count := kernel_count t1 - 1\<rparr>
                     | UserPageTable \<Rightarrow> t1\<lparr>user_page_table_count := user_page_table_count t1 - 1\<rparr>
                     | UserData \<Rightarrow> t1\<lparr>user_data_count := user_data_count t1 - 1\<rparr>
                     | ElfLoader \<Rightarrow> t1\<lparr>elf_loader_count := elf_loader_count t1 - 1\<rparr>
                     | UnknownSource \<Rightarrow> t1\<lparr>unknown_count := unknown_count t1 - 1\<rparr>)
           in (Some src, t2\<lparr>total_untracked := total_untracked t2 + 1\<rparr>))
      | None \<Rightarrow> (None, t))"

section \<open>The counters agree with the bitmap\<close>

definition pmm_ok :: "pmm_state \<Rightarrow> bool" where
  "pmm_ok s \<longleftrightarrow> ba_wf (PMM s) \<and> total_pages (PMM s) < 2 ^ 64
     \<and> TOTAL_PAGES s = of_nat (total_pages (PMM s))
     \<and> ALLOCATED_PAGES s = of_nat (total_pages (PMM s) - free_pages (PMM s))"

lemma free_pages_le_total: "ba_wf a \<Longrightarrow> free_pages a \<le> total_pages a"
  using card_mono [of "{..<total_pages a}" "free_set a"] by (auto simp: ba_wf_def free_set_def)

lemma pmm_ok_ram [simp]: "pmm_ok (s\<lparr>ram := m\<rparr>) = pmm_ok s"
  by (simp add: pmm_ok_def)

lemma pmm_ok_zero_bytes [simp]: "pmm_ok (zero_bytes start n s) = pmm_ok s"
  by (simp add: zero_bytes_def)

lemma pmm_ok_cow [simp]: "pmm_ok (s\<lparr>COW_REFCOUNTS := m\<rparr>) = pmm_ok s"
  by (simp add: pmm_ok_def)

lemma pmm_zero_bytes [simp]:
  "PMM (zero_bytes start n s) = PMM s"
  "ALLOCATED_PAGES (zero_bytes start n s) = ALLOCATED_PAGES s"
  "TOTAL_PAGES (zero_bytes start n s) = TOTAL_PAGES s"
  by (simp_all add: zero_bytes_def)

lemma free_count_ok:
  assumes ok: "pmm_ok s"
  shows "unat (free_count s) = card (free_set (PMM s))"
proof -
  from ok have wf: "ba_wf (PMM s)" and lt: "total_pages (PMM s) < 2 ^ 64"
    by (auto simp: pmm_ok_def)
  have le: "free_pages (PMM s) \<le> total_pages (PMM s)" by (rule free_pages_le_total [OF wf])
  have "unat (TOTAL_PAGES s) = total_pages (PMM s)"
    "unat (ALLOCATED_PAGES s) = total_pages (PMM s) - free_pages (PMM s)"
    using ok lt by (auto simp: pmm_ok_def unat_of_nat intro!: mod_less)
  then show ?thesis using le wf by (simp add: free_count_def pmm_stats_def unat_sat_sub ba_wf_def)
qed

lemma taken_count:
  assumes "ba_wf a" "taken a ps a'"
  shows "free_pages a' + length ps = free_pages a"
  using assms card_mono [of "free_set a" "set ps"] taken_free_pages [OF assms(2,1)]
  by (auto simp: taken_def ba_wf_def distinct_card)

lemma pmm_ok_taken [wf_intros]:
  assumes ok: "pmm_ok s" and t: "taken (PMM s) ps a'"
  shows "pmm_ok (s\<lparr>PMM := a', ALLOCATED_PAGES := ALLOCATED_PAGES s + of_nat (length ps)\<rparr>)"
proof -
  from ok have wf: "ba_wf (PMM s)" by (simp add: pmm_ok_def)
  have "free_pages a' + length ps = free_pages (PMM s)" by (rule taken_count [OF wf t])
  moreover have "free_pages (PMM s) \<le> total_pages (PMM s)" by (rule free_pages_le_total [OF wf])
  ultimately have "total_pages a' - free_pages a' = total_pages (PMM s) - free_pages (PMM s) + length ps"
    using t by (simp add: taken_def)
  then show ?thesis using ok t by (simp add: pmm_ok_def taken_def)
qed

lemma pmm_ok_init:
  assumes "ram_base mod PAGE_SIZE = 0" "ram_size < 2 ^ 64"
    and i: "pmm_init ram_base ram_size kernel_end s = Some s'"
  shows "pmm_ok s'"
proof -
  from i obtain a where a: "ba_init ram_base ram_size kernel_end (PMM s) = Some a"
    and s': "s' = s\<lparr>PMM := a, TOTAL_PAGES := of_nat (total_pages a),
                    ALLOCATED_PAGES := of_nat (total_pages a - free_pages a)\<rparr>"
    by (auto simp: pmm_init_def split: option.splits)
  have "total_pages a = ram_size div PAGE_SIZE" by (rule ba_init_spec(1) [OF a])
  then have "total_pages a < 2 ^ 64" using assms(2) div_le_dividend [of ram_size PAGE_SIZE] by linarith
  with ba_init_wf(1) [OF assms(1) a] s' show ?thesis by (simp add: pmm_ok_def)
qed

lemma alloc_page_once_Some:
  assumes ok: "pmm_ok s" and al: "alloc_page_once s = (Some f, s')"
  shows "pmm_ok s'" and "\<exists>p. p \<in> free_set (PMM s) \<and> f = page_frame (PMM s) p
      \<and> taken (PMM s) [p] (PMM s') \<and> ram s' = ram s \<and> COW_REFCOUNTS s' = COW_REFCOUNTS s"
proof -
  from ok have wf: "ba_wf (PMM s)" by (simp add: pmm_ok_def)
  from al obtain a where a: "ba_alloc_page (PMM s) = (Some f, a)"
    and s': "s' = s\<lparr>PMM := a, ALLOCATED_PAGES := ALLOCATED_PAGES s + 1\<rparr>"
    by (auto simp: alloc_page_once_def split: prod.splits option.splits)
  from ba_alloc_page_Some [OF wf a] obtain p where
    p: "p \<in> free_set (PMM s)" "f = page_frame (PMM s) p" and t: "taken (PMM s) [p] a" by blast
  from pmm_ok_taken [OF ok t] show "pmm_ok s'" by (simp add: s')
  from p t show "\<exists>p. p \<in> free_set (PMM s) \<and> f = page_frame (PMM s) p
      \<and> taken (PMM s) [p] (PMM s') \<and> ram s' = ram s \<and> COW_REFCOUNTS s' = COW_REFCOUNTS s"
    by (auto simp: s')
qed

lemma alloc_page_once_None:
  assumes ok: "pmm_ok s" and al: "alloc_page_once s = (None, s')"
  shows "s' = s \<and> free_set (PMM s) = {}"
proof -
  from al obtain a where a: "ba_alloc_page (PMM s) = (None, a)" and s': "s' = s\<lparr>PMM := a\<rparr>"
    by (auto simp: alloc_page_once_def split: prod.splits option.splits)
  from ok have "ba_wf (PMM s)" by (simp add: pmm_ok_def)
  from ba_alloc_page_None [OF this a] s' show ?thesis by simp
qed

lemma alloc_pages_zeroed_ok:
  assumes ok: "pmm_ok s" and al: "alloc_pages_zeroed count s = (r, s')"
  shows "pmm_ok s'"
proof -
  from ok have wf: "ba_wf (PMM s)" by (simp add: pmm_ok_def)
  have zero: "pmm_ok (fold (\<lambda>frame. zero_bytes (addr frame) PAGE_SIZE) frames t) = pmm_ok t"
    for frames t by (induction frames arbitrary: t) simp_all
  show ?thesis
  proof (cases "ba_alloc_pages count (PMM s)")
    case (Pair r' a)
    show ?thesis
    proof (cases r')
      case None
      with Pair ba_alloc_pages_None [OF wf, of count a] al ok show ?thesis
        by (auto simp: alloc_pages_zeroed_def)
    next
      case (Some frames)
      with Pair ba_alloc_pages_Some [OF wf] obtain ps where
        "taken (PMM s) ps a" "frames = map (page_frame (PMM s)) ps" "length frames = count" by blast
      with Pair Some al pmm_ok_taken [OF ok] show ?thesis
        by (auto simp: alloc_pages_zeroed_def zero)
    qed
  qed
qed

lemma alloc_contiguous_once_ok:
  assumes ok: "pmm_ok s" and al: "alloc_contiguous_once count s = (r, s')"
  shows "pmm_ok s'"
proof -
  from ok have wf: "ba_wf (PMM s)" by (simp add: pmm_ok_def)
  show ?thesis
  proof (cases "ba_alloc_pages_contiguous count (PMM s)")
    case (Pair r' a)
    show ?thesis
    proof (cases r')
      case None
      have "a = PMM s"
        using None Pair ba_alloc_pages_contiguous_None [OF wf, of count a]
        by (cases "count = 0") (auto simp: ba_alloc_pages_contiguous_def)
      with None Pair al ok show ?thesis by (auto simp: alloc_contiguous_once_def)
    next
      case (Some f)
      with Pair ba_alloc_pages_contiguous_Some [OF wf] obtain p where
        t: "taken (PMM s) [p..<p + count] a" by blast
      from pmm_ok_taken [OF ok t] Pair Some al show ?thesis
        by (auto simp: alloc_contiguous_once_def)
    qed
  qed
qed

lemma alloc_page_ok:
  assumes ok: "pmm_ok s" and rec: "\<And>t. pmm_ok t \<Longrightarrow> pmm_ok (snd (reclaim t))"
    and al: "alloc_page reclaim s = (r, s')"
  shows "pmm_ok s'"
proof (cases "alloc_page_once s")
  case (Pair r1 s1)
  show ?thesis
  proof (cases r1)
    case (Some f)
    with Pair al alloc_page_once_Some(1) [OF ok, of f s1] show ?thesis by (simp add: alloc_page_def)
  next
    case None
    with Pair alloc_page_once_None [OF ok, of s1] have s1: "s1 = s" by simp
    obtain n s2 where rc: "reclaim s = (n, s2)" by (cases "reclaim s")
    with rec [OF ok] have ok2: "pmm_ok s2" by simp
    show ?thesis
    proof (cases "n > 0")
      case True
      with al Pair None s1 rc have "alloc_page_once s2 = (r, s')" by (simp add: alloc_page_def)
      then show ?thesis
        using alloc_page_once_Some(1) [OF ok2] alloc_page_once_None [OF ok2, of s'] ok2
        by (cases r) auto
    next
      case False
      with al Pair None s1 rc ok2 show ?thesis by (simp add: alloc_page_def)
    qed
  qed
qed

text \<open>With pages left, no reclaim happens and the frame comes straight from the bitmap.\<close>

lemma alloc_page_zeroed_direct:
  assumes ok: "pmm_ok s" and ne: "free_set (PMM s) \<noteq> {}"
  obtains f s' p where "alloc_page_zeroed reclaim s = (Some f, s')" "pmm_ok s'"
    "p \<in> free_set (PMM s)" "f = page_frame (PMM s) p" "taken (PMM s) [p] (PMM s')"
    "\<forall>x. addr f \<le> x \<and> x < addr f + PAGE_SIZE \<longrightarrow> ram s' x = 0"
    "\<forall>x. \<not> (addr f \<le> x \<and> x < addr f + PAGE_SIZE) \<longrightarrow> ram s' x = ram s x"
proof -
  obtain r s1 where once: "alloc_page_once s = (r, s1)" by (cases "alloc_page_once s")
  with alloc_page_once_None [OF ok] ne obtain f where r: "r = Some f" by (cases r) auto
  note sm = alloc_page_once_Some [OF ok once [unfolded r]]
  from sm(2) obtain p where p: "p \<in> free_set (PMM s)" "f = page_frame (PMM s) p"
    "taken (PMM s) [p] (PMM s1)" "ram s1 = ram s" by blast
  let ?s' = "zero_bytes (addr f) PAGE_SIZE s1"
  have "alloc_page_zeroed reclaim s = (Some f, ?s')"
    using once r by (simp add: alloc_page_zeroed_def alloc_page_def)
  moreover have "pmm_ok ?s'" using sm(1) by simp
  ultimately show thesis
    using p by (intro that [of f ?s' p]) (simp_all add: zero_bytes_def)
qed

section \<open>Release\<close>

lemma pmm_ok_free_page [wf_intros]:
  assumes ok: "pmm_ok s"
  shows "pmm_ok (free_page frame s)"
proof -
  obtain b s1 where dec: "cow_ref_dec (addr frame) s = (b, s1)" by (cases "cow_ref_dec (addr frame) s")
  have ok1: "pmm_ok s1" and same: "PMM s1 = PMM s"
    using dec ok by (auto simp: cow_ref_dec_def Let_def split: option.splits if_splits)
  from ok1 have wf: "ba_wf (PMM s1)" by (simp add: pmm_ok_def)
  let ?p = "page_of (PMM s1) frame"
  show ?thesis
  proof (cases "b \<and> base_addr (PMM s1) \<le> addr frame \<and> ?p < total_pages (PMM s1)
      \<and> ?p \<notin> free_set (PMM s1)")
    case False
    then show ?thesis
      using dec ok1 ba_free_page_cases [OF wf, of frame]
      by (auto simp: free_page_def Let_def pmm_ok_def split: bool.splits)
  next
    case True
    let ?a = "(mark_free ?p (PMM s1))\<lparr>free_pages := free_pages (PMM s1) + 1,
               next_free_hint := min ?p (next_free_hint (PMM s1))\<rparr>"
    have fr: "ba_free_page frame (PMM s1) = (Freed, ?a)"
      using True ba_free_page_cases [OF wf, of frame] by (simp add: Let_def)
    have wfa: "ba_wf ?a" and fs: "free_set ?a = insert ?p (free_set (PMM s1))"
      using ba_wf_give_back [OF wf, of ?p] True by auto
    have "free_pages ?a \<le> total_pages ?a" by (rule free_pages_le_total [OF wfa])
    then have "total_pages (PMM s1) - free_pages (PMM s1) = Suc (total_pages ?a - free_pages ?a)"
      by simp
    then have "of_nat (total_pages (PMM s1) - free_pages (PMM s1)) - 1
        = (of_nat (total_pages ?a - free_pages ?a) :: u64)" by simp
    with wfa ok1 fr dec True show ?thesis by (simp add: free_page_def pmm_ok_def)
  qed
qed

text \<open>Freeing a run is exact when every page of the run is in range and allocated.\<close>

lemma pmm_ok_free_pages_contiguous:
  assumes ok: "pmm_ok s" and ge: "base_addr (PMM s) \<le> addr frame"
    and run: "page_of (PMM s) frame + count \<le> total_pages (PMM s)"
    and used: "\<forall>p. page_of (PMM s) frame \<le> p \<and> p < page_of (PMM s) frame + count
                \<longrightarrow> p \<notin> free_set (PMM s)"
  shows "pmm_ok (free_pages_contiguous frame count s)"
proof -
  from ok have wf: "ba_wf (PMM s)" by (simp add: pmm_ok_def)
  let ?a = "ba_free_pages_contiguous frame count (PMM s)" and ?s = "page_of (PMM s) frame"
  note spec = ba_free_pages_contiguous_spec [OF wf ge, of count]
  have "free_set ?a = free_set (PMM s) \<union> {?s..<?s + count}" unfolding spec(2) using run by auto
  moreover have "free_set (PMM s) \<inter> {?s..<?s + count} = {}" using used by auto
  ultimately have "card (free_set ?a) = card (free_set (PMM s)) + count"
    by (simp add: card_Un_disjoint)
  then have fp: "free_pages ?a = free_pages (PMM s) + count"
    using spec(1) wf by (simp add: ba_wf_def)
  have "free_pages ?a \<le> total_pages ?a" by (rule free_pages_le_total [OF spec(1)])
  with fp spec(3) have eq: "total_pages (PMM s) - free_pages (PMM s)
      = (total_pages ?a - free_pages ?a) + count" by simp
  have "of_nat (total_pages (PMM s) - free_pages (PMM s)) - of_nat count
      = (of_nat (total_pages ?a - free_pages ?a) :: u64)" unfolding eq by simp
  with ok spec show ?thesis by (simp add: free_pages_contiguous_def pmm_ok_def)
qed

lemma reserve_loop_spec:
  assumes "reserve_loop is a reserved = (a', reserved')" "distinct is"
  shows "\<exists>ps. distinct ps \<and> set ps \<subseteq> set is \<and> set ps \<subseteq> free_set a
      \<and> (\<forall>j. is_free a' j \<longleftrightarrow> is_free a j \<and> j \<notin> set ps) \<and> reserved' = reserved + length ps
      \<and> total_pages a' = total_pages a \<and> base_addr a' = base_addr a \<and> free_pages a' = free_pages a
      \<and> next_free_hint a' = next_free_hint a \<and> length (bitmap a') = length (bitmap a)"
  using assms
proof (induction "is" arbitrary: a reserved)
  case Nil
  then show ?case by (intro exI [of _ "[]"]) simp
next
  case (Cons i "is")
  consider "i \<ge> total_pages a" | "i < total_pages a" "is_free a i" | "i < total_pages a" "\<not> is_free a i"
    by linarith
  then show ?case
  proof cases
    case 1
    with Cons.prems show ?thesis by (intro exI [of _ "[]"]) simp
  next
    case 2
    with Cons.prems have "reserve_loop is (mark_used i a) (reserved + 1) = (a', reserved')" by simp
    from Cons.IH [OF this] Cons.prems(2) obtain ps where
      "distinct ps" "set ps \<subseteq> set is" "set ps \<subseteq> free_set (mark_used i a)"
      "\<forall>j. is_free a' j \<longleftrightarrow> is_free (mark_used i a) j \<and> j \<notin> set ps"
      "reserved' = reserved + 1 + length ps"
      "total_pages a' = total_pages a" "base_addr a' = base_addr a" "free_pages a' = free_pages a"
      "next_free_hint a' = next_free_hint a" "length (bitmap a') = length (bitmap a)" by auto
    with 2 Cons.prems(2) show ?thesis
      by (intro exI [of _ "i # ps"]) (auto simp: free_set_mark_used free_set_def)
  next
    case 3
    with Cons.prems have "reserve_loop is a reserved = (a', reserved')" by simp
    from Cons.IH [OF this] Cons.prems(2) show ?thesis by auto
  qed
qed

lemma pmm_ok_reserve_range [wf_intros]:
  assumes ok: "pmm_ok s"
  shows "pmm_ok (reserve_range base len s)"
proof (cases "base < base_addr (PMM s)")
  case True
  with ok show ?thesis by (simp add: reserve_range_def)
next
  case False
  let ?start = "(base - base_addr (PMM s)) div PAGE_SIZE"
  obtain a r where loop: "reserve_loop [?start..<?start + len div PAGE_SIZE] (PMM s) 0 = (a, r)"
    by (cases "reserve_loop [?start..<?start + len div PAGE_SIZE] (PMM s) 0")
  from reserve_loop_spec [OF loop] obtain ps where ps: "distinct ps" "set ps \<subseteq> free_set (PMM s)"
    and free: "\<forall>j. is_free a j \<longleftrightarrow> is_free (PMM s) j \<and> j \<notin> set ps" and r: "r = length ps"
    and fr: "total_pages a = total_pages (PMM s)" "base_addr a = base_addr (PMM s)"
      "free_pages a = free_pages (PMM s)" "next_free_hint a = next_free_hint (PMM s)"
      "length (bitmap a) = length (bitmap (PMM s))" by auto
  let ?a = "a\<lparr>free_pages := free_pages a - r\<rparr>"
  from ok have wf: "ba_wf (PMM s)" by (simp add: pmm_ok_def)
  have fs: "free_set ?a = free_set (PMM s) - set ps" using free fr by (auto simp: free_set_def)
  have "ba_wf ?a" using wf ps free fr r fs
    by (auto simp: ba_wf_def card_Diff_subset distinct_card)
  with ps fs fr have "taken (PMM s) ps ?a" by (simp add: taken_def)
  from pmm_ok_taken [OF ok this] show ?thesis
    using False loop r by (simp add: reserve_range_def Let_def)
qed

section \<open>Sharing and the last owner\<close>

lemma cow_ref_inc_many:
  assumes "COW_REFCOUNTS s pa = None" "n < 65535"
  shows "(cow_ref_inc pa ^^ n) s =
    (if n = 0 then s else s\<lparr>COW_REFCOUNTS := (COW_REFCOUNTS s)(pa \<mapsto> of_nat (n + 1))\<rparr>)"
  using assms(2)
proof (induction n)
  case (Suc n)
  have "unat (of_nat (n + 1) :: u16) = n + 1" using Suc.prems by (intro unat_of_nat_small) simp
  then have "sat_add (of_nat (n + 1)) 1 = (of_nat (n + 2) :: u16)"
    using Suc.prems by (simp add: sat_add_def)
  moreover have "sat_add 1 1 = (2 :: u16)" by (simp add: sat_add_def)
  ultimately show ?case using Suc assms(1)
    by (cases "n = 0") (simp_all add: cow_ref_inc_def Let_def)
qed simp

lemma free_page_shared:
  assumes "COW_REFCOUNTS s (addr f) = Some (of_nat c)" "1 < c" "c < 65536"
  shows "free_page f s = s\<lparr>COW_REFCOUNTS := (COW_REFCOUNTS s)(addr f \<mapsto> of_nat (c - 1))\<rparr>"
proof -
  have u: "unat (of_nat c :: u16) = c" "unat (of_nat (c - 1) :: u16) = c - 1"
    using assms by (auto intro!: unat_of_nat_small simp del: of_nat_diff)
  have "sat_sub (of_nat c) 1 = (of_nat (c - 1) :: u16)"
    by (simp only: word_unat_eq_iff unat_sat_sub u unat_1)
  moreover have "(of_nat (c - 1) :: u16) \<noteq> 0" using u(2) assms(2) by auto
  ultimately show ?thesis using assms(1) by (simp add: free_page_def cow_ref_dec_def Let_def)
qed

lemma free_page_last_ref:
  assumes "COW_REFCOUNTS s (addr f) = Some 1"
  shows "free_page f s = free_page f (s\<lparr>COW_REFCOUNTS := (COW_REFCOUNTS s)(addr f := None)\<rparr>)"
proof -
  have "sat_sub 1 1 = (0 :: u16)" by (simp add: sat_sub_def)
  with assms show ?thesis by (simp add: free_page_def cow_ref_dec_def Let_def)
qed

lemma free_page_counts_down:
  assumes "COW_REFCOUNTS s (addr f) = Some (of_nat (Suc n))" "n < 65535" "k \<le> n"
  shows "(free_page f ^^ k) s = s\<lparr>COW_REFCOUNTS := (COW_REFCOUNTS s)(addr f \<mapsto> of_nat (Suc n - k))\<rparr>"
  using assms(3)
proof (induction k)
  case 0
  with assms(1) show ?case by (simp add: fun_upd_idem)
next
  case (Suc k)
  let ?s = "s\<lparr>COW_REFCOUNTS := (COW_REFCOUNTS s)(addr f \<mapsto> of_nat (Suc n - k))\<rparr>"
  have "free_page f ?s = ?s\<lparr>COW_REFCOUNTS := (COW_REFCOUNTS ?s)(addr f \<mapsto> of_nat (Suc n - k - 1))\<rparr>"
    using Suc.prems assms(2) by (intro free_page_shared) auto
  moreover have "(free_page f ^^ k) s = ?s" by (rule Suc.IH [OF Suc_leD [OF Suc.prems]])
  moreover have "Suc n - k - 1 = Suc n - Suc k" by simp
  ultimately have "(free_page f ^^ Suc k) s
      = ?s\<lparr>COW_REFCOUNTS := (COW_REFCOUNTS ?s)(addr f \<mapsto> of_nat (Suc n - Suc k))\<rparr>"
    by (simp only: funpow.simps comp_apply)
  then show ?case by (simp del: of_nat_diff of_nat_Suc diff_Suc_Suc fun_upd_apply)
qed

lemma free_page_unshared:
  assumes ok: "pmm_ok s" and p: "p < total_pages (PMM s)" "p \<notin> free_set (PMM s)"
    and f: "f = page_frame (PMM s) p" and un: "COW_REFCOUNTS s (addr f) = None"
  shows "free_set (PMM (free_page f s)) = insert p (free_set (PMM s))"
    and "COW_REFCOUNTS (free_page f s) = COW_REFCOUNTS s"
    and "page_frame (PMM (free_page f s)) = page_frame (PMM s)"
    and "DOUBLE_FREE_COUNT (free_page f s) = DOUBLE_FREE_COUNT s"
proof -
  from ok have wf: "ba_wf (PMM s)" by (simp add: pmm_ok_def)
  obtain r a where fr: "ba_free_page f (PMM s) = (r, a)" by (cases "ba_free_page f (PMM s)")
  note held = ba_free_page_held [OF wf p fr [unfolded f]]
  have "free_page f s = s\<lparr>PMM := a, ALLOCATED_PAGES := ALLOCATED_PAGES s - 1,
      USER_PAGES_FREED := USER_PAGES_FREED s + 1\<rparr>"
    using un fr held(1) by (simp add: free_page_def cow_ref_dec_def)
  with held show "free_set (PMM (free_page f s)) = insert p (free_set (PMM s))"
    "COW_REFCOUNTS (free_page f s) = COW_REFCOUNTS s"
    "page_frame (PMM (free_page f s)) = page_frame (PMM s)"
    "DOUBLE_FREE_COUNT (free_page f s) = DOUBLE_FREE_COUNT s"
    by (simp_all add: page_frame_def fun_eq_iff)
qed

section \<open>Reachable states\<close>

text \<open>
  One step is one call of the public interface. A contiguous release is a step only for a run
  that is allocated, which is how the heap and the thread-stack allocator use it.
\<close>

inductive pmm_step :: "pmm_state \<Rightarrow> pmm_state \<Rightarrow> bool" where
  alloc: "pmm_step s (snd (alloc_page_once s))"
| batch: "pmm_step s (snd (alloc_pages_zeroed count s))"
| contiguous: "pmm_step s (snd (alloc_contiguous_once count s))"
| zero: "pmm_step s (zero_bytes start n s)"
| free: "pmm_step s (free_page frame s)"
| free_run: "base_addr (PMM s) \<le> addr frame \<Longrightarrow>
    page_of (PMM s) frame + count \<le> total_pages (PMM s) \<Longrightarrow>
    (\<forall>p. page_of (PMM s) frame \<le> p \<and> p < page_of (PMM s) frame + count
        \<longrightarrow> p \<notin> free_set (PMM s)) \<Longrightarrow>
    pmm_step s (free_pages_contiguous frame count s)"
| reserve: "pmm_step s (reserve_range base len s)"
| share: "pmm_step s (cow_ref_inc pa s)"
| unshare: "pmm_step s (snd (cow_ref_dec pa s))"

lemma pmm_step_ok: "pmm_step s t \<Longrightarrow> pmm_ok s \<Longrightarrow> pmm_ok t"
proof (induction rule: pmm_step.induct)
  case (alloc s)
  obtain r t where al: "alloc_page_once s = (r, t)" by (cases "alloc_page_once s")
  with alloc alloc_page_once_Some(1) [OF alloc] alloc_page_once_None [OF alloc, of t]
  show ?case by (cases r) auto
next
  case (batch s count)
  then show ?case using alloc_pages_zeroed_ok [OF batch] by (metis prod.collapse)
next
  case (contiguous s count)
  then show ?case using alloc_contiguous_once_ok [OF contiguous] by (metis prod.collapse)
next
  case (free_run s frame count)
  then show ?case by (intro pmm_ok_free_pages_contiguous)
next
  case (unshare s pa)
  then show ?case by (auto simp: cow_ref_dec_def Let_def split: option.splits)
qed (simp_all add: wf_intros cow_ref_inc_def Let_def)

lemma pmm_steps_ok: "pmm_step\<^sup>*\<^sup>* s t \<Longrightarrow> pmm_ok s \<Longrightarrow> pmm_ok t"
  by (induction rule: rtranclp_induct) (auto intro: pmm_step_ok)

text \<open>The static initial values, before \<open>pmm::init\<close> runs.\<close>

definition pmm_boot :: pmm_state where
  "pmm_boot = \<lparr>PMM = BitmapAllocator_new, TOTAL_PAGES = 0, ALLOCATED_PAGES = 0,
     DOUBLE_FREE_COUNT = 0, USER_PAGES_FREED = 0, COW_REFCOUNTS = Map.empty, ram = (\<lambda>_. 0)\<rparr>"

text \<open>A machine of 128 pages whose kernel occupies the first two, for concrete instances.\<close>

lemma boot_128: "\<exists>s. pmm_init 0x40000000 0x80000 0x40002000 pmm_boot = Some s"
  by (simp add: pmm_init_def ba_init_def pmm_boot_def Let_def PAGE_SIZE_def div_ceil_def
      split: option.splits)

lemma boot_128_ok:
  assumes "pmm_init 0x40000000 0x80000 0x40002000 pmm_boot = Some s"
  shows "pmm_ok s" "free_set (PMM s) = {2..<128}" "COW_REFCOUNTS s = Map.empty"
    "total_pages (PMM s) = 128" "base_addr (PMM s) = 0x40000000"
proof -
  show "pmm_ok s" by (rule pmm_ok_init [OF _ _ assms]) (simp_all add: PAGE_SIZE_def)
  from assms obtain a where a: "ba_init 0x40000000 0x80000 0x40002000 (PMM pmm_boot) = Some a"
    and s: "PMM s = a" "COW_REFCOUNTS s = Map.empty"
    by (auto simp: pmm_init_def pmm_boot_def split: option.splits)
  show "COW_REFCOUNTS s = Map.empty" by (rule s(2))
  show "free_set (PMM s) = {2..<128}"
    using ba_init_wf(2) [OF _ a] s(1) by (simp add: PAGE_SIZE_def div_ceil_def)
  show "total_pages (PMM s) = 128" "base_addr (PMM s) = 0x40000000"
    using ba_init_spec(1,2) [OF a] s(1) by (simp_all add: PAGE_SIZE_def)
qed

section \<open>Properties\<close>



text \<open>
  C2: A batch allocation is all or nothing: it fails exactly when fewer than \<open>count\<close> pages are
  free, and then changes nothing; otherwise it returns \<open>count\<close> different available frames,
  which are precisely the frames that stop being available.
\<close>

theorem alloc_pages_all_or_nothing:
  assumes wf: "ba_wf a" and al: "ba_alloc_pages count a = (r, a')"
  shows "(r = None \<longleftrightarrow> free_pages a < count) \<and> ba_wf a' \<and>
    (case r of
       None \<Rightarrow> a' = a
     | Some frames \<Rightarrow> length frames = count \<and> distinct frames \<and> set frames \<subseteq> frames_avail a
         \<and> frames_avail a' = frames_avail a - set frames)"
proof (cases r)
  case None
  with ba_alloc_pages_None [OF wf, of count a'] al wf show ?thesis by simp
next
  case (Some frames)
  with ba_alloc_pages_Some [OF wf, of count frames a'] al obtain ps where
    t: "taken a ps a'" and f: "frames = map (page_frame a) ps" and l: "length frames = count" by auto
  have "inj_on (page_frame a) (set ps)" using page_frame_inj [OF wf] by (auto intro: inj_onI)
  then have "distinct frames" using t f by (simp add: taken_def distinct_map)
  moreover have "set frames \<subseteq> frames_avail a" using t f by (auto simp: taken_def frames_avail_def)
  moreover have "\<not> free_pages a < count" using taken_count [OF wf t] f l by simp
  ultimately show ?thesis using Some l taken_frames(1) [OF wf t] t f by (simp add: taken_def)
qed

theorem alloc_pages_all_or_nothing_witness:
  "\<exists>s r a'. pmm_init 0x40000000 0x80000 0x40002000 pmm_boot = Some s
     \<and> ba_alloc_pages 130 (PMM s) = (r, a') \<and> r = None \<and> a' = PMM s"
proof -
  obtain s where s: "pmm_init 0x40000000 0x80000 0x40002000 pmm_boot = Some s" using boot_128 by blast
  note b = boot_128_ok [OF s]
  then have wf: "ba_wf (PMM s)" by (simp add: pmm_ok_def)
  with b have "free_pages (PMM s) = 126" by (simp add: ba_wf_def)
  obtain r a' where al: "ba_alloc_pages 130 (PMM s) = (r, a')" by (cases "ba_alloc_pages 130 (PMM s)")
  with alloc_pages_all_or_nothing [OF wf al] \<open>free_pages (PMM s) = 126\<close>
  have "r = None" "a' = PMM s" by auto
  with s al show ?thesis by blast
qed

text \<open>
  C3: Contiguous allocation is sound and complete: it returns a frame exactly when the bitmap
  holds a run of \<open>count\<close> free pages, and then it takes one such run and nothing else; the
  hint only steers the search.
\<close>

theorem alloc_contiguous_sound_complete:
  assumes wf: "ba_wf a" and "0 < count" and al: "ba_alloc_pages_contiguous count a = (r, a')"
  shows "(r = None \<longleftrightarrow> (\<forall>start. \<not> run_free a start count)) \<and> ba_wf a' \<and>
    (case r of
       None \<Rightarrow> a' = a
     | Some f \<Rightarrow> \<exists>start. run_free a start count \<and> f = page_frame a start
         \<and> free_set a' = free_set a - {start..<start + count})"
proof (cases r)
  case None
  with ba_alloc_pages_contiguous_None [OF wf, of count a'] assms show ?thesis by simp
next
  case (Some f)
  with ba_alloc_pages_contiguous_Some [OF wf, of count f a'] al obtain start where
    "run_free a start count" "f = page_frame a start" "taken a [start..<start + count] a'" by auto
  with Some show ?thesis by (auto simp: taken_def)
qed

theorem alloc_contiguous_sound_complete_witness:
  "\<exists>s f a'. pmm_init 0x40000000 0x80000 0x40002000 pmm_boot = Some s
     \<and> ba_alloc_pages_contiguous 4 (PMM s) = (Some f, a')"
proof -
  obtain s where s: "pmm_init 0x40000000 0x80000 0x40002000 pmm_boot = Some s" using boot_128 by blast
  note b = boot_128_ok [OF s]
  then have wf: "ba_wf (PMM s)" by (simp add: pmm_ok_def)
  have "run_free (PMM s) 2 4" using b(2) by (auto simp: run_free_def free_set_iff [OF wf, symmetric])
  moreover obtain r a' where al: "ba_alloc_pages_contiguous 4 (PMM s) = (r, a')"
    by (cases "ba_alloc_pages_contiguous 4 (PMM s)")
  ultimately have "r \<noteq> None" using alloc_contiguous_sound_complete [OF wf _ al] by auto
  with s al show ?thesis by auto
qed

text \<open>Freeing a page that is already free only bumps the counter.\<close>

lemma free_page_again:
  assumes ok: "pmm_ok s" and p: "p \<in> free_set (PMM s)" and f: "f = page_frame (PMM s) p"
    and un: "COW_REFCOUNTS s (addr f) = None"
  shows "free_page f s = s\<lparr>DOUBLE_FREE_COUNT := DOUBLE_FREE_COUNT s + 1\<rparr>"
proof -
  from ok have wf: "ba_wf (PMM s)" by (simp add: pmm_ok_def)
  have "p < total_pages (PMM s)" using p by (simp add: free_set_def)
  then have "ba_free_page f (PMM s) = (DoubleFree, PMM s)"
    using p f wf by (simp add: ba_free_page_cases Let_def addr_page_frame)
  with un show ?thesis by (simp add: free_page_def cow_ref_dec_def)
qed

text \<open>After \<open>n\<close> shares and \<open>n\<close> releases one reference is left, or no entry at all.\<close>

lemma shared_then_released:
  assumes "COW_REFCOUNTS s (addr f) = None" "n < 65535" "k \<le> n"
  shows "\<exists>m. (free_page f ^^ k) ((cow_ref_inc (addr f) ^^ n) s) = s\<lparr>COW_REFCOUNTS := m\<rparr>
    \<and> (k = n \<longrightarrow> (m = COW_REFCOUNTS s \<and> n = 0) \<or> m = (COW_REFCOUNTS s)(addr f \<mapsto> 1))"
proof (cases "n = 0")
  case True
  with assms(3) have "k = 0" by simp
  moreover have "s = s\<lparr>COW_REFCOUNTS := COW_REFCOUNTS s\<rparr>" by simp
  ultimately show ?thesis using True by (intro exI [of _ "COW_REFCOUNTS s"]) simp
next
  case False
  let ?s = "s\<lparr>COW_REFCOUNTS := (COW_REFCOUNTS s)(addr f \<mapsto> of_nat (Suc n))\<rparr>"
  have inc: "(cow_ref_inc (addr f) ^^ n) s = ?s"
    using cow_ref_inc_many [OF assms(1,2)] False by (simp only: if_False Suc_eq_plus1)
  have c: "COW_REFCOUNTS ?s (addr f) = Some (of_nat (Suc n))" by (simp del: of_nat_Suc)
  have upd: "?s\<lparr>COW_REFCOUNTS := (COW_REFCOUNTS ?s)(addr f \<mapsto> x)\<rparr>
      = s\<lparr>COW_REFCOUNTS := (COW_REFCOUNTS s)(addr f \<mapsto> x)\<rparr>" for x
    by (simp del: of_nat_Suc fun_upd_apply)
  have "(free_page f ^^ k) ?s
      = s\<lparr>COW_REFCOUNTS := (COW_REFCOUNTS s)(addr f \<mapsto> of_nat (Suc n - k))\<rparr>"
    by (rule trans [OF free_page_counts_down [OF c assms(2,3)] upd])
  moreover have "(of_nat (Suc n - k) :: u16) = 1" if "k = n"
    using that by (simp add: Suc_diff_le del: of_nat_diff)
  ultimately show ?thesis unfolding inc
    by (intro exI [of _ "(COW_REFCOUNTS s)(addr f \<mapsto> of_nat (Suc n - k))"] conjI impI disjI2) (simp only:)+
qed

lemma free_page_final:
  assumes ok: "pmm_ok s" and p: "p < total_pages (PMM s)" "p \<notin> free_set (PMM s)"
    and f: "f = page_frame (PMM s) p" and un: "COW_REFCOUNTS s (addr f) = None"
    and m: "m = COW_REFCOUNTS s \<or> m = (COW_REFCOUNTS s)(addr f \<mapsto> 1)"
  shows "free_page f (s\<lparr>COW_REFCOUNTS := m\<rparr>) = free_page f s"
  using m
proof
  assume m: "m = (COW_REFCOUNTS s)(addr f \<mapsto> 1)"
  let ?s = "s\<lparr>COW_REFCOUNTS := m\<rparr>"
  have "(COW_REFCOUNTS s)(addr f := None) = COW_REFCOUNTS s" using un by (simp add: fun_upd_idem)
  then have "?s\<lparr>COW_REFCOUNTS := (COW_REFCOUNTS ?s)(addr f := None)\<rparr> = s"
    using m by (simp del: fun_upd_apply)
  moreover have "COW_REFCOUNTS ?s (addr f) = Some 1" using m by simp
  ultimately show ?thesis using free_page_last_ref [of ?s f] by simp
qed simp

text \<open>
  C4: Copy-on-write sharing is exact: after \<open>n\<close> further owners were added to a held frame, the
  first \<open>n\<close> releases leave the allocator untouched, the next one returns exactly that page and
  drops its reference entry, and any later release is recognised as a double free, which
  changes nothing but the diagnostic counter.
\<close>

theorem cow_last_owner_frees:
  assumes ok: "pmm_ok s" and p: "p < total_pages (PMM s)" "p \<notin> free_set (PMM s)"
    and f: "f = page_frame (PMM s) p" and un: "COW_REFCOUNTS s (addr f) = None" and n: "n < 65535"
  shows "let shared = (cow_ref_inc (addr f) ^^ n) s;
             gone = free_page f ((free_page f ^^ n) shared)
         in (\<forall>k\<le>n. PMM ((free_page f ^^ k) shared) = PMM s)
          \<and> free_set (PMM gone) = insert p (free_set (PMM s))
          \<and> COW_REFCOUNTS gone (addr f) = None
          \<and> free_page f gone = gone\<lparr>DOUBLE_FREE_COUNT := DOUBLE_FREE_COUNT gone + 1\<rparr>"
proof -
  let ?shared = "(cow_ref_inc (addr f) ^^ n) s"
  let ?gone = "free_page f ((free_page f ^^ n) ?shared)"
  from shared_then_released [OF un n order_refl] obtain m where
    "(free_page f ^^ n) ?shared = s\<lparr>COW_REFCOUNTS := m\<rparr>"
    and m: "m = COW_REFCOUNTS s \<or> m = (COW_REFCOUNTS s)(addr f \<mapsto> 1)" by blast
  with free_page_final [OF ok p f un m] have gone: "?gone = free_page f s" by simp
  note u = free_page_unshared [OF ok p f un]
  have "p \<in> free_set (PMM (free_page f s))" "f = page_frame (PMM (free_page f s)) p"
    "COW_REFCOUNTS (free_page f s) (addr f) = None" using u un f by simp_all
  from free_page_again [OF pmm_ok_free_page [OF ok] this]
  have "free_page f ?gone = ?gone\<lparr>DOUBLE_FREE_COUNT := DOUBLE_FREE_COUNT ?gone + 1\<rparr>"
    by (simp only: gone)
  moreover have "PMM ((free_page f ^^ k) ?shared) = PMM s" if k: "k \<le> n" for k
  proof -
    from shared_then_released [OF un n k] obtain m where
      "(free_page f ^^ k) ?shared = s\<lparr>COW_REFCOUNTS := m\<rparr>" by blast
    then show ?thesis by simp
  qed
  moreover have "free_set (PMM ?gone) = insert p (free_set (PMM s))" "COW_REFCOUNTS ?gone (addr f) = None"
    unfolding gone using u(1,2) un by simp_all
  ultimately show ?thesis unfolding Let_def by blast
qed

theorem cow_last_owner_frees_witness:
  "\<exists>s. pmm_init 0x40000000 0x80000 0x40002000 pmm_boot = Some s
     \<and> (let f = page_frame (PMM s) 0; shared = (cow_ref_inc (addr f) ^^ 3) s
        in free_set (PMM (free_page f ((free_page f ^^ 3) shared))) = insert 0 {2..<128})"
proof -
  obtain s where s: "pmm_init 0x40000000 0x80000 0x40002000 pmm_boot = Some s" using boot_128 by blast
  note b = boot_128_ok [OF s]
  have "0 < total_pages (PMM s)" "0 \<notin> free_set (PMM s)" using b by auto
  from cow_last_owner_frees [OF b(1) this refl, of 3] b(2,3) s show ?thesis
    by (auto simp only: Let_def)
qed



text \<open>
  A user-memory allocation never eats the kernel's reserve: whenever
  \<open>alloc_page_zeroed_user\<close> hands out a frame, at least \<open>USER_PAGE_RESERVE\<close> pages are still
  free afterwards, the counters still agree with the bitmap, and the whole frame reads as
  zero. It refuses only when the reserve would be touched after both reclaim passes.
\<close>

theorem user_alloc_keeps_reserve:
  assumes ok: "pmm_ok s"
    and heap: "\<And>t. pmm_ok t \<Longrightarrow> pmm_ok (snd (reclaim_to_pmm t))"
    and cache: "\<And>n t. pmm_ok t \<Longrightarrow> pmm_ok (reclaim_clean_file_pages n t)"
    and al: "alloc_page_zeroed_user reclaim_to_pmm reclaim_clean_file_pages s = (r, s')"
  shows "pmm_ok s' \<and>
    (case r of
       None \<Rightarrow> free_count s' \<le> USER_PAGE_RESERVE
     | Some f \<Rightarrow> USER_PAGE_RESERVE \<le> free_count s'
         \<and> (\<forall>x. addr f \<le> x \<and> x < addr f + PAGE_SIZE \<longrightarrow> ram s' x = 0))"
proof -
  have go: "pmm_ok s' \<and> (\<exists>f. r = Some f \<and> USER_PAGE_RESERVE \<le> free_count s'
         \<and> (\<forall>x. addr f \<le> x \<and> x < addr f + PAGE_SIZE \<longrightarrow> ram s' x = 0))"
    if t: "pmm_ok t" "\<not> user_alloc_would_starve (free_count t)"
      "alloc_page_zeroed reclaim_to_pmm t = (r, s')" for t
  proof -
    have c: "16 < card (free_set (PMM t))"
      using t(2) free_count_ok [OF t(1)]
      by (simp add: user_alloc_would_starve_def USER_PAGE_RESERVE_def word_le_nat_alt)
    then have "free_set (PMM t) \<noteq> {}" by auto
    then obtain f s1 p where d: "alloc_page_zeroed reclaim_to_pmm t = (Some f, s1)" "pmm_ok s1"
      "p \<in> free_set (PMM t)" "f = page_frame (PMM t) p" "taken (PMM t) [p] (PMM s1)"
      "\<forall>x. addr f \<le> x \<and> x < addr f + PAGE_SIZE \<longrightarrow> ram s1 x = 0"
      by (rule alloc_page_zeroed_direct [OF t(1)])
    have "free_set (PMM s1) = free_set (PMM t) - {p}" using d(5) by (simp add: taken_def)
    then have "16 \<le> card (free_set (PMM s1))" using c d(3) by (simp add: card_Diff_singleton)
    then have "USER_PAGE_RESERVE \<le> free_count s1"
      using free_count_ok [OF d(2)] by (simp add: USER_PAGE_RESERVE_def word_le_nat_alt)
    with d t(3) show ?thesis by auto
  qed
  let ?s1 = "snd (reclaim_to_pmm s)"
  let ?s2 = "reclaim_clean_file_pages USER_RECLAIM_BATCH ?s1"
  have ok1: "pmm_ok ?s1" and ok2: "pmm_ok ?s2" using ok heap cache by blast+
  show ?thesis
    using al go [OF ok] go [OF ok1] go [OF ok2] ok2
    by (auto simp: alloc_page_zeroed_user_def Let_def user_alloc_would_starve_def split: if_splits)
qed

theorem user_alloc_keeps_reserve_witness:
  "\<exists>s f s'. pmm_init 0x40000000 0x80000 0x40002000 pmm_boot = Some s
     \<and> alloc_page_zeroed_user (\<lambda>t. (0, t)) (\<lambda>n t. t) s = (Some f, s')
     \<and> USER_PAGE_RESERVE \<le> free_count s'"
proof -
  obtain s where s: "pmm_init 0x40000000 0x80000 0x40002000 pmm_boot = Some s" using boot_128 by blast
  note b = boot_128_ok [OF s]
  have "unat (free_count s) = 126" using free_count_ok [OF b(1)] b(2) by simp
  then have ns: "\<not> user_alloc_would_starve (free_count s)"
    by (simp add: user_alloc_would_starve_def USER_PAGE_RESERVE_def word_le_nat_alt)
  have "free_set (PMM s) \<noteq> {}" using b(2) by simp
  from alloc_page_zeroed_direct [OF b(1) this] obtain f s' where
    "alloc_page_zeroed (\<lambda>t. (0, t)) s = (Some f, s')" by metis
  with ns have al: "alloc_page_zeroed_user (\<lambda>t. (0, t)) (\<lambda>n t. t) s = (Some f, s')"
    by (simp add: alloc_page_zeroed_user_def)
  have "USER_PAGE_RESERVE \<le> free_count s'"
    using user_alloc_keeps_reserve [OF b(1) _ _ al] by simp
  with s al show ?thesis by blast
qed

text \<open>
  The contiguous release lowers \<open>ALLOCATED_PAGES\<close> by the requested count even for pages that
  were free already, so releasing a free page through it makes the counter disagree.
\<close>

lemma free_pages_contiguous_drift:
  assumes ok: "pmm_ok s" and p: "p \<in> free_set (PMM s)" and f: "f = page_frame (PMM s) p"
  shows "free_set (PMM (free_pages_contiguous f 1 s)) = free_set (PMM s)
    \<and> ALLOCATED_PAGES (free_pages_contiguous f 1 s) = ALLOCATED_PAGES s - 1"
proof -
  from ok have wf: "ba_wf (PMM s)" by (simp add: pmm_ok_def)
  have "is_free (PMM s) p" "p < total_pages (PMM s)"
    using p free_set_iff [OF wf, of p] by (auto simp: free_set_def)
  then show ?thesis using f wf
    by (simp add: free_pages_contiguous_def ba_free_pages_contiguous_def free_one_def addr_page_frame
        Let_def PAGE_SIZE_def)
qed

end
