(* ===== verification/Fifo_Interface.thy ===== *)
theory Fifo_Interface
  imports Akuma_Prelude
begin

text \<open>
  The contract of a bounded first-in first-out channel that drops instead of blocking. The
  message ring and the console ring of the multikernel promise it; what their clients rely on
  (nothing lost, duplicated or reordered among the accepted items) is proved here once.
\<close>

datatype 'a fifo_op = Put 'a | Get

text \<open>Run a sequence of operations; collect the accepted and the delivered items in order.\<close>

fun run_fifo :: "('a \<Rightarrow> 's \<Rightarrow> bool \<times> 's) \<Rightarrow> ('s \<Rightarrow> 'a option \<times> 's) \<Rightarrow> 'a fifo_op list \<Rightarrow> 's
    \<Rightarrow> 'a list \<times> 'a list \<times> 's" where
  "run_fifo put get [] s = ([], [], s)"
| "run_fifo put get (Put x # ops) s =
     (case put x s of (b, s1) \<Rightarrow>
        case run_fifo put get ops s1 of (acc, del, s2) \<Rightarrow>
          ((if b then x # acc else acc), del, s2))"
| "run_fifo put get (Get # ops) s =
     (case get s of (r, s1) \<Rightarrow>
        case run_fifo put get ops s1 of (acc, del, s2) \<Rightarrow>
          (acc, (case r of None \<Rightarrow> del | Some x \<Rightarrow> x # del), s2))"

locale bounded_fifo =
  fixes inv :: "'s \<Rightarrow> bool"
    and contents :: "'s \<Rightarrow> 'a list"
    and capacity :: nat
    and put :: "'a \<Rightarrow> 's \<Rightarrow> bool \<times> 's"
    and get :: "'s \<Rightarrow> 'a option \<times> 's"
  assumes within: "inv s \<Longrightarrow> length (contents s) \<le> capacity"
    and put_room: "inv s \<Longrightarrow> length (contents s) < capacity \<Longrightarrow> put x s = (b, s') \<Longrightarrow>
      b \<and> inv s' \<and> contents s' = contents s @ [x]"
    and put_full: "inv s \<Longrightarrow> capacity \<le> length (contents s) \<Longrightarrow> put x s = (b, s') \<Longrightarrow> \<not> b \<and> s' = s"
    and get_empty: "inv s \<Longrightarrow> contents s = [] \<Longrightarrow> get s = (r, s') \<Longrightarrow> r = None \<and> s' = s"
    and get_next: "inv s \<Longrightarrow> contents s = x # xs \<Longrightarrow> get s = (r, s') \<Longrightarrow>
      r = Some x \<and> inv s' \<and> contents s' = xs"
begin

lemma put_cases:
  assumes "inv s" "put x s = (b, s')"
  shows "inv s' \<and> contents s' = contents s @ (if b then [x] else [])
    \<and> (b \<longleftrightarrow> length (contents s) < capacity)"
proof (cases "length (contents s) < capacity")
  case True
  with put_room [OF assms(1) True assms(2)] show ?thesis by simp
next
  case False
  with put_full [OF assms(1) _ assms(2)] assms(1) show ?thesis by simp
qed

lemma get_cases:
  assumes "inv s" "get s = (r, s')"
  shows "inv s' \<and> contents s = (case r of None \<Rightarrow> [] | Some x \<Rightarrow> [x]) @ contents s'
    \<and> (r = None \<longleftrightarrow> contents s = [])"
proof (cases "contents s")
  case Nil
  with get_empty [OF assms(1) Nil assms(2)] assms(1) show ?thesis by simp
next
  case (Cons x xs)
  with get_next [OF assms(1) Cons assms(2)] show ?thesis by simp
qed

lemma run_exact:
  assumes "inv s" "run_fifo put get ops s = (acc, del, s')"
  shows "inv s' \<and> contents s @ acc = del @ contents s'"
  using assms
proof (induction ops arbitrary: s acc del s')
  case (Cons op ops)
  show ?case
  proof (cases op)
    case (Put x)
    obtain b s1 where p: "put x s = (b, s1)" by (cases "put x s")
    obtain acc' del' s2 where r: "run_fifo put get ops s1 = (acc', del', s2)"
      by (cases "run_fifo put get ops s1") auto
    note c = put_cases [OF Cons.prems(1) p]
    have "inv s2 \<and> contents s1 @ acc' = del' @ contents s2" using Cons.IH [OF _ r] c by blast
    moreover have "acc = (if b then x # acc' else acc')" "del = del'" "s' = s2"
      using Cons.prems(2) Put p r by simp_all
    ultimately show ?thesis using c by (cases b) simp_all
  next
    case Get
    obtain x s1 where g: "get s = (x, s1)" by (cases "get s")
    obtain acc' del' s2 where r: "run_fifo put get ops s1 = (acc', del', s2)"
      by (cases "run_fifo put get ops s1") auto
    note c = get_cases [OF Cons.prems(1) g]
    have "inv s2 \<and> contents s1 @ acc' = del' @ contents s2" using Cons.IH [OF _ r] c by blast
    moreover have "acc = acc'" "del = (case x of None \<Rightarrow> del' | Some y \<Rightarrow> y # del')" "s' = s2"
      using Cons.prems(2) Get g r by simp_all
    ultimately show ?thesis using c by (cases x) simp_all
  qed
qed simp

end

end
