(* ===== verification/Smp_Ring.thy ===== *)
theory Smp_Ring
  imports Fifo_Interface
begin

text \<open>
  The inter-core message ring of \<open>crates/akuma-smp/src/ring.rs\<close>: a bounded ring with many
  producers and one consumer. The indices are free-running 32-bit words that wrap; a slot is
  addressed by the index modulo \<open>RING_CAP\<close>. The first part models \<open>push\<close> and \<open>pop\<close> as
  whole operations and shows that they refine a bounded queue. The interleaved execution of
  the same operations, one atomic access at a time, is in \<open>Smp_Ring_Concurrent\<close>.
\<close>

section \<open>Messages\<close>

definition MSG_PRESSURE :: u32 where "MSG_PRESSURE = 1"
definition MSG_REPAID :: u32 where "MSG_REPAID = 2"
definition MSG_FWD_ECHO_REQ :: u32 where "MSG_FWD_ECHO_REQ = 3"
definition MSG_FWD_ECHO_REPLY :: u32 where "MSG_FWD_ECHO_REPLY = 4"
definition MSG_FWD_SYSCALL_REQ :: u32 where "MSG_FWD_SYSCALL_REQ = 5"
definition MSG_FWD_SYSCALL_REPLY :: u32 where "MSG_FWD_SYSCALL_REPLY = 6"
definition MSG_CORE_INIT :: u32 where "MSG_CORE_INIT = 7"

definition RING_CAP :: nat where
  "RING_CAP = 8"

record msg =
  msg_kind :: u32
  msg_from :: u32
  msg_v0 :: u64
  msg_v1 :: u64

record msg_slot =
  ready :: u32
  word0 :: u64
  slot_v0 :: u64
  slot_v1 :: u64

definition MsgSlot_new :: msg_slot where
  "MsgSlot_new = \<lparr>ready = 0, word0 = 0, slot_v0 = 0, slot_v1 = 0\<rparr>"

record ring =
  head :: u32
  tail :: u32
  slots :: "msg_slot list"

definition Ring_new :: ring where
  "Ring_new = \<lparr>head = 0, tail = 0, slots = replicate RING_CAP MsgSlot_new\<rparr>"

definition pack_word0 :: "u32 \<Rightarrow> u32 \<Rightarrow> u64" where
  "pack_word0 kind sender = push_bit 32 (ucast kind) OR ucast sender"

definition unpack_slot :: "u64 \<Rightarrow> u64 \<Rightarrow> u64 \<Rightarrow> msg" where
  "unpack_slot w0 v0 v1 =
     \<lparr>msg_kind = ucast (drop_bit 32 w0), msg_from = ucast w0, msg_v0 = v0, msg_v1 = v1\<rparr>"

section \<open>The operations, uninterrupted\<close>

definition slot_index :: "u32 \<Rightarrow> nat" where
  "slot_index t = unat t mod RING_CAP"

definition ring_push :: "u32 \<Rightarrow> u32 \<Rightarrow> u64 \<Rightarrow> u64 \<Rightarrow> ring \<Rightarrow> bool \<times> ring" where
  "ring_push kind sender v0 v1 r =
     (let t = tail r; h = head r in
      if of_nat RING_CAP \<le> t - h then (False, r)
      else (True,
        r\<lparr>tail := t + 1,
          slots := (slots r)[slot_index t :=
            \<lparr>ready = 1, word0 = pack_word0 kind sender, slot_v0 = v0, slot_v1 = v1\<rparr>]\<rparr>))"

definition ring_is_empty :: "ring \<Rightarrow> bool" where
  "ring_is_empty r \<longleftrightarrow> head r = tail r"

definition ring_pop :: "ring \<Rightarrow> msg option \<times> ring" where
  "ring_pop r =
     (let h = head r; t = tail r in
      if h = t then (None, r)
      else let slot = slots r ! slot_index h in
        if ready slot = 0 then (None, r)
        else (Some (unpack_slot (word0 slot) (slot_v0 slot) (slot_v1 slot)),
              r\<lparr>slots := (slots r)[slot_index h := slot\<lparr>ready := 0\<rparr>], head := h + 1\<rparr>))"

section \<open>Message words round-trip\<close>

lemma unpack_pack [simp]:
  "unpack_slot (pack_word0 k f) a b = \<lparr>msg_kind = k, msg_from = f, msg_v0 = a, msg_v1 = b\<rparr>"
proof -
  have "ucast (drop_bit 32 (pack_word0 k f)) = k"
    by (rule bit_word_eqI) (auto simp: pack_word0_def bit_simps dest: bit_imp_le_length)
  moreover have "ucast (pack_word0 k f) = f"
    by (rule bit_word_eqI) (auto simp: pack_word0_def bit_simps)
  ultimately show ?thesis by (simp add: unpack_slot_def)
qed

section \<open>Circular buffers with wrapping indices\<close>

text \<open>The \<open>n\<close> entries of a circular buffer of capacity \<open>cap\<close> that start at index \<open>h\<close>.\<close>

definition circ :: "nat \<Rightarrow> 'a list \<Rightarrow> u32 \<Rightarrow> nat \<Rightarrow> 'a list" where
  "circ cap buf h n = map (\<lambda>i. buf ! (unat (h + of_nat i) mod cap)) [0..<n]"

lemma length_circ [simp]: "length (circ cap buf h n) = n"
  by (simp add: circ_def)

lemma circ_0 [simp]: "circ cap buf h 0 = []"
  by (simp add: circ_def)

lemma circ_index:
  assumes "cap dvd 2 ^ 32"
  shows "unat (h + of_nat i :: u32) mod cap = (unat h mod cap + i) mod cap"
proof -
  have "unat (h + of_nat i :: u32) = (unat h + i) mod 2 ^ 32"
    by (simp add: unat_word_ariths unat_of_nat mod_add_right_eq)
  then have "unat (h + of_nat i :: u32) mod cap = (unat h + i) mod cap"
    using assms by (simp add: mod_mod_cancel)
  then show ?thesis by (simp add: mod_add_left_eq)
qed

lemma mod_window_inj:
  fixes a :: nat
  assumes "(a + i) mod cap = (a + j) mod cap" "i < cap" "j < cap"
  shows "i = j"
proof (rule ccontr)
  assume "i \<noteq> j"
  have *: "False" if "(a + x) mod cap = (a + y) mod cap" "x < y" "y < cap" for x y
  proof -
    have "cap dvd (a + y) - (a + x)" using that by (intro mod_eq_dvd_iff_nat [THEN iffD1]) auto
    then have "cap dvd y - x" by simp
    then show False using that by (auto dest: dvd_imp_le)
  qed
  from \<open>i \<noteq> j\<close> consider "i < j" | "j < i" by linarith
  then show False
    by cases (use * [OF assms(1)] * [OF assms(1) [symmetric]] assms(2,3) in auto)
qed

lemma circ_snoc:
  assumes "cap dvd 2 ^ 32" "n < cap" "length buf = cap"
  shows "circ cap (buf[unat (h + of_nat n) mod cap := x]) h (Suc n) = circ cap buf h n @ [x]"
proof -
  have "buf[unat (h + of_nat n) mod cap := x] ! (unat (h + of_nat i) mod cap)
      = buf ! (unat (h + of_nat i) mod cap)" if "i < n" for i
    using that assms mod_window_inj [of "unat h mod cap" i cap n]
    by (subst nth_list_update_neq) (auto simp: circ_index)
  moreover have "unat (h + of_nat n) mod cap < cap" using assms by simp
  ultimately show ?thesis using assms(3) by (auto simp: circ_def)
qed

lemma circ_Cons:
  "0 < n \<Longrightarrow> circ cap buf h n = buf ! (unat h mod cap) # circ cap buf (h + 1) (n - 1)"
  by (cases n) (simp_all add: circ_def upt_conv_Cons map_Suc_upt [symmetric] ac_simps
      del: upt_Suc)

lemma circ_update_outside:
  assumes "cap dvd 2 ^ 32" "n < cap" "length buf = cap"
  shows "circ cap (buf[unat h mod cap := x]) (h + 1) n = circ cap buf (h + 1) n"
proof -
  have "unat h mod cap \<noteq> unat (h + 1 + of_nat i) mod cap" if "i < n" for i
    using that assms mod_window_inj [of "unat h mod cap" "Suc i" cap 0] circ_index [of cap h "Suc i"]
    by (auto simp: ac_simps)
  then show ?thesis by (auto simp: circ_def)
qed

section \<open>The ring refines a bounded queue\<close>

definition ring_len :: "ring \<Rightarrow> nat" where
  "ring_len r = unat (tail r - head r)"

definition slot_msg :: "msg_slot \<Rightarrow> msg" where
  "slot_msg slot = unpack_slot (word0 slot) (slot_v0 slot) (slot_v1 slot)"

definition ring_contents :: "ring \<Rightarrow> msg list" where
  "ring_contents r = map slot_msg (circ RING_CAP (slots r) (head r) (ring_len r))"

definition ring_wf :: "ring \<Rightarrow> bool" where
  "ring_wf r \<longleftrightarrow> length (slots r) = RING_CAP \<and> ring_len r \<le> RING_CAP
     \<and> (\<forall>slot \<in> set (circ RING_CAP (slots r) (head r) (ring_len r)). ready slot \<noteq> 0)"

lemma cap_dvd [simp]: "RING_CAP dvd 2 ^ 32" "RING_CAP dvd 4294967296"
  by (simp_all add: RING_CAP_def)

lemma tail_index: "tail r = head r + of_nat (ring_len r)"
  by (simp add: ring_len_def)

lemma unat_succ_small: "unat (x :: u32) < 4294967295 \<Longrightarrow> unat (x + 1) = Suc (unat x)"
  by (simp add: unat_word_ariths(1))

lemma ring_len_push:
  assumes "ring_len r < RING_CAP"
  shows "ring_len (r\<lparr>tail := tail r + 1, slots := sl\<rparr>) = Suc (ring_len r)"
proof -
  have "ring_len (r\<lparr>tail := tail r + 1, slots := sl\<rparr>) = unat ((tail r - head r) + 1)"
    by (simp add: ring_len_def algebra_simps)
  also have "\<dots> = Suc (unat (tail r - head r))"
    by (rule unat_succ_small) (use assms in \<open>simp add: ring_len_def RING_CAP_def\<close>)
  finally show ?thesis by (simp only: ring_len_def)
qed

lemma ring_len_pop:
  assumes "head r \<noteq> tail r"
  shows "ring_len (r\<lparr>slots := sl, head := head r + 1\<rparr>) = ring_len r - 1"
proof -
  have "ring_len (r\<lparr>slots := sl, head := head r + 1\<rparr>) = unat ((tail r - head r) - 1)"
    by (simp add: ring_len_def algebra_simps)
  also have "\<dots> = unat (tail r - head r) - 1"
    by (rule unat_minus_one) (use assms in simp)
  finally show ?thesis by (simp only: ring_len_def)
qed

definition push_msg :: "msg \<Rightarrow> ring \<Rightarrow> bool \<times> ring" where
  "push_msg m = ring_push (msg_kind m) (msg_from m) (msg_v0 m) (msg_v1 m)"

lemma full_iff: "of_nat RING_CAP \<le> tail r - head r \<longleftrightarrow> RING_CAP \<le> ring_len r"
  by (simp add: ring_len_def RING_CAP_def word_le_nat_alt)

lemma push_room:
  assumes wf: "ring_wf r" and room: "ring_len r < RING_CAP" and p: "push_msg m r = (b, r')"
  shows "b \<and> ring_wf r' \<and> ring_contents r' = ring_contents r @ [m]"
proof -
  let ?slot = "\<lparr>ready = 1, word0 = pack_word0 (msg_kind m) (msg_from m), slot_v0 = msg_v0 m, slot_v1 = msg_v1 m\<rparr>"
  let ?sl = "(slots r)[slot_index (tail r) := ?slot]"
  have b: "b" and r': "r' = r\<lparr>tail := tail r + 1, slots := ?sl\<rparr>"
    using p room by (auto simp: push_msg_def ring_push_def Let_def full_iff)
  have "circ RING_CAP ?sl (head r) (Suc (ring_len r)) = circ RING_CAP (slots r) (head r) (ring_len r) @ [?slot]"
    using wf room circ_snoc [of RING_CAP "ring_len r" "slots r" "head r" ?slot]
    by (simp add: ring_wf_def slot_index_def tail_index [symmetric])
  moreover have "slot_msg ?slot = m" by (simp add: slot_msg_def)
  ultimately show ?thesis
    using wf room b by (auto simp: r' ring_wf_def ring_contents_def ring_len_push)
qed

lemma pop_next:
  assumes wf: "ring_wf r" and ne: "head r \<noteq> tail r" and p: "ring_pop r = (x, r')"
  shows "x = Some (hd (ring_contents r)) \<and> ring_wf r' \<and> ring_contents r' = tl (ring_contents r)"
proof -
  let ?slot = "slots r ! slot_index (head r)"
  let ?sl = "(slots r)[slot_index (head r) := ?slot\<lparr>ready := 0\<rparr>]"
  have pos: "0 < ring_len r" using ne by (simp add: ring_len_def unat_gt_0)
  have c: "circ RING_CAP (slots r) (head r) (ring_len r)
      = ?slot # circ RING_CAP (slots r) (head r + 1) (ring_len r - 1)"
    using circ_Cons [OF pos] by (simp add: slot_index_def)
  have rdy: "ready ?slot \<noteq> 0" using wf c by (simp add: ring_wf_def)
  with p ne have x: "x = Some (slot_msg ?slot)" and r': "r' = r\<lparr>slots := ?sl, head := head r + 1\<rparr>"
    by (auto simp: ring_pop_def Let_def slot_msg_def)
  have "circ RING_CAP ?sl (head r + 1) (ring_len r - 1) = circ RING_CAP (slots r) (head r + 1) (ring_len r - 1)"
    unfolding slot_index_def using wf pos by (intro circ_update_outside) (auto simp: ring_wf_def)
  then show ?thesis using wf c x by (auto simp: r' ring_wf_def ring_contents_def ring_len_pop [OF ne])
qed

interpretation ring_fifo: bounded_fifo ring_wf ring_contents RING_CAP push_msg ring_pop
proof
  fix r b r' x and m :: msg and ms
  assume wf: "ring_wf r"
  have len: "length (ring_contents r) = ring_len r" by (simp add: ring_contents_def)
  then show "length (ring_contents r) \<le> RING_CAP" using wf by (simp add: ring_wf_def)
  { assume "length (ring_contents r) < RING_CAP" "push_msg m r = (b, r')"
    with push_room [OF wf, of m b r'] len
    show "b \<and> ring_wf r' \<and> ring_contents r' = ring_contents r @ [m]" by simp }
  { assume "RING_CAP \<le> length (ring_contents r)" "push_msg m r = (b, r')"
    with len show "\<not> b \<and> r' = r" by (auto simp: push_msg_def ring_push_def Let_def full_iff) }
  { assume "ring_contents r = []" "ring_pop r = (x, r')"
    with len show "x = None \<and> r' = r" by (auto simp: ring_pop_def ring_len_def unat_eq_0) }
  { assume c: "ring_contents r = m # ms" and p: "ring_pop r = (x, r')"
    have "head r \<noteq> tail r" using c len by (auto simp: ring_len_def)
    from pop_next [OF wf this p] c show "x = Some m \<and> ring_wf r' \<and> ring_contents r' = ms" by simp }
qed

end
