(* ===== verification/Smp_Ring_Concurrent.thy ===== *)
theory Smp_Ring_Concurrent
  imports Smp_Ring
begin

text \<open>
  The message ring under concurrency: any number of producer cores run \<open>Ring::push\<close> and the
  owning core runs \<open>Ring::pop\<close>, interleaved at every atomic access of
  \<open>crates/akuma-smp/src/ring.rs\<close>. Each core has a program counter that says which access
  comes next and holds the values it has loaded. Interleavings are sequentially consistent:
  the release store and acquire load of \<open>ready\<close>, \<open>head\<close> and \<open>tail\<close> are the only accesses
  two cores race on.

  Two components are auxiliary: \<open>claimed\<close> lists the messages in the order in which their slots
  were claimed, and \<open>delivered\<close> those the consumer returned. A claim number is carried next to
  the loaded \<open>tail\<close> word. The compare-and-swap compares 32-bit words, so a producer that
  sleeps through exactly \<open>2\<^sup>3\<^sup>2\<close> claims would not notice them; rule \<open>p_claim\<close> excludes that.
\<close>

section \<open>Program counters and steps\<close>

datatype producer =
    PIdle
  | PLoop msg
  | PTail msg u32 nat
  | PHead msg u32 nat
  | PFill msg u32 nat nat

datatype consumer =
    CIdle
  | CHead u32
  | CTail u32
  | CRead u32 nat u64 u64 u64
  | CCleared u32 msg

record cring =
  rg :: ring
  prod :: "nat \<Rightarrow> producer"
  cons :: consumer
  claimed :: "msg list"
  delivered :: "msg list"

definition cring_init :: cring where
  "cring_init = \<lparr>rg = Ring_new, prod = (\<lambda>_. PIdle), cons = CIdle, claimed = [], delivered = []\<rparr>"

text \<open>The three relaxed payload stores of \<open>push\<close>, in program order.\<close>

definition store_word :: "nat \<Rightarrow> msg \<Rightarrow> msg_slot \<Rightarrow> msg_slot" where
  "store_word n m slot =
     (if n = 0 then slot\<lparr>word0 := pack_word0 (msg_kind m) (msg_from m)\<rparr>
      else if n = 1 then slot\<lparr>slot_v0 := msg_v0 m\<rparr>
      else slot\<lparr>slot_v1 := msg_v1 m\<rparr>)"

definition upd_slot :: "u32 \<Rightarrow> (msg_slot \<Rightarrow> msg_slot) \<Rightarrow> ring \<Rightarrow> ring" where
  "upd_slot t f r = r\<lparr>slots := (slots r)[slot_index t := f (slots r ! slot_index t)]\<rparr>"

inductive ring_step :: "cring \<Rightarrow> cring \<Rightarrow> bool" where
  p_call: "prod s p = PIdle \<Longrightarrow> ring_step s (s\<lparr>prod := (prod s)(p := PLoop m)\<rparr>)"
| p_load_tail: "prod s p = PLoop m \<Longrightarrow>
    ring_step s (s\<lparr>prod := (prod s)(p := PTail m (tail (rg s)) (length (claimed s)))\<rparr>)"
| p_full: "prod s p = PTail m t j \<Longrightarrow> of_nat RING_CAP \<le> t - head (rg s) \<Longrightarrow>
    ring_step s (s\<lparr>prod := (prod s)(p := PIdle)\<rparr>)"
| p_room: "prod s p = PTail m t j \<Longrightarrow> \<not> of_nat RING_CAP \<le> t - head (rg s) \<Longrightarrow>
    ring_step s (s\<lparr>prod := (prod s)(p := PHead m t j)\<rparr>)"
| p_retry: "prod s p = PHead m t j \<Longrightarrow> tail (rg s) \<noteq> t \<Longrightarrow>
    ring_step s (s\<lparr>prod := (prod s)(p := PLoop m)\<rparr>)"
| p_claim: "prod s p = PHead m t j \<Longrightarrow> tail (rg s) = t \<Longrightarrow> length (claimed s) - j < 2 ^ 32 \<Longrightarrow>
    ring_step s (s\<lparr>rg := (rg s)\<lparr>tail := t + 1\<rparr>,
      prod := (prod s)(p := PFill m t (length (claimed s)) 0), claimed := claimed s @ [m]\<rparr>)"
| p_store: "prod s p = PFill m t j n \<Longrightarrow> n < 3 \<Longrightarrow>
    ring_step s (s\<lparr>rg := upd_slot t (store_word n m) (rg s),
      prod := (prod s)(p := PFill m t j (Suc n))\<rparr>)"
| p_publish: "prod s p = PFill m t j 3 \<Longrightarrow>
    ring_step s (s\<lparr>rg := upd_slot t (ready_update (\<lambda>_. 1)) (rg s), prod := (prod s)(p := PIdle)\<rparr>)"
| c_load_head: "cons s = CIdle \<Longrightarrow> ring_step s (s\<lparr>cons := CHead (head (rg s))\<rparr>)"
| c_empty: "cons s = CHead h \<Longrightarrow> tail (rg s) = h \<Longrightarrow> ring_step s (s\<lparr>cons := CIdle\<rparr>)"
| c_some: "cons s = CHead h \<Longrightarrow> tail (rg s) \<noteq> h \<Longrightarrow> ring_step s (s\<lparr>cons := CTail h\<rparr>)"
| c_unready: "cons s = CTail h \<Longrightarrow> ready (slots (rg s) ! slot_index h) = 0 \<Longrightarrow>
    ring_step s (s\<lparr>cons := CIdle\<rparr>)"
| c_ready: "cons s = CTail h \<Longrightarrow> ready (slots (rg s) ! slot_index h) \<noteq> 0 \<Longrightarrow>
    ring_step s (s\<lparr>cons := CRead h 0 0 0 0\<rparr>)"
| c_word0: "cons s = CRead h 0 w0 v0 v1 \<Longrightarrow>
    ring_step s (s\<lparr>cons := CRead h 1 (word0 (slots (rg s) ! slot_index h)) v0 v1\<rparr>)"
| c_v0: "cons s = CRead h 1 w0 v0 v1 \<Longrightarrow>
    ring_step s (s\<lparr>cons := CRead h 2 w0 (slot_v0 (slots (rg s) ! slot_index h)) v1\<rparr>)"
| c_v1: "cons s = CRead h 2 w0 v0 v1 \<Longrightarrow>
    ring_step s (s\<lparr>cons := CRead h 3 w0 v0 (slot_v1 (slots (rg s) ! slot_index h))\<rparr>)"
| c_clear: "cons s = CRead h 3 w0 v0 v1 \<Longrightarrow>
    ring_step s (s\<lparr>rg := upd_slot h (ready_update (\<lambda>_. 0)) (rg s),
      cons := CCleared h (unpack_slot w0 v0 v1)\<rparr>)"
| c_advance: "cons s = CCleared h m \<Longrightarrow>
    ring_step s (s\<lparr>rg := (rg s)\<lparr>head := h + 1\<rparr>, cons := CIdle, delivered := delivered s @ [m]\<rparr>)"

section \<open>The invariant\<close>

text \<open>The slot of claim number \<open>j\<close>, and the claim a producer is filling.\<close>

definition cell :: "msg_slot list \<Rightarrow> nat \<Rightarrow> msg_slot" where
  "cell sl j = sl ! (j mod RING_CAP)"

fun filling :: "producer \<Rightarrow> nat option" where
  "filling (PFill m t j n) = Some j"
| "filling _ = None"

definition stored :: "nat \<Rightarrow> msg \<Rightarrow> msg_slot \<Rightarrow> bool" where
  "stored n m slot \<longleftrightarrow> (0 < n \<longrightarrow> word0 slot = pack_word0 (msg_kind m) (msg_from m))
     \<and> (1 < n \<longrightarrow> slot_v0 slot = msg_v0 m) \<and> (2 < n \<longrightarrow> slot_v1 slot = msg_v1 m)"

fun producer_ok :: "msg list \<Rightarrow> nat \<Rightarrow> msg_slot list \<Rightarrow> producer \<Rightarrow> bool" where
  "producer_ok cl d sl (PTail m t j) \<longleftrightarrow> t = of_nat j \<and> j \<le> length cl"
| "producer_ok cl d sl (PHead m t j) \<longleftrightarrow> t = of_nat j \<and> j \<le> length cl
     \<and> (j = length cl \<longrightarrow> length cl < d + RING_CAP)"
| "producer_ok cl d sl (PFill m t j n) \<longleftrightarrow> t = of_nat j \<and> d \<le> j \<and> j < length cl \<and> cl ! j = m
     \<and> ready (cell sl j) = 0 \<and> stored n m (cell sl j) \<and> n \<le> 3"
| "producer_ok cl d sl _ \<longleftrightarrow> True"

fun consumer_ok :: "msg list \<Rightarrow> nat \<Rightarrow> msg_slot list \<Rightarrow> consumer \<Rightarrow> bool" where
  "consumer_ok cl d sl CIdle \<longleftrightarrow> True"
| "consumer_ok cl d sl (CHead h) \<longleftrightarrow> h = of_nat d"
| "consumer_ok cl d sl (CTail h) \<longleftrightarrow> h = of_nat d \<and> d < length cl"
| "consumer_ok cl d sl (CRead h n w0 v0 v1) \<longleftrightarrow> h = of_nat d \<and> d < length cl
     \<and> ready (cell sl d) \<noteq> 0 \<and> n \<le> 3 \<and> (0 < n \<longrightarrow> w0 = word0 (cell sl d))
     \<and> (1 < n \<longrightarrow> v0 = slot_v0 (cell sl d)) \<and> (2 < n \<longrightarrow> v1 = slot_v1 (cell sl d))"
| "consumer_ok cl d sl (CCleared h m) \<longleftrightarrow> h = of_nat d \<and> d < length cl
     \<and> ready (cell sl d) = 0 \<and> m = cl ! d"

text \<open>A claimed slot is published with its message, being filled, or just being retired.\<close>

definition retiring :: "consumer \<Rightarrow> bool" where
  "retiring c \<longleftrightarrow> (case c of CCleared h m \<Rightarrow> True | _ \<Rightarrow> False)"

definition slot_state :: "cring \<Rightarrow> nat \<Rightarrow> bool" where
  "slot_state s j \<longleftrightarrow>
     (if j < length (claimed s)
      then (ready (cell (slots (rg s)) j) \<noteq> 0 \<and> slot_msg (cell (slots (rg s)) j) = claimed s ! j)
         \<or> (\<exists>p. filling (prod s p) = Some j)
         \<or> (j = length (delivered s) \<and> retiring (cons s))
      else ready (cell (slots (rg s)) j) = 0)"

definition ring_inv :: "cring \<Rightarrow> bool" where
  "ring_inv s \<longleftrightarrow>
     tail (rg s) = of_nat (length (claimed s)) \<and> head (rg s) = of_nat (length (delivered s))
     \<and> length (delivered s) \<le> length (claimed s)
     \<and> length (claimed s) \<le> length (delivered s) + RING_CAP
     \<and> length (slots (rg s)) = RING_CAP
     \<and> take (length (delivered s)) (claimed s) = delivered s
     \<and> (\<forall>p. producer_ok (claimed s) (length (delivered s)) (slots (rg s)) (prod s p))
     \<and> (\<forall>p q j. filling (prod s p) = Some j \<longrightarrow> filling (prod s q) = Some j \<longrightarrow> p = q)
     \<and> consumer_ok (claimed s) (length (delivered s)) (slots (rg s)) (cons s)
     \<and> (retiring (cons s) \<longrightarrow> (\<forall>p. filling (prod s p) \<noteq> Some (length (delivered s))))
     \<and> (\<forall>j. length (delivered s) \<le> j \<longrightarrow> j < length (delivered s) + RING_CAP \<longrightarrow> slot_state s j)"

lemma ring_inv_init: "ring_inv cring_init"
  by (auto simp: ring_inv_def cring_init_def Ring_new_def slot_state_def cell_def MsgSlot_new_def
      RING_CAP_def)

lemma slot_index_of_nat [simp]: "slot_index (of_nat j) = j mod RING_CAP"
  by (simp add: slot_index_def unat_of_nat mod_mod_cancel)

lemma window_inj:
  assumes "h \<le> i" "i < h + RING_CAP" "h \<le> j" "j < h + RING_CAP" "i mod RING_CAP = j mod RING_CAP"
  shows "i = j"
proof -
  have "i - h < RING_CAP" "j - h < RING_CAP" using assms by linarith+
  with mod_window_inj [of h "i - h" RING_CAP "j - h"] assms have "i - h = j - h" by simp
  with assms show ?thesis by linarith
qed

text \<open>Updating the slot of one claim leaves the other claims of the window alone.\<close>

lemma cell_upd:
  assumes "length sl = RING_CAP" "h \<le> i" "i < h + RING_CAP" "h \<le> j" "j < h + RING_CAP"
  shows "cell (sl[j mod RING_CAP := x]) i = (if i = j then x else cell sl i)"
  using assms window_inj [of h i j]
  by (auto simp: cell_def RING_CAP_def nth_list_update)

section \<open>Every step preserves the invariant\<close>

lemma filling_upd:
  "filling (f p) \<noteq> Some k \<Longrightarrow> filling pc \<noteq> Some k \<Longrightarrow>
     (\<exists>q. filling ((f(p := pc)) q) = Some k) \<longleftrightarrow> (\<exists>q. filling (f q) = Some k)"
  by (metis fun_upd_apply)

text \<open>Steps that only move the program counter of a producer that is not filling a slot.\<close>

lemma ring_inv_producer:
  assumes inv: "ring_inv s" and "filling (prod s p) = None" "filling pc = None"
    and "producer_ok (claimed s) (length (delivered s)) (slots (rg s)) pc"
  shows "ring_inv (s\<lparr>prod := (prod s)(p := pc)\<rparr>)"
proof -
  have fill: "(\<exists>q. filling (((prod s)(p := pc)) q) = Some j) \<longleftrightarrow> (\<exists>q. filling (prod s q) = Some j)" for j
    using assms(2,3) by (simp add: filling_upd del: fun_upd_apply)
  have "slot_state (s\<lparr>prod := (prod s)(p := pc)\<rparr>) j = slot_state s j" for j
    using fill by (simp add: slot_state_def del: fun_upd_apply)
  then show ?thesis using assms by (simp add: ring_inv_def)
qed

text \<open>Steps that only move the consumer's program counter.\<close>

lemma ring_inv_consumer:
  assumes "ring_inv s" "\<not> retiring (cons s)" "\<not> retiring c"
    and "consumer_ok (claimed s) (length (delivered s)) (slots (rg s)) c"
  shows "ring_inv (s\<lparr>cons := c\<rparr>)"
proof -
  have "slot_state (s\<lparr>cons := c\<rparr>) j = slot_state s j" for j
    using assms(2,3) by (simp add: slot_state_def)
  then show ?thesis using assms by (simp add: ring_inv_def)
qed

lemma ring_inv_consumer_ok:
  "ring_inv s \<Longrightarrow> consumer_ok (claimed s) (length (delivered s)) (slots (rg s)) (cons s)"
  by (simp add: ring_inv_def)

lemma ring_inv_counts:
  assumes "ring_inv s"
  shows "tail (rg s) = of_nat (length (claimed s))" "head (rg s) = of_nat (length (delivered s))"
    "length (delivered s) \<le> length (claimed s)"
    "length (claimed s) \<le> length (delivered s) + RING_CAP"
  using assms by (simp_all add: ring_inv_def)

lemma ring_inv_claim:
  assumes inv: "ring_inv s" and p: "prod s p = PHead m t j" "tail (rg s) = t"
    and aba: "length (claimed s) - j < 2 ^ 32"
  shows "ring_inv (s\<lparr>rg := (rg s)\<lparr>tail := t + 1\<rparr>,
      prod := (prod s)(p := PFill m t (length (claimed s)) 0), claimed := claimed s @ [m]\<rparr>)"
    (is "ring_inv ?s")
proof -
  let ?T = "length (claimed s)" and ?H = "length (delivered s)"
  have ok: "producer_ok (claimed s) ?H (slots (rg s)) (PHead m t j)"
    using inv p(1) by (metis ring_inv_def)
  have "j = ?T"
  proof -
    have "(of_nat j :: u32) = of_nat ?T" using ok p(2) inv by (simp add: ring_inv_def)
    then have "j mod 2 ^ 32 = ?T mod 2 ^ 32" by (auto dest!: arg_cong [of _ _ unat] simp: unat_of_nat)
    moreover have "j \<le> ?T" using ok by simp
    ultimately have "2 ^ 32 dvd ?T - j" by (metis mod_eq_dvd_iff_nat)
    with aba \<open>j \<le> ?T\<close> show ?thesis by (auto dest: dvd_imp_le)
  qed
  with ok have room: "?T < ?H + RING_CAP" by simp
  with inv have free: "ready (cell (slots (rg s)) ?T) = 0" by (auto simp: ring_inv_def slot_state_def)
  have lt: "filling (prod s q) = Some k \<Longrightarrow> k < ?T" for q k
    using inv by (cases "prod s q") (auto simp: ring_inv_def dest: spec [of _ q])
  have others: "producer_ok (claimed s @ [m]) ?H (slots (rg s)) (prod s q)" for q
    using inv by (cases "prod s q") (auto simp: ring_inv_def nth_append dest!: spec [of _ q])
  have st: "slot_state ?s k" if "?H \<le> k" "k < ?H + RING_CAP" for k
  proof (cases "k = ?T")
    case True then show ?thesis by (auto simp: slot_state_def intro: exI [of _ p])
  next
    case False
    have "slot_state s k" using inv that by (simp add: ring_inv_def)
    moreover have "(\<exists>q. filling (prod ?s q) = Some k) \<longleftrightarrow> (\<exists>q. filling (prod s q) = Some k)"
      using False p(1) by (simp add: filling_upd del: fun_upd_apply)
    ultimately show ?thesis using False
      by (simp add: slot_state_def nth_append del: fun_upd_apply)
  qed
  have cons: "consumer_ok (claimed s @ [m]) ?H (slots (rg s)) (cons s)"
    using ring_inv_consumer_ok [OF inv] by (cases "cons s") (auto simp: nth_append)
  have prods: "producer_ok (claimed s @ [m]) ?H (slots (rg s)) (prod ?s q)" for q
    using others [of q] ok \<open>j = ?T\<close> free inv by (simp add: stored_def ring_inv_def)
  have dist: "a = b" if "filling (prod ?s a) = Some k" "filling (prod ?s b) = Some k" for a b k
  proof -
    have "filling (prod s a) = Some k \<Longrightarrow> filling (prod s b) = Some k \<Longrightarrow> a = b"
      using inv by (simp add: ring_inv_def)
    with that lt [of a k] lt [of b k] show ?thesis by (cases "a = p"; cases "b = p") auto
  qed
  have ret: "filling (prod ?s q) \<noteq> Some ?H" if "retiring (cons s)" for q
  proof -
    have "?H < ?T" using ring_inv_consumer_ok [OF inv] that by (cases "cons s") (auto simp: retiring_def)
    moreover have "filling (prod s q) \<noteq> Some ?H" using inv that by (simp add: ring_inv_def)
    ultimately show ?thesis by simp
  qed
  have "take ?H (claimed s @ [m]) = delivered s" using inv by (simp add: ring_inv_def)
  with inv prods cons dist ret st room p(2) show ?thesis
    by (simp add: ring_inv_def del: fun_upd_apply)
qed

text \<open>
  Steps that change the slot of one claim \<open>j\<close> of the window: what the other slots' owners see is
  unchanged.
\<close>

lemma producer_ok_other:
  assumes ok: "producer_ok cl d sl pc" and fl: "filling pc \<noteq> Some j"
    and w: "length sl = RING_CAP" "d \<le> j" "j < d + RING_CAP" "length cl \<le> d + RING_CAP"
  shows "producer_ok cl d (sl[j mod RING_CAP := x]) pc"
proof (cases pc)
  case (PFill m t k n)
  with ok fl w cell_upd [of sl d k j x] show ?thesis by simp
qed (use ok in simp_all)

lemma consumer_ok_other:
  assumes ok: "consumer_ok cl d sl c" and w: "length sl = RING_CAP" "d \<le> j" "j < d + RING_CAP"
    and ch: "d = j \<Longrightarrow> (ready x = 0 \<and> ready (cell sl j) = 0)"
  shows "consumer_ok cl d (sl[j mod RING_CAP := x]) c"
proof (cases "d = j")
  case True
  with ok ch w cell_upd [of sl d d j x] show ?thesis by (cases c) (auto simp: RING_CAP_def)
next
  case False
  with w cell_upd [of sl d d j x] have "cell (sl[j mod RING_CAP := x]) d = cell sl d"
    by (simp add: RING_CAP_def)
  with ok show ?thesis by (cases c) auto
qed

lemma ring_inv_fill:
  assumes inv: "ring_inv s" and p: "prod s p = PFill m t j n"
    and x: "(pc = PFill m t j (Suc n) \<and> n < 3 \<and> f = store_word n m)
      \<or> (pc = PIdle \<and> n = 3 \<and> f = ready_update (\<lambda>_. 1))"
  shows "ring_inv (s\<lparr>rg := upd_slot t f (rg s), prod := (prod s)(p := pc)\<rparr>)" (is "ring_inv ?s")
proof -
  let ?H = "length (delivered s)" and ?T = "length (claimed s)" and ?sl = "slots (rg s)"
  let ?x = "f (cell ?sl j)"
  let ?sl' = "?sl[j mod RING_CAP := ?x]"
  have pok: "producer_ok (claimed s) ?H ?sl (PFill m t j n)" using inv p by (metis ring_inv_def)
  have w: "length ?sl = RING_CAP" "?H \<le> j" "j < ?H + RING_CAP" "?T \<le> ?H + RING_CAP"
    using inv pok by (auto simp: ring_inv_def)
  have sl': "slots (rg ?s) = ?sl'" using pok by (simp add: upd_slot_def cell_def)
  have cell': "cell ?sl' i = (if i = j then ?x else cell ?sl i)" if "?H \<le> i" "i < ?H + RING_CAP" for i
    by (rule cell_upd [OF w(1) that w(2,3)])
  have uniq: "filling (prod s q) \<noteq> Some j" if "q \<noteq> p" for q
    using inv p that by (auto simp: ring_inv_def)
  have prods: "producer_ok (claimed s) ?H ?sl' (prod ?s q)" for q
  proof (cases "q = p")
    case True
    then show ?thesis using x pok cell' [of j] w by (auto simp: stored_def store_word_def)
  next
    case False
    then show ?thesis
      using inv uniq [OF False] producer_ok_other [OF _ _ w, of "prod s q"] by (simp add: ring_inv_def)
  qed
  have "?H \<noteq> j" if "retiring (cons s)" using inv p that by (metis ring_inv_def filling.simps(1))
  moreover have "consumer_ok (claimed s) ?H ?sl (cons s)" using inv by (simp add: ring_inv_def)
  ultimately have cons: "consumer_ok (claimed s) ?H ?sl' (cons s)"
    using pok x cell' [of ?H] w
    by (cases "cons s"; cases "?H = j") (auto simp: retiring_def RING_CAP_def store_word_def)
  have st: "slot_state ?s k" if k: "?H \<le> k" "k < ?H + RING_CAP" for k
  proof (cases "k = j")
    case True
    then show ?thesis using x pok cell' [of j] w sl'
      by (auto simp: slot_state_def slot_msg_def stored_def intro: exI [of _ p])
  next
    case False
    have "filling (prod s p) \<noteq> Some k" using p False by simp
    then have "(\<exists>q. filling (prod ?s q) = Some k) \<longleftrightarrow> (\<exists>q. filling (prod s q) = Some k)"
      using filling_upd [of "prod s" p k pc] x False \<open>filling (prod s p) \<noteq> Some k\<close> by auto
    moreover have "slot_state s k" using inv k by (simp add: ring_inv_def)
    ultimately show ?thesis using cell' [OF k] False sl' by (simp add: slot_state_def del: fun_upd_apply)
  qed
  have dist: "a = b" if "filling (prod ?s a) = Some k" "filling (prod ?s b) = Some k" for a b k
    using that x uniq inv p by (auto simp: ring_inv_def split: if_splits)
  have "filling (prod ?s q) \<noteq> Some ?H" if "retiring (cons s)" for q
  proof -
    have "filling (prod s q) \<noteq> Some ?H" "filling (prod s p) \<noteq> Some ?H"
      using inv that by (simp_all add: ring_inv_def)
    with x p show ?thesis by auto
  qed
  with inv prods cons st dist sl' w show ?thesis
    by (simp add: ring_inv_def upd_slot_def del: fun_upd_apply)
qed

lemma ring_inv_clear:
  assumes inv: "ring_inv s" and c: "cons s = CRead h 3 w0 v0 v1"
  shows "ring_inv (s\<lparr>rg := upd_slot h (ready_update (\<lambda>_. 0)) (rg s),
      cons := CCleared h (unpack_slot w0 v0 v1)\<rparr>)" (is "ring_inv ?s")
proof -
  let ?H = "length (delivered s)" and ?T = "length (claimed s)" and ?sl = "slots (rg s)"
  let ?x = "(cell ?sl ?H)\<lparr>ready := 0\<rparr>"
  let ?sl' = "?sl[?H mod RING_CAP := ?x]"
  have cok: "consumer_ok (claimed s) ?H ?sl (CRead h 3 w0 v0 v1)" using inv c by (metis ring_inv_def)
  have w: "length ?sl = RING_CAP" "?H \<le> ?H" "?H < ?H + RING_CAP" "?T \<le> ?H + RING_CAP"
    using inv by (auto simp: ring_inv_def RING_CAP_def)
  have sl': "slots (rg ?s) = ?sl'" using cok by (simp add: upd_slot_def cell_def)
  have cell': "cell ?sl' i = (if i = ?H then ?x else cell ?sl i)" if "?H \<le> i" "i < ?H + RING_CAP" for i
    by (rule cell_upd [OF w(1) that w(2,3)])
  have nofill: "filling (prod s q) \<noteq> Some ?H" for q
    using inv cok by (cases "prod s q") (auto simp: ring_inv_def dest!: spec [of _ q])
  have prods: "producer_ok (claimed s) ?H ?sl' (prod s q)" for q
    using inv producer_ok_other [OF _ nofill w, of q] by (simp add: ring_inv_def)
  have "slot_state s ?H" using inv w by (simp add: ring_inv_def)
  then have "slot_msg (cell ?sl ?H) = claimed s ! ?H"
    using cok nofill c by (simp add: slot_state_def retiring_def)
  then have "consumer_ok (claimed s) ?H ?sl' (CCleared h (unpack_slot w0 v0 v1))"
    using cok cell' [of ?H] w by (simp add: slot_msg_def)
  moreover have "slot_state ?s k" if k: "?H \<le> k" "k < ?H + RING_CAP" for k
  proof -
    have "slot_state s k" using inv k by (simp add: ring_inv_def)
    then show ?thesis using cell' [OF k] sl' cok c by (auto simp: slot_state_def retiring_def)
  qed
  ultimately show ?thesis using inv prods nofill sl' w by (simp add: ring_inv_def upd_slot_def)
qed

lemma ring_inv_advance:
  assumes inv: "ring_inv s" and c: "cons s = CCleared h m"
  shows "ring_inv (s\<lparr>rg := (rg s)\<lparr>head := h + 1\<rparr>, cons := CIdle, delivered := delivered s @ [m]\<rparr>)"
    (is "ring_inv ?s")
proof -
  let ?H = "length (delivered s)" and ?T = "length (claimed s)" and ?sl = "slots (rg s)"
  have cok: "consumer_ok (claimed s) ?H ?sl (CCleared h m)" using inv c by (metis ring_inv_def)
  have nofill: "filling (prod s q) \<noteq> Some ?H" for q
    using inv c by (simp add: ring_inv_def retiring_def)
  have prods: "producer_ok (claimed s) (Suc ?H) ?sl (prod s q)" for q
    using inv nofill [of q] by (cases "prod s q") (auto simp: ring_inv_def dest!: spec [of _ q])
  have st: "slot_state ?s k" if k: "Suc ?H \<le> k" "k < Suc ?H + RING_CAP" for k
  proof (cases "k = ?H + RING_CAP")
    case True
    then have "cell ?sl k = cell ?sl ?H" "\<not> k < ?T"
      using inv by (auto simp: cell_def ring_inv_def)
    with cok show ?thesis by (simp add: slot_state_def)
  next
    case False
    then have "slot_state s k" using inv k by (simp add: ring_inv_def)
    with k show ?thesis by (auto simp: slot_state_def)
  qed
  have "take (Suc ?H) (claimed s) = delivered s @ [m]"
    using inv cok by (simp add: ring_inv_def take_Suc_conv_app_nth)
  with inv prods st cok show ?thesis by (simp add: ring_inv_def retiring_def)
qed

lemma ring_step_inv: "ring_step s s' \<Longrightarrow> ring_inv s \<Longrightarrow> ring_inv s'"
proof (induction rule: ring_step.induct)
  case (p_load_tail s p m)
  then show ?case by (intro ring_inv_producer) (simp_all add: ring_inv_def)
next
  case (p_room s p m t j)
  let ?T = "length (claimed s)" and ?H = "length (delivered s)"
  have ok: "producer_ok (claimed s) ?H (slots (rg s)) (PTail m t j)"
    using p_room by (metis ring_inv_def)
  have "?T < ?H + RING_CAP" if "j = ?T"
  proof -
    have "t - head (rg s) = of_nat (?T - ?H)"
      using that ok p_room.prems by (simp add: ring_inv_def of_nat_diff)
    moreover have "?T \<le> ?H + RING_CAP" using p_room.prems by (simp add: ring_inv_def)
    then have "?T - ?H < 2 ^ 32" by (simp add: RING_CAP_def)
    ultimately have "unat (t - head (rg s)) = ?T - ?H" by (simp add: unat_of_nat_small)
    with p_room.hyps(2) show ?thesis by (simp add: word_le_nat_alt RING_CAP_def)
  qed
  with ok p_room show ?case by (intro ring_inv_producer) simp_all
next
  case (c_some s h)
  then have "length (delivered s) < length (claimed s)"
    using ring_inv_consumer_ok [OF c_some.prems] ring_inv_counts [OF c_some.prems]
    by (cases "length (delivered s) = length (claimed s)") simp_all
  with c_some show ?case by (intro ring_inv_consumer) (simp_all add: ring_inv_def retiring_def)
next
  case (p_claim s p m t j)
  then show ?case by (intro ring_inv_claim)
next
  case (p_store s p m t j n)
  then show ?case by (intro ring_inv_fill) auto
next
  case (p_publish s p m t j)
  then show ?case by (intro ring_inv_fill) auto
next
  case (c_clear s h w0 v0 v1)
  then show ?case by (intro ring_inv_clear)
next
  case (c_advance s h m)
  then show ?case by (intro ring_inv_advance)
next
  case (c_load_head s)
  then show ?case by (intro ring_inv_consumer) (simp_all add: ring_inv_def retiring_def)
next
  case (c_empty s h)
  then show ?case by (intro ring_inv_consumer) (simp_all add: retiring_def)
next
  case (c_unready s h)
  then show ?case by (intro ring_inv_consumer) (simp_all add: retiring_def)
next
  case (c_ready s h)
  with ring_inv_consumer_ok [of s] show ?case
    by (intro ring_inv_consumer) (simp_all add: retiring_def cell_def)
next
  case (c_word0 s h w0 v0 v1)
  with ring_inv_consumer_ok [of s] show ?case
    by (intro ring_inv_consumer) (simp_all add: retiring_def cell_def)
next
  case (c_v0 s h w0 v0 v1)
  with ring_inv_consumer_ok [of s] show ?case
    by (intro ring_inv_consumer) (simp_all add: retiring_def cell_def)
next
  case (c_v1 s h w0 v0 v1)
  with ring_inv_consumer_ok [of s] show ?case
    by (intro ring_inv_consumer) (simp_all add: retiring_def cell_def)
qed (intro ring_inv_producer; simp)+

lemma reachable_ring_inv: "ring_step\<^sup>*\<^sup>* cring_init s \<Longrightarrow> ring_inv s"
  by (induction rule: rtranclp_induct) (auto intro: ring_inv_init ring_step_inv)

section \<open>Quiescent states\<close>

definition quiescent :: "cring \<Rightarrow> bool" where
  "quiescent s \<longleftrightarrow> (\<forall>p. prod s p = PIdle) \<and> cons s = CIdle"

lemma circ_cells: "circ RING_CAP sl (of_nat d) n = map (\<lambda>i. cell sl (d + i)) [0..<n]"
  by (simp add: circ_def cell_def circ_index unat_of_nat mod_mod_cancel mod_add_left_eq)

lemma quiescent_ring_len:
  assumes "ring_inv s"
  shows "ring_len (rg s) = length (claimed s) - length (delivered s)"
proof -
  note c = ring_inv_counts [OF assms]
  have "tail (rg s) - head (rg s) = of_nat (length (claimed s) - length (delivered s))"
    using c by (simp add: of_nat_diff)
  moreover have "length (claimed s) - length (delivered s) < 2 ^ 32"
    using c(4) by (simp add: RING_CAP_def)
  ultimately show ?thesis by (simp add: ring_len_def unat_of_nat_small)
qed

lemma quiescent_contents:
  assumes inv: "ring_inv s" and q: "quiescent s"
  shows "ring_wf (rg s)" and "claimed s = delivered s @ ring_contents (rg s)"
proof -
  let ?H = "length (delivered s)" and ?T = "length (claimed s)" and ?sl = "slots (rg s)"
  note c = ring_inv_counts [OF inv]
  have st: "ready (cell ?sl j) \<noteq> 0 \<and> slot_msg (cell ?sl j) = claimed s ! j" if "?H \<le> j" "j < ?T" for j
  proof -
    have "slot_state s j" using inv that c(4) by (simp add: ring_inv_def)
    with q that show ?thesis by (auto simp: slot_state_def quiescent_def retiring_def)
  qed
  have cells: "circ RING_CAP ?sl (head (rg s)) (ring_len (rg s)) = map (\<lambda>i. cell ?sl (?H + i)) [0..<?T - ?H]"
    by (simp add: c(2) circ_cells quiescent_ring_len [OF inv])
  have "length ?sl = RING_CAP" using inv by (simp add: ring_inv_def)
  with cells st c(4) show "ring_wf (rg s)" by (auto simp: ring_wf_def quiescent_ring_len [OF inv])
  have "ring_contents (rg s) = map (\<lambda>i. claimed s ! (?H + i)) [0..<?T - ?H]"
    using cells st by (simp add: ring_contents_def)
  also have "\<dots> = drop ?H (claimed s)" using c(3) by (auto intro: nth_equalityI)
  finally have r: "ring_contents (rg s) = drop ?H (claimed s)" .
  have "take ?H (claimed s) = delivered s" using inv by (simp add: ring_inv_def)
  then have "delivered s @ drop ?H (claimed s) = claimed s" using append_take_drop_id [of ?H "claimed s"] by simp
  with r show "claimed s = delivered s @ ring_contents (rg s)" by simp
qed

text \<open>A producer that is not interrupted performs \<open>ring_push\<close>.\<close>

lemma upd_slot_upd_slot: "length (slots r) = RING_CAP \<Longrightarrow> upd_slot t g (upd_slot t f r) = upd_slot t (g \<circ> f) r"
  by (simp add: upd_slot_def slot_index_def RING_CAP_def)

lemma all_words_stored:
  "slot\<lparr>word0 := a, slot_v0 := b, slot_v1 := c, ready := r\<rparr>
    = \<lparr>ready = r, word0 = a, slot_v0 = b, slot_v1 = c\<rparr>"
  by (cases slot) simp

lemma solo_push:
  assumes inv: "ring_inv s" and p: "prod s p = PIdle"
  shows "\<exists>s'. ring_step\<^sup>*\<^sup>* s s' \<and> prod s' = prod s \<and> cons s' = cons s
    \<and> rg s' = snd (push_msg m (rg s))
    \<and> claimed s' = claimed s @ (if fst (push_msg m (rg s)) then [m] else [])"
proof -
  let ?T = "length (claimed s)" and ?t = "tail (rg s)"
  define s2 where "s2 = s\<lparr>prod := (prod s)(p := PTail m ?t ?T)\<rparr>"
  have "ring_step s (s\<lparr>prod := (prod s)(p := PLoop m)\<rparr>)" by (rule ring_step.p_call [OF p])
  moreover have "ring_step (s\<lparr>prod := (prod s)(p := PLoop m)\<rparr>) s2"
    using ring_step.p_load_tail [of "s\<lparr>prod := (prod s)(p := PLoop m)\<rparr>" p m] by (simp add: s2_def)
  ultimately have 2: "ring_step\<^sup>*\<^sup>* s s2" by (meson rtranclp.rtrancl_into_rtrancl rtranclp.rtrancl_refl)
  have p2: "prod s2 p = PTail m ?t ?T" "rg s2 = rg s" by (simp_all add: s2_def)
  show ?thesis
  proof (cases "of_nat RING_CAP \<le> ?t - head (rg s)")
    case True
    then have "ring_step s2 s"
      using ring_step.p_full [OF p2(1)] p2(2) p by (simp add: s2_def fun_upd_idem)
    with 2 have "ring_step\<^sup>*\<^sup>* s s" by simp
    moreover have "push_msg m (rg s) = (False, rg s)" using True by (simp add: push_msg_def ring_push_def)
    ultimately show ?thesis by (intro exI [of _ s]) simp
  next
    case False
    let ?st = "\<lambda>n f. s\<lparr>claimed := claimed s @ [m], rg := upd_slot ?t f ((rg s)\<lparr>tail := ?t + 1\<rparr>),
       prod := (prod s)(p := PFill m ?t ?T n)\<rparr>"
    let ?f1 = "store_word 0 m" and ?f2 = "store_word 1 m \<circ> store_word 0 m"
      and ?f3 = "store_word 2 m \<circ> (store_word 1 m \<circ> store_word 0 m)"
    have len: "length (slots (rg s)) = RING_CAP" using inv by (simp add: ring_inv_def)
    let ?s3 = "s\<lparr>prod := (prod s)(p := PHead m ?t ?T)\<rparr>"
    let ?s5 = "s\<lparr>rg := (rg s)\<lparr>tail := ?t + 1\<rparr>, prod := (prod s)(p := PFill m ?t ?T 0),
      claimed := claimed s @ [m]\<rparr>"
    let ?fin = "s\<lparr>claimed := claimed s @ [m],
       rg := upd_slot ?t (ready_update (\<lambda>_. 1) \<circ> ?f3) ((rg s)\<lparr>tail := ?t + 1\<rparr>), prod := prod s\<rparr>"
    have "ring_step s2 ?s3" using ring_step.p_room [OF p2(1)] False p2(2) by (simp add: s2_def)
    moreover have "ring_step ?s3 ?s5" using ring_step.p_claim [of ?s3 p m ?t ?T] by simp
    moreover have "ring_step ?s5 (?st 1 ?f1)" using ring_step.p_store [of ?s5 p m ?t ?T 0] by simp
    moreover have "ring_step (?st 1 ?f1) (?st 2 ?f2)"
      using ring_step.p_store [of "?st 1 ?f1" p m ?t ?T 1] len by (simp add: upd_slot_upd_slot numeral_2_eq_2)
    moreover have "ring_step (?st 2 ?f2) (?st 3 ?f3)"
      using ring_step.p_store [of "?st 2 ?f2" p m ?t ?T 2] len by (simp add: upd_slot_upd_slot numeral_3_eq_3)
    moreover have "ring_step (?st 3 ?f3) ?fin"
      using ring_step.p_publish [of "?st 3 ?f3" p m ?t ?T] len p
      by (simp add: upd_slot_upd_slot fun_upd_idem)
    ultimately have "ring_step\<^sup>*\<^sup>* s2 ?fin"
      by (meson rtranclp.rtrancl_into_rtrancl rtranclp.rtrancl_refl)
    with 2 have "ring_step\<^sup>*\<^sup>* s ?fin" by simp
    moreover have "push_msg m (rg s) = (True, rg ?fin)"
      using False by (simp add: push_msg_def ring_push_def upd_slot_def store_word_def Let_def all_words_stored)
    ultimately show ?thesis by (intro exI [of _ ?fin]) simp
  qed
qed

section \<open>Properties\<close>

text \<open>
  C6: Under every interleaving of producer cores and the consumer, the ring is a queue: the
  messages delivered are, in order, exactly the first messages claimed (none lost, repeated,
  reordered or torn), and never more than \<open>RING_CAP\<close> claims are outstanding. Once all cores
  are idle, the messages still in the ring are exactly the claimed ones not yet delivered.
\<close>

theorem ring_concurrent_fifo:
  assumes "ring_step\<^sup>*\<^sup>* cring_init s"
  shows "take (length (delivered s)) (claimed s) = delivered s
    \<and> length (claimed s) \<le> length (delivered s) + RING_CAP
    \<and> (quiescent s \<longrightarrow> claimed s = delivered s @ ring_contents (rg s) \<and> ring_wf (rg s))"
proof -
  have inv: "ring_inv s" by (rule reachable_ring_inv [OF assms])
  then have "take (length (delivered s)) (claimed s) = delivered s" by (simp add: ring_inv_def)
  with ring_inv_counts(4) [OF inv] quiescent_contents [OF inv] show ?thesis by blast
qed

theorem ring_concurrent_fifo_witness:
  "\<exists>s m. ring_step\<^sup>*\<^sup>* cring_init s \<and> quiescent s \<and> claimed s = [m] \<and> ring_contents (rg s) = [m]"
proof -
  define m where "m = \<lparr>msg_kind = MSG_REPAID, msg_from = 2, msg_v0 = 0x1000, msg_v1 = 400\<rparr>"
  have idle: "prod cring_init 0 = PIdle" by (simp add: cring_init_def)
  from solo_push [OF ring_inv_init idle, of m] obtain s where
    s: "ring_step\<^sup>*\<^sup>* cring_init s" "prod s = prod cring_init" "cons s = cons cring_init"
      "claimed s = claimed cring_init @ (if fst (push_msg m (rg cring_init)) then [m] else [])"
      "rg s = snd (push_msg m (rg cring_init))" by blast
  have "fst (push_msg m (rg cring_init))"
    by (simp add: push_msg_def ring_push_def cring_init_def Ring_new_def RING_CAP_def)
  then have cl: "claimed s = [m]" using s(4) by (simp add: cring_init_def)
  have q: "quiescent s" using s(2,3) by (simp add: quiescent_def cring_init_def)
  have "\<exists>r. push_msg m (rg cring_init) = (True, r)"
    by (simp add: push_msg_def ring_push_def cring_init_def Ring_new_def RING_CAP_def)
  then obtain r where r: "push_msg m (rg cring_init) = (True, r)" by blast
  have "ring_len (rg s) = 1"
    using s(5) by (simp add: push_msg_def ring_push_def cring_init_def Ring_new_def RING_CAP_def ring_len_def)
  then have "length (ring_contents (rg s)) = 1" by (simp add: ring_contents_def)
  with ring_concurrent_fifo [OF s(1)] q cl have "ring_contents (rg s) = [m]" by (cases "delivered s") auto
  with s(1) q cl show ?thesis by blast
qed


end
