(* ===== verification/Smp_Channels.thy ===== *)
theory Smp_Channels
  imports Smp_Ring
begin

text \<open>
  The byte channels of the shared machine descriptor: the console ring
  (\<open>console_ring.rs\<close>), the syscall-forwarding frame, bounce buffer and reply mailbox
  (\<open>fwd_bounce.rs\<close>), the init-program slot (\<open>init_program.rs\<close>) and the descriptor that holds
  one of each per core (\<open>descriptor.rs\<close>), all under \<open>crates/akuma-smp/src\<close>.
\<close>

section \<open>Console ring\<close>

definition CONSOLE_RING_CAP :: nat where
  "CONSOLE_RING_CAP = 4096"

record console_ring =
  con_head :: u32
  con_tail :: u32
  con_buf :: "u8 list"

definition ConsoleRing_new :: console_ring where
  "ConsoleRing_new = \<lparr>con_head = 0, con_tail = 0, con_buf = replicate CONSOLE_RING_CAP 0\<rparr>"

fun console_write_loop :: "u32 \<Rightarrow> u8 list \<Rightarrow> u32 \<Rightarrow> u8 list \<Rightarrow> nat \<Rightarrow> u32 \<times> u8 list \<times> nat" where
  "console_write_loop h [] t buf written = (t, buf, written)"
| "console_write_loop h (b # bs) t buf written =
     (if of_nat CONSOLE_RING_CAP \<le> t - h then (t, buf, written)
      else console_write_loop h bs (t + 1) (buf[unat t mod CONSOLE_RING_CAP := b]) (written + 1))"

definition console_write :: "u8 list \<Rightarrow> console_ring \<Rightarrow> nat \<times> console_ring" where
  "console_write bs r =
     (case console_write_loop (con_head r) bs (con_tail r) (con_buf r) 0 of
        (t, buf, written) \<Rightarrow> (written, r\<lparr>con_tail := t, con_buf := buf\<rparr>))"

text \<open>\<open>n\<close> is the room left in the caller's slice; the bytes copied into it are returned.\<close>

fun console_read_loop :: "u8 list \<Rightarrow> u32 \<Rightarrow> nat \<Rightarrow> u32 \<Rightarrow> u8 list \<times> u32" where
  "console_read_loop buf t 0 h = ([], h)"
| "console_read_loop buf t (Suc n) h =
     (if h = t then ([], h)
      else case console_read_loop buf t n (h + 1) of
             (bs, h') \<Rightarrow> (buf ! (unat h mod CONSOLE_RING_CAP) # bs, h'))"

definition console_read :: "nat \<Rightarrow> console_ring \<Rightarrow> u8 list \<times> console_ring" where
  "console_read out_len r =
     (case console_read_loop (con_buf r) (con_tail r) out_len (con_head r) of
        (bs, h) \<Rightarrow> (bs, r\<lparr>con_head := h\<rparr>))"

definition console_is_empty :: "console_ring \<Rightarrow> bool" where
  "console_is_empty r \<longleftrightarrow> con_head r = con_tail r"

section \<open>Syscall forwarding\<close>

definition FWD_BOUNCE_CAP :: nat where
  "FWD_BOUNCE_CAP = 65536"

definition FWD_CALL_ARGS :: nat where
  "FWD_CALL_ARGS = 6"

record forward_call =
  fc_nr :: u64
  fc_args :: "u64 list"

definition ForwardCall_new :: forward_call where
  "ForwardCall_new = \<lparr>fc_nr = 0, fc_args = replicate FWD_CALL_ARGS 0\<rparr>"

text \<open>A loop that stores a slice over the first bytes of an array.\<close>

fun store_from :: "nat \<Rightarrow> 'a list \<Rightarrow> 'a list \<Rightarrow> 'a list" where
  "store_from i [] buf = buf"
| "store_from i (b # bs) buf = store_from (Suc i) bs (buf[i := b])"

definition fwd_call_set :: "u64 \<Rightarrow> u64 list \<Rightarrow> forward_call \<Rightarrow> forward_call" where
  "fwd_call_set nr args c = c\<lparr>fc_nr := nr, fc_args := store_from 0 args (fc_args c)\<rparr>"

definition fwd_call_get :: "forward_call \<Rightarrow> u64 \<times> u64 list" where
  "fwd_call_get c = (fc_nr c, fc_args c)"

type_synonym fwd_bounce = "u8 list"

definition FwdBounce_new :: fwd_bounce where
  "FwdBounce_new = replicate FWD_BOUNCE_CAP 0"

definition bounce_write :: "u8 list \<Rightarrow> fwd_bounce \<Rightarrow> nat \<times> fwd_bounce" where
  "bounce_write src b =
     (let n = min (length src) FWD_BOUNCE_CAP in (n, store_from 0 (take n src) b))"

text \<open>The bytes copied out for a slice of length \<open>out_len\<close>.\<close>

definition bounce_read :: "nat \<Rightarrow> fwd_bounce \<Rightarrow> u8 list" where
  "bounce_read out_len b = (let n = min out_len FWD_BOUNCE_CAP in map (\<lambda>i. b ! i) [0..<n])"

definition bounce_map_in_place :: "nat \<Rightarrow> (u8 \<Rightarrow> u8) \<Rightarrow> fwd_bounce \<Rightarrow> fwd_bounce" where
  "bounce_map_in_place len f b = fold (\<lambda>i buf. buf[i := f (buf ! i)]) [0..<min len FWD_BOUNCE_CAP] b"

record fwd_reply =
  rep_ret :: u64
  rep_nr :: u64
  rep_seq :: u64

definition FwdReply_new :: fwd_reply where
  "FwdReply_new = \<lparr>rep_ret = 0, rep_nr = 0, rep_seq = 0\<rparr>"

definition reply_publish :: "u64 \<Rightarrow> u64 \<Rightarrow> fwd_reply \<Rightarrow> fwd_reply" where
  "reply_publish ret nr r = r\<lparr>rep_ret := ret, rep_nr := nr, rep_seq := rep_seq r + 1\<rparr>"

definition reply_changed :: "u64 \<Rightarrow> fwd_reply \<Rightarrow> bool" where
  "reply_changed snapshot r \<longleftrightarrow> rep_seq r \<noteq> snapshot"

definition reply_read :: "fwd_reply \<Rightarrow> u64 \<times> u64" where
  "reply_read r = (rep_ret r, rep_nr r)"

section \<open>Init program\<close>

definition INIT_PROGRAM_CAP :: nat where
  "INIT_PROGRAM_CAP = 256"

record init_program =
  ip_path :: "u8 list"
  ip_len :: u32

definition InitProgram_new :: init_program where
  "InitProgram_new = \<lparr>ip_path = replicate INIT_PROGRAM_CAP 0, ip_len = 0\<rparr>"

definition init_program_set :: "u8 list \<Rightarrow> init_program \<Rightarrow> nat \<times> init_program" where
  "init_program_set path p =
     (let n = min (length path) INIT_PROGRAM_CAP in
      (n, p\<lparr>ip_path := store_from 0 (take n path) (ip_path p), ip_len := of_nat n\<rparr>))"

definition init_program_get :: "nat \<Rightarrow> init_program \<Rightarrow> nat \<times> u8 list" where
  "init_program_get out_len p =
     (let len = unat (ip_len p); n = min (min len out_len) INIT_PROGRAM_CAP in
      (len, map (\<lambda>i. ip_path p ! i) [0..<n]))"

definition init_program_is_set :: "init_program \<Rightarrow> bool" where
  "init_program_is_set p \<longleftrightarrow> ip_len p \<noteq> 0"

section \<open>Copies into and out of a shared array\<close>

lemma length_store_from [simp]: "length (store_from i xs buf) = length buf"
  by (induction i xs buf rule: store_from.induct) auto

lemma store_from_eq:
  "i + length xs \<le> length buf \<Longrightarrow> store_from i xs buf = take i buf @ xs @ drop (i + length xs) buf"
proof (induction i xs buf rule: store_from.induct)
  case (2 i b bs buf)
  then have "store_from i (b # bs) buf = take (Suc i) (buf[i := b]) @ bs @ drop (Suc i + length bs) (buf[i := b])"
    by simp
  also have "take (Suc i) (buf[i := b]) = take i buf @ [b]" using 2 by (simp add: take_Suc_conv_app_nth)
  also have "drop (Suc i + length bs) (buf[i := b]) = drop (Suc i + length bs) buf" by simp
  finally show ?case by simp
qed simp

lemma map_nth_take: "n \<le> length xs \<Longrightarrow> map (\<lambda>i. xs ! i) [0..<n] = take n xs"
  by (auto intro: nth_equalityI)

lemma fwd_call_roundtrip:
  assumes "length (fc_args c) = FWD_CALL_ARGS" "length args = FWD_CALL_ARGS"
  shows "fwd_call_get (fwd_call_set nr args c) = (nr, args)"
  using assms by (simp add: fwd_call_get_def fwd_call_set_def store_from_eq)

lemma bounce_roundtrip:
  assumes "length b = FWD_BOUNCE_CAP" "bounce_write src b = (n, b')"
  shows "n = min (length src) FWD_BOUNCE_CAP \<and> length b' = FWD_BOUNCE_CAP
    \<and> bounce_read n b' = take FWD_BOUNCE_CAP src \<and> drop n b' = drop n b"
proof -
  have b': "b' = take n src @ drop n b" "n = min (length src) FWD_BOUNCE_CAP"
    using assms by (auto simp: bounce_write_def Let_def store_from_eq)
  then have "length b' = FWD_BOUNCE_CAP" using assms(1) by simp
  moreover have "bounce_read n b' = take n b'"
    using b'(2) calculation by (simp add: bounce_read_def map_nth_take)
  moreover have "take n b' = take FWD_BOUNCE_CAP src"
    using b' by (cases "length src \<le> FWD_BOUNCE_CAP") (simp_all add: min_def)
  moreover have "drop n b' = drop n b" using b' by (simp add: min_def)
  ultimately show ?thesis using b'(2) by simp
qed

lemma init_program_roundtrip:
  assumes "length (ip_path p) = INIT_PROGRAM_CAP" "init_program_set path p = (n, p')"
    and "INIT_PROGRAM_CAP \<le> out_len"
  shows "init_program_get out_len p' = (n, take INIT_PROGRAM_CAP path)
    \<and> (init_program_is_set p' \<longleftrightarrow> path \<noteq> [])"
proof -
  have n: "n = min (length path) INIT_PROGRAM_CAP"
    and p': "p' = p\<lparr>ip_path := take n path @ drop n (ip_path p), ip_len := of_nat n\<rparr>"
    using assms(1,2) by (auto simp: init_program_set_def Let_def store_from_eq)
  have u: "unat (of_nat n :: u32) = n" by (rule unat_of_nat_small) (simp add: n INIT_PROGRAM_CAP_def)
  have "map (\<lambda>i. ip_path p' ! i) [0..<n] = take n (ip_path p')"
    using assms(1) n by (intro map_nth_take) (simp add: p')
  also have "\<dots> = take INIT_PROGRAM_CAP path" using n by (simp add: p' min_def)
  finally have "init_program_get out_len p' = (n, take INIT_PROGRAM_CAP path)"
    using u n assms(3) by (simp add: init_program_get_def p' Let_def min_def)
  moreover have "(of_nat n :: u32) = 0 \<longleftrightarrow> n = 0" using u by (metis unat_eq_zero)
  ultimately show ?thesis using n by (auto simp: init_program_is_set_def p' INIT_PROGRAM_CAP_def)
qed

section \<open>The console ring refines a bounded byte queue\<close>

definition console_len :: "console_ring \<Rightarrow> nat" where
  "console_len r = unat (con_tail r - con_head r)"

definition console_contents :: "console_ring \<Rightarrow> u8 list" where
  "console_contents r = circ CONSOLE_RING_CAP (con_buf r) (con_head r) (console_len r)"

definition console_wf :: "console_ring \<Rightarrow> bool" where
  "console_wf r \<longleftrightarrow> length (con_buf r) = CONSOLE_RING_CAP \<and> console_len r \<le> CONSOLE_RING_CAP"

lemma console_cap_dvd [simp]: "CONSOLE_RING_CAP dvd 2 ^ 32"
  by (simp add: CONSOLE_RING_CAP_def)

lemma console_write_loop_spec:
  assumes "length buf = CONSOLE_RING_CAP" "unat (t - h) \<le> CONSOLE_RING_CAP"
    and "console_write_loop h bs t buf w = (t', buf', w')"
  shows "\<exists>k. k = min (length bs) (CONSOLE_RING_CAP - unat (t - h)) \<and> w' = w + k
    \<and> length buf' = CONSOLE_RING_CAP \<and> unat (t' - h) = unat (t - h) + k
    \<and> circ CONSOLE_RING_CAP buf' h (unat (t' - h)) = circ CONSOLE_RING_CAP buf h (unat (t - h)) @ take k bs"
  using assms
proof (induction h bs t buf w rule: console_write_loop.induct)
  case (2 h b bs t buf w)
  let ?n = "unat (t - h)" and ?C = CONSOLE_RING_CAP
  show ?case
  proof (cases "of_nat ?C \<le> t - h")
    case True
    then have "?n = ?C" using "2.prems"(2) by (simp add: word_le_nat_alt CONSOLE_RING_CAP_def)
    with True "2.prems" show ?thesis by auto
  next
    case False
    then have lt: "?n < ?C" by (simp add: word_le_nat_alt CONSOLE_RING_CAP_def)
    let ?buf = "buf[unat t mod ?C := b]"
    have "unat ((t - h) + 1) = Suc ?n" by (rule unat_succ_small) (use lt in \<open>simp add: CONSOLE_RING_CAP_def\<close>)
    moreover have "t + 1 - h = (t - h) + 1" by simp
    ultimately have n1: "unat (t + 1 - h) = Suc ?n" by presburger
    have t: "h + of_nat ?n = t" by simp
    have c1: "circ ?C ?buf h (Suc ?n) = circ ?C buf h ?n @ [b]"
      using circ_snoc [OF console_cap_dvd lt "2.prems"(1), of h b] t by simp
    have run: "console_write_loop h bs (t + 1) ?buf (w + 1) = (t', buf', w')"
      using "2.prems"(3) False by simp
    have pre: "length ?buf = ?C" "unat (t + 1 - h) \<le> ?C" using "2.prems"(1) n1 lt by simp_all
    from "2.IH" [OF False pre run] obtain k where
      k: "k = min (length bs) (?C - Suc ?n)" "w' = w + 1 + k" "length buf' = ?C"
        "unat (t' - h) = Suc ?n + k"
        "circ ?C buf' h (unat (t' - h)) = circ ?C ?buf h (Suc ?n) @ take k bs" unfolding n1 by blast
    have "Suc k = min (length (b # bs)) (?C - ?n)" using k(1) lt by (simp add: min_def) linarith
    moreover have "take (Suc k) (b # bs) = b # take k bs" by simp
    ultimately show ?thesis using k(2-5) c1 by (intro exI [of _ "Suc k"] conjI) (simp_all only:, simp_all)
  qed
qed simp

lemma console_read_loop_spec:
  assumes "console_read_loop buf t m h = (bs, h')"
  shows "bs = take m (circ CONSOLE_RING_CAP buf h (unat (t - h)))
    \<and> unat (t - h') = unat (t - h) - m
    \<and> circ CONSOLE_RING_CAP buf h' (unat (t - h')) = drop m (circ CONSOLE_RING_CAP buf h (unat (t - h)))"
  using assms
proof (induction m arbitrary: h bs h')
  case (Suc m)
  show ?case
  proof (cases "h = t")
    case True
    with Suc.prems show ?thesis by simp
  next
    case False
    let ?n = "unat (t - h)"
    have pos: "0 < ?n" using False by (simp add: unat_gt_0)
    have "unat ((t - h) - 1) = ?n - 1" using False by (intro unat_minus_one) simp
    moreover have "t - (h + 1) = (t - h) - 1" by simp
    ultimately have n1: "unat (t - (h + 1)) = ?n - 1" by presburger
    obtain bs1 h1 where r: "console_read_loop buf t m (h + 1) = (bs1, h1)"
      by (cases "console_read_loop buf t m (h + 1)")
    have c: "circ CONSOLE_RING_CAP buf h ?n
        = buf ! (unat h mod CONSOLE_RING_CAP) # circ CONSOLE_RING_CAP buf (h + 1) (?n - 1)"
      by (rule circ_Cons [OF pos])
    have e: "bs = buf ! (unat h mod CONSOLE_RING_CAP) # bs1" "h' = h1" using Suc.prems False r by auto
    from Suc.IH [OF r] show ?thesis unfolding n1 e c using pos by auto
  qed
qed simp

lemma console_write_spec:
  assumes "console_wf r" "console_write bs r = (n, r')"
  shows "console_wf r' \<and> n = min (length bs) (CONSOLE_RING_CAP - console_len r)
    \<and> console_contents r' = console_contents r @ take n bs"
proof -
  obtain t buf w where l: "console_write_loop (con_head r) bs (con_tail r) (con_buf r) 0 = (t, buf, w)"
    by (cases "console_write_loop (con_head r) bs (con_tail r) (con_buf r) 0") auto
  then have "n = w" "r' = r\<lparr>con_tail := t, con_buf := buf\<rparr>" using assms(2) by (auto simp: console_write_def)
  with console_write_loop_spec [OF _ _ l] assms(1) show ?thesis
    by (auto simp: console_wf_def console_len_def console_contents_def)
qed

lemma console_read_spec:
  assumes "console_wf r" "console_read m r = (bs, r')"
  shows "console_wf r' \<and> bs = take m (console_contents r) \<and> console_contents r' = drop m (console_contents r)"
proof -
  obtain bs1 h where l: "console_read_loop (con_buf r) (con_tail r) m (con_head r) = (bs1, h)"
    by (cases "console_read_loop (con_buf r) (con_tail r) m (con_head r)")
  then have "bs = bs1" "r' = r\<lparr>con_head := h\<rparr>" using assms(2) by (auto simp: console_read_def)
  with console_read_loop_spec [OF l] assms(1) show ?thesis
    by (auto simp: console_wf_def console_len_def console_contents_def)
qed

text \<open>Writing and reading single bytes.\<close>

definition console_put :: "u8 \<Rightarrow> console_ring \<Rightarrow> bool \<times> console_ring" where
  "console_put b r = (case console_write [b] r of (n, r') \<Rightarrow> (n = 1, r'))"

definition console_get :: "console_ring \<Rightarrow> u8 option \<times> console_ring" where
  "console_get r = (case console_read 1 r of (bs, r') \<Rightarrow> (case bs of [] \<Rightarrow> None | b # _ \<Rightarrow> Some b, r'))"

interpretation console_fifo: bounded_fifo console_wf console_contents CONSOLE_RING_CAP console_put console_get
proof
  fix r b r' x and y :: u8 and ys
  assume wf: "console_wf r"
  have len: "length (console_contents r) = console_len r" by (simp add: console_contents_def)
  then show "length (console_contents r) \<le> CONSOLE_RING_CAP" using wf by (simp add: console_wf_def)
  { assume "length (console_contents r) < CONSOLE_RING_CAP" "console_put y r = (b, r')"
    with console_write_spec [OF wf, of "[y]"] len
    show "b \<and> console_wf r' \<and> console_contents r' = console_contents r @ [y]"
      by (cases "console_write [y] r") (auto simp: console_put_def) }
  { assume full: "CONSOLE_RING_CAP \<le> length (console_contents r)" and "console_put y r = (b, r')"
    then have "of_nat CONSOLE_RING_CAP \<le> con_tail r - con_head r"
      using len by (simp add: console_len_def CONSOLE_RING_CAP_def word_le_nat_alt)
    with \<open>console_put y r = (b, r')\<close> show "\<not> b \<and> r' = r" by (auto simp: console_put_def console_write_def) }
  { assume "console_contents r = []" "console_get r = (x, r')"
    moreover have "con_head r = con_tail r" using calculation(1) len by (simp add: console_len_def unat_eq_0)
    ultimately show "x = None \<and> r' = r" by (auto simp: console_get_def console_read_def) }
  { assume "console_contents r = y # ys" "console_get r = (x, r')"
    with console_read_spec [OF wf, of 1]
    show "x = Some y \<and> console_wf r' \<and> console_contents r' = ys"
      by (cases "console_read 1 r") (auto simp: console_get_def) }
qed

end
