(* ===== verification/Smp_Core.thy ===== *)
theory Smp_Core
  imports Akuma_Prelude "HOL-Library.Multiset"
begin

text \<open>
  One core's coordination logic, \<open>crates/akuma-smp/src/state_machine.rs\<close>: the debt-based memory
  reclaim protocol and the heartbeat observer. \<open>step\<close> maps an event to a new state and the
  commands it emits, in order. Arithmetic on \<open>u64\<close> wraps (the release profile keeps the
  default of unchecked arithmetic). Indexing \<open>debts\<close> beyond \<open>MAX_CORES\<close> panics; the model
  returns \<open>None\<close> there.
\<close>

section \<open>Data\<close>

definition MAX_CORES :: nat where
  "MAX_CORES = 8"

definition MAX_DEBT_RANGES :: nat where
  "MAX_DEBT_RANGES = 4"

definition DEAD_AFTER_STALE :: u32 where
  "DEAD_AFTER_STALE = 3"

record range =
  rbase :: u64
  rlen :: u64

datatype event =
    Tick
  | Pressure u32
  | Repaid u32 range
  | Borrowed u32 range
  | Consumed u64
  | PeerHeartbeat u32 u64

datatype command =
    SendPressure u32
  | Repay u32 range
  | Accept u32 range
  | PeerDown u32
  | PeerUp u32

record creditor_debt =
  ranges :: "range list"
  debt_count :: nat

definition CreditorDebt_new :: creditor_debt where
  "CreditorDebt_new = \<lparr>ranges = replicate MAX_DEBT_RANGES \<lparr>rbase = 0, rlen = 0\<rparr>, debt_count = 0\<rparr>"

record peer_liveness =
  last_hb :: u64
  stale :: u32
  declared_dead :: bool

definition PeerLiveness_new :: peer_liveness where
  "PeerLiveness_new = \<lparr>last_hb = 0, stale = 0, declared_dead = False\<rparr>"

record core_state_machine =
  core_id :: u32
  num_cores :: nat
  core_free :: u64
  low_watermark :: u64
  debts :: "creditor_debt list"
  signaled :: bool
  peers :: "peer_liveness list"

definition CoreStateMachine_new :: "u32 \<Rightarrow> nat \<Rightarrow> u64 \<Rightarrow> u64 \<Rightarrow> core_state_machine" where
  "CoreStateMachine_new cid n free wm =
     \<lparr>core_id = cid, num_cores = n, core_free = free, low_watermark = wm,
      debts = replicate MAX_CORES CreditorDebt_new, signaled = False,
      peers = replicate MAX_CORES PeerLiveness_new\<rparr>"

definition peer_dead :: "core_state_machine \<Rightarrow> u32 \<Rightarrow> bool" where
  "peer_dead s core \<longleftrightarrow> unat core < length (peers s) \<and> declared_dead (peers s ! unat core)"

definition debt_range_count :: "core_state_machine \<Rightarrow> nat" where
  "debt_range_count s = sum_list (map debt_count (debts s))"

section \<open>Operations\<close>

definition record_debt :: "u32 \<Rightarrow> range \<Rightarrow> core_state_machine \<Rightarrow> bool \<times> core_state_machine" where
  "record_debt creditor r s =
     (if unat creditor < length (debts s)
      then let d = debts s ! unat creditor in
        if MAX_DEBT_RANGES \<le> debt_count d then (False, s)
        else (True, s\<lparr>debts := (debts s)[unat creditor :=
               d\<lparr>ranges := (ranges d)[debt_count d := r], debt_count := debt_count d + 1\<rparr>]\<rparr>)
      else (False, s))"

text \<open>The inner loop of the pressure handler: index \<open>i\<close> runs over the recorded ranges, those
  that cannot be afforded are compacted in place to position \<open>kept\<close>.\<close>

fun shed_ranges :: "nat \<Rightarrow> nat list \<Rightarrow> range list \<Rightarrow> nat \<Rightarrow> u64 \<Rightarrow> range list \<times> nat \<times> u64 \<times> command list" where
  "shed_ranges c [] rs kept free = (rs, kept, free, [])"
| "shed_ranges c (i # is) rs kept free =
     (let r = rs ! i in
      if rlen r \<le> free
      then case shed_ranges c is rs kept (free - rlen r) of
             (rs', kept', free', cmds) \<Rightarrow> (rs', kept', free', Repay (of_nat c) r # cmds)
      else shed_ranges c is (rs[kept := r]) (kept + 1) free)"

fun shed_debts :: "nat list \<Rightarrow> core_state_machine \<Rightarrow> (core_state_machine \<times> command list) option" where
  "shed_debts [] s = Some (s, [])"
| "shed_debts (c # cs) s =
     (if c < length (debts s)
      then let d = debts s ! c in
        case shed_ranges c [0..<debt_count d] (ranges d) 0 (core_free s) of
          (rs, kept, free, cmds) \<Rightarrow>
            (case shed_debts cs (s\<lparr>core_free := free,
                 debts := (debts s)[c := \<lparr>ranges = rs, debt_count = kept\<rparr>]\<rparr>) of
               None \<Rightarrow> None
             | Some (s', cmds') \<Rightarrow> Some (s', cmds @ cmds'))
      else None)"

definition observe_heartbeat :: "u32 \<Rightarrow> u64 \<Rightarrow> core_state_machine \<Rightarrow> core_state_machine \<times> command list" where
  "observe_heartbeat core v s =
     (if unat core < length (peers s)
      then let p = peers s ! unat core in
        if last_hb p < v
        then (s\<lparr>peers := (peers s)[unat core := \<lparr>last_hb = v, stale = 0, declared_dead = False\<rparr>]\<rparr>,
              if declared_dead p then [PeerUp core] else [])
        else let st = sat_add (stale p) 1; down = DEAD_AFTER_STALE \<le> st \<and> \<not> declared_dead p in
          (s\<lparr>peers := (peers s)[unat core := p\<lparr>stale := st, declared_dead := declared_dead p \<or> down\<rparr>]\<rparr>,
           if down then [PeerDown core] else [])
      else (s, []))"

definition core_step :: "event \<Rightarrow> core_state_machine \<Rightarrow> (core_state_machine \<times> command list) option" where
  "core_step ev s =
     (case ev of
        Tick \<Rightarrow>
          Some (if core_free s < low_watermark s
                then if signaled s then (s, [])
                     else (s\<lparr>signaled := True\<rparr>,
                           map (\<lambda>peer. SendPressure (of_nat peer))
                             (filter (\<lambda>peer. of_nat peer \<noteq> core_id s) [0..<num_cores s]))
                else (s\<lparr>signaled := False\<rparr>, []))
      | Pressure _ \<Rightarrow> shed_debts [0..<num_cores s] s
      | Repaid sender r \<Rightarrow> Some (s\<lparr>core_free := core_free s + rlen r\<rparr>, [Accept sender r])
      | Borrowed creditor r \<Rightarrow>
          (case record_debt creditor r s of (_, s1) \<Rightarrow>
             Some (s1\<lparr>core_free := core_free s1 + rlen r\<rparr>, []))
      | Consumed pages \<Rightarrow> Some (s\<lparr>core_free := sat_sub (core_free s) pages\<rparr>, [])
      | PeerHeartbeat core v \<Rightarrow> Some (observe_heartbeat core v s))"

section \<open>Well-formed states\<close>

definition debt_wf :: "creditor_debt \<Rightarrow> bool" where
  "debt_wf d \<longleftrightarrow> length (ranges d) = MAX_DEBT_RANGES \<and> debt_count d \<le> MAX_DEBT_RANGES"

definition core_wf :: "core_state_machine \<Rightarrow> bool" where
  "core_wf s \<longleftrightarrow> num_cores s \<le> MAX_CORES \<and> length (debts s) = MAX_CORES
     \<and> length (peers s) = MAX_CORES \<and> (\<forall>d \<in> set (debts s). debt_wf d)"

text \<open>What a core owes creditor \<open>c\<close>, and what a list of commands repays to it.\<close>

definition owed :: "core_state_machine \<Rightarrow> nat \<Rightarrow> range list" where
  "owed s c = take (debt_count (debts s ! c)) (ranges (debts s ! c))"

fun repaid_to :: "nat \<Rightarrow> command list \<Rightarrow> range list" where
  "repaid_to c [] = []"
| "repaid_to c (Repay k r # cmds) = (if k = of_nat c then r # repaid_to c cmds else repaid_to c cmds)"
| "repaid_to c (_ # cmds) = repaid_to c cmds"

fun repay_total :: "command list \<Rightarrow> nat" where
  "repay_total [] = 0"
| "repay_total (Repay k r # cmds) = unat (rlen r) + repay_total cmds"
| "repay_total (_ # cmds) = repay_total cmds"

lemma repaid_to_append [simp]: "repaid_to c (xs @ ys) = repaid_to c xs @ repaid_to c ys"
  by (induction c xs rule: repaid_to.induct) auto

lemma repay_total_append [simp]: "repay_total (xs @ ys) = repay_total xs + repay_total ys"
  by (induction xs rule: repay_total.induct) auto

section \<open>The in-place compaction is a greedy partition\<close>

fun greedy :: "u64 \<Rightarrow> range list \<Rightarrow> range list \<times> range list \<times> u64" where
  "greedy free [] = ([], [], free)"
| "greedy free (r # rs) =
     (if rlen r \<le> free
      then case greedy (free - rlen r) rs of (paid, kept, free') \<Rightarrow> (r # paid, kept, free')
      else case greedy free rs of (paid, kept, free') \<Rightarrow> (paid, r # kept, free'))"

lemma shed_ranges_greedy:
  assumes "kept \<le> i" "i \<le> n" "n \<le> length rs"
    and "greedy free (take (n - i) (drop i rs)) = (paid, left, free1)"
    and "shed_ranges c [i..<n] rs kept free = (rs', kept', free', cmds)"
  shows "take kept' rs' = take kept rs @ left \<and> length rs' = length rs \<and> kept' = kept + length left
    \<and> free' = free1 \<and> cmds = map (Repay (of_nat c)) paid"
  using assms
proof (induction "n - i" arbitrary: i rs kept free paid left free1 rs' kept' free' cmds)
  case 0
  then show ?case by simp
next
  case (Suc k)
  then have i: "i < n" by simp
  let ?r = "rs ! i"
  have up: "[i..<n] = i # [Suc i..<n]" using i by (rule upt_conv_Cons)
  have split: "take (n - i) (drop i rs) = ?r # take (n - Suc i) (drop (Suc i) rs)"
    using i Suc.prems(3) by (simp add: Cons_nth_drop_Suc [symmetric] take_Cons')
  have k: "k = n - Suc i" using Suc.hyps(2) by simp
  show ?case
  proof (cases "rlen ?r \<le> free")
    case True
    obtain p2 l2 f2 where g: "greedy (free - rlen ?r) (take (n - Suc i) (drop (Suc i) rs)) = (p2, l2, f2)"
      by (cases "greedy (free - rlen ?r) (take (n - Suc i) (drop (Suc i) rs))") auto
    obtain rs2 k2 fr2 c2 where s: "shed_ranges c [Suc i..<n] rs kept (free - rlen ?r) = (rs2, k2, fr2, c2)"
      by (cases "shed_ranges c [Suc i..<n] rs kept (free - rlen ?r)") auto
    have "kept \<le> Suc i" "Suc i \<le> n" using Suc.prems(1) i by simp_all
    from Suc.hyps(1) [OF k this Suc.prems(3) g s] True g s up split Suc.prems(4,5)
    show ?thesis by (auto simp: Let_def)
  next
    case False
    let ?rs = "rs[kept := ?r]"
    obtain p2 l2 f2 where g: "greedy free (take (n - Suc i) (drop (Suc i) rs)) = (p2, l2, f2)"
      by (cases "greedy free (take (n - Suc i) (drop (Suc i) rs))") auto
    obtain rs2 k2 fr2 c2 where s: "shed_ranges c [Suc i..<n] ?rs (Suc kept) free = (rs2, k2, fr2, c2)"
      by (cases "shed_ranges c [Suc i..<n] ?rs (Suc kept) free") auto
    have w: "Suc kept \<le> Suc i" "Suc i \<le> n" "n \<le> length ?rs" using Suc.prems i by simp_all
    have "drop (Suc i) ?rs = drop (Suc i) rs" using Suc.prems(1) by simp
    with g have g': "greedy free (take (n - Suc i) (drop (Suc i) ?rs)) = (p2, l2, f2)" by simp
    have "take (Suc kept) ?rs = take kept rs @ [?r]"
      using Suc.prems(1,3) i by (simp add: take_Suc_conv_app_nth)
    with Suc.hyps(1) [OF k w g' s] False g s up split Suc.prems(4,5)
    show ?thesis by (auto simp: Let_def)
  qed
qed

lemma greedy_spec:
  assumes "greedy free rs = (paid, kept, free')"
  shows "mset rs = mset paid + mset kept \<and> free' \<le> free
    \<and> unat free = unat free' + sum_list (map (\<lambda>r. unat (rlen r)) paid)
    \<and> (\<forall>r \<in> set kept. free' < rlen r)"
  using assms
proof (induction rs arbitrary: free paid kept free')
  case (Cons r rs)
  show ?case
  proof (cases "rlen r \<le> free")
    case True
    obtain p k f where g: "greedy (free - rlen r) rs = (p, k, f)"
      by (cases "greedy (free - rlen r) rs") auto
    have u: "unat (free - rlen r) = unat free - unat (rlen r)" "unat (rlen r) \<le> unat free"
      using True by (simp_all add: word_le_nat_alt unat_sub)
    have "paid = r # p" "kept = k" "free' = f" using Cons.prems True g by auto
    with Cons.IH [OF g] u show ?thesis by (auto simp: word_le_nat_alt)
  next
    case False
    obtain p k f where g: "greedy free rs = (p, k, f)" by (cases "greedy free rs") auto
    have "paid = p" "kept = r # k" "free' = f" using Cons.prems False g by auto
    with Cons.IH [OF g] False show ?thesis by auto
  qed
qed auto

section \<open>Repayment\<close>

lemma repaid_to_map: "c < 2 ^ 32 \<Longrightarrow> k < 2 ^ 32 \<Longrightarrow>
    repaid_to c (map (Repay (of_nat k)) rs) = (if c = k then rs else [])"
proof -
  assume "c < 2 ^ 32" "k < 2 ^ 32"
  then have "(of_nat k :: u32) = of_nat c \<longleftrightarrow> c = k"
    by (auto dest!: arg_cong [of _ _ unat] simp: unat_of_nat)
  then show ?thesis by (induction rs) auto
qed

lemma repay_total_map: "repay_total (map (Repay k) rs) = sum_list (map (\<lambda>r. unat (rlen r)) rs)"
  by (induction rs) auto

text \<open>One creditor's turn in the pressure handler.\<close>

lemma shed_creditor:
  assumes wf: "debt_wf d"
    and sh: "shed_ranges c [0..<debt_count d] (ranges d) 0 free = (rs, kept, free', cmds)"
  obtains paid where "cmds = map (Repay (of_nat c)) paid"
    and "mset (take (debt_count d) (ranges d)) = mset paid + mset (take kept rs)"
    and "unat free = unat free' + sum_list (map (\<lambda>r. unat (rlen r)) paid)" and "free' \<le> free"
    and "\<forall>r \<in> set (take kept rs). free' < rlen r" and "debt_wf \<lparr>ranges = rs, debt_count = kept\<rparr>"
proof -
  obtain paid left free1 where g: "greedy free (take (debt_count d) (ranges d)) = (paid, left, free1)"
    by (cases "greedy free (take (debt_count d) (ranges d))") auto
  have sg: "take kept rs = left \<and> length rs = length (ranges d) \<and> kept = length left
      \<and> free' = free1 \<and> cmds = map (Repay (of_nat c)) paid"
    using shed_ranges_greedy [of 0 0 "debt_count d" "ranges d" free paid left free1 c] g sh wf
    by (auto simp: debt_wf_def)
  note gs = greedy_spec [OF g]
  have "size (mset (take (debt_count d) (ranges d))) = size (mset paid + mset left)" using gs by simp
  then have "length left \<le> debt_count d" using wf by (simp add: debt_wf_def)
  then have "debt_wf \<lparr>ranges = rs, debt_count = kept\<rparr>" using wf sg by (simp add: debt_wf_def)
  with sg gs show thesis by (intro that [of paid]) auto
qed

lemma shed_debts_spec:
  assumes "core_wf s" "distinct cs" "set cs \<subseteq> {..<MAX_CORES}"
  shows "\<exists>s' cmds. shed_debts cs s = Some (s', cmds) \<and> core_wf s' \<and> core_free s' \<le> core_free s
    \<and> unat (core_free s) = unat (core_free s') + repay_total cmds
    \<and> (\<forall>c < MAX_CORES. if c \<in> set cs
          then mset (owed s c) = mset (repaid_to c cmds) + mset (owed s' c)
               \<and> (\<forall>r \<in> set (owed s' c). core_free s' < rlen r)
          else debts s' ! c = debts s ! c \<and> repaid_to c cmds = [])
    \<and> (\<forall>cmd \<in> set cmds. \<exists>c r. cmd = Repay (of_nat c) r \<and> c \<in> set cs)
    \<and> s\<lparr>core_free := core_free s', debts := debts s'\<rparr> = s'"
  using assms
proof (induction cs arbitrary: s)
  case Nil
  then show ?case by simp
next
  case (Cons c cs)
  let ?d = "debts s ! c"
  have c: "c < MAX_CORES" "c < length (debts s)" using Cons.prems by (auto simp: core_wf_def)
  have wfd: "debt_wf ?d" using Cons.prems(1) c by (auto simp: core_wf_def)
  obtain rs kept free1 cmds1 where
    sh: "shed_ranges c [0..<debt_count ?d] (ranges ?d) 0 (core_free s) = (rs, kept, free1, cmds1)"
    by (cases "shed_ranges c [0..<debt_count ?d] (ranges ?d) 0 (core_free s)") auto
  obtain paid where paid: "cmds1 = map (Repay (of_nat c)) paid"
    "mset (take (debt_count ?d) (ranges ?d)) = mset paid + mset (take kept rs)"
    "unat (core_free s) = unat free1 + sum_list (map (\<lambda>r. unat (rlen r)) paid)" "free1 \<le> core_free s"
    "\<forall>r \<in> set (take kept rs). free1 < rlen r" "debt_wf \<lparr>ranges = rs, debt_count = kept\<rparr>"
    by (rule shed_creditor [OF wfd sh])
  let ?s1 = "s\<lparr>core_free := free1, debts := (debts s)[c := \<lparr>ranges = rs, debt_count = kept\<rparr>]\<rparr>"
  have wf1: "core_wf ?s1" using Cons.prems(1) paid(6) by (auto simp: core_wf_def dest!: set_update_subset_insert [THEN subsetD])
  from Cons.IH [OF wf1] Cons.prems obtain s' cmds where
    r: "shed_debts cs ?s1 = Some (s', cmds)" "core_wf s'" "core_free s' \<le> core_free ?s1"
      "unat (core_free ?s1) = unat (core_free s') + repay_total cmds"
      "\<forall>k < MAX_CORES. if k \<in> set cs
          then mset (owed ?s1 k) = mset (repaid_to k cmds) + mset (owed s' k)
               \<and> (\<forall>r \<in> set (owed s' k). core_free s' < rlen r)
          else debts s' ! k = debts ?s1 ! k \<and> repaid_to k cmds = []"
      "\<forall>cmd \<in> set cmds. \<exists>c r. cmd = Repay (of_nat c) r \<and> c \<in> set cs"
      "?s1\<lparr>core_free := core_free s', debts := debts s'\<rparr> = s'"
    by auto
  have res: "shed_debts (c # cs) s = Some (s', cmds1 @ cmds)" using c sh r(1) by (simp add: Let_def)
  have small: "k < 2 ^ 32" if "k < MAX_CORES" for k using that by (simp add: MAX_CORES_def)
  have per: "if k \<in> set (c # cs)
          then mset (owed s k) = mset (repaid_to k (cmds1 @ cmds)) + mset (owed s' k)
               \<and> (\<forall>r \<in> set (owed s' k). core_free s' < rlen r)
          else debts s' ! k = debts s ! k \<and> repaid_to k (cmds1 @ cmds) = []"
    if k: "k < MAX_CORES" for k
  proof (cases "k = c")
    case True
    have "c \<notin> set cs" using Cons.prems(2) by simp
    with r(5) c have d: "debts s' ! c = \<lparr>ranges = rs, debt_count = kept\<rparr>" "repaid_to c cmds = []" by auto
    moreover have "core_free s' < rlen x" if "x \<in> set (take kept rs)" for x
      using paid(5) that r(3) by (auto intro: le_less_trans)
    ultimately show ?thesis using True paid(1,2) small [OF k] by (simp add: owed_def repaid_to_map)
  next
    case False
    then have "owed ?s1 k = owed s k" by (simp add: owed_def)
    moreover have "repaid_to k (cmds1 @ cmds) = repaid_to k cmds"
      using False paid(1) small [OF k] small [OF c(1)] by (simp add: repaid_to_map)
    moreover note r(5) [rule_format, OF k]
    ultimately show ?thesis using False by (simp split: if_splits)
  qed
  have "unat (core_free s) = unat (core_free s') + repay_total (cmds1 @ cmds)"
    using paid(1,3) r(4) by (simp add: repay_total_map)
  moreover have "core_free s' \<le> core_free s" using r(3) paid(4) by (auto intro: order_trans)
  moreover have "s\<lparr>core_free := core_free s', debts := debts s'\<rparr> = s'" using r(7) by simp
  moreover have "\<forall>cmd \<in> set (cmds1 @ cmds). \<exists>k r. cmd = Repay (of_nat k) r \<and> k \<in> set (c # cs)"
    using r(6) paid(1) by fastforce
  moreover note res r(2)
  moreover have "\<forall>k < MAX_CORES. if k \<in> set (c # cs)
          then mset (owed s k) = mset (repaid_to k (cmds1 @ cmds)) + mset (owed s' k)
               \<and> (\<forall>r \<in> set (owed s' k). core_free s' < rlen r)
          else debts s' ! k = debts s ! k \<and> repaid_to k (cmds1 @ cmds) = []"
    using per by blast
  ultimately show ?case by blast
qed

section \<open>Every event keeps the state well formed\<close>

lemma core_wf_new: "n \<le> MAX_CORES \<Longrightarrow> core_wf (CoreStateMachine_new cid n free wm)"
  by (auto simp: core_wf_def CoreStateMachine_new_def debt_wf_def CreditorDebt_new_def)

lemma set_update_ball: "\<forall>x \<in> set xs. P x \<Longrightarrow> P y \<Longrightarrow> \<forall>x \<in> set (xs[i := y]). P x"
  by (auto dest!: set_update_subset_insert [THEN subsetD])

lemma record_debt_wf:
  assumes wf: "core_wf s" and r: "record_debt c r s = (b, s')"
  shows "core_wf s' \<and> core_free s' = core_free s \<and> peers s' = peers s \<and> num_cores s' = num_cores s
    \<and> (b \<longrightarrow> owed s' (unat c) = owed s (unat c) @ [r]) \<and> (\<not> b \<longrightarrow> s' = s)"
proof (cases b)
  case False
  with r wf show ?thesis by (auto simp: record_debt_def Let_def split: if_splits)
next
  case True
  let ?d = "debts s ! unat c"
  let ?d' = "?d\<lparr>ranges := (ranges ?d)[debt_count ?d := r], debt_count := debt_count ?d + 1\<rparr>"
  have c: "unat c < length (debts s)" "debt_count ?d < MAX_DEBT_RANGES"
    and s': "s' = s\<lparr>debts := (debts s)[unat c := ?d']\<rparr>"
    using r True by (auto simp: record_debt_def Let_def not_le split: if_splits)
  have wfd: "debt_wf ?d" using wf c by (auto simp: core_wf_def)
  then have "debt_wf ?d'" using c by (simp add: debt_wf_def)
  moreover have "\<forall>d \<in> set (debts s). debt_wf d" using wf by (simp add: core_wf_def)
  ultimately have "\<forall>d \<in> set (debts s'). debt_wf d" unfolding s' using set_update_ball by simp
  then have "core_wf s'" using wf by (simp add: s' core_wf_def)
  moreover have "owed s' (unat c) = owed s (unat c) @ [r]"
    using wfd c by (simp add: owed_def s' debt_wf_def take_Suc_conv_app_nth)
  ultimately show ?thesis using True by (simp add: s')
qed

lemma shed_all_spec:
  assumes "core_wf s"
  shows "\<exists>s' cmds. shed_debts [0..<num_cores s] s = Some (s', cmds) \<and> core_wf s'
    \<and> core_free s' \<le> core_free s
    \<and> unat (core_free s) = unat (core_free s') + repay_total cmds
    \<and> (\<forall>c < MAX_CORES. if c < num_cores s
          then mset (owed s c) = mset (repaid_to c cmds) + mset (owed s' c)
               \<and> (\<forall>r \<in> set (owed s' c). core_free s' < rlen r)
          else debts s' ! c = debts s ! c \<and> repaid_to c cmds = [])
    \<and> (\<forall>cmd \<in> set cmds. \<exists>c r. cmd = Repay (of_nat c) r \<and> c < num_cores s)
    \<and> s\<lparr>core_free := core_free s', debts := debts s'\<rparr> = s'"
proof -
  have "set [0..<num_cores s] \<subseteq> {..<MAX_CORES}" using assms by (auto simp: core_wf_def)
  from shed_debts_spec [OF assms distinct_upt this] show ?thesis by simp
qed

lemma observe_heartbeat_frame:
  assumes "observe_heartbeat c v s = (s', cmds)"
  shows "debts s' = debts s" "core_free s' = core_free s" "num_cores s' = num_cores s"
    "length (peers s') = length (peers s)" "cmds = [] \<or> cmds = [PeerUp c] \<or> cmds = [PeerDown c]"
  using assms by (auto simp: observe_heartbeat_def Let_def split: if_splits)

lemma core_step_total:
  assumes "core_wf s"
  shows "\<exists>s' cmds. core_step ev s = Some (s', cmds) \<and> core_wf s' \<and> num_cores s' = num_cores s"
proof (cases ev)
  case (Pressure f)
  from shed_all_spec [OF assms] obtain s' cmds where
    "shed_debts [0..<num_cores s] s = Some (s', cmds)" "core_wf s'"
    and s': "s\<lparr>core_free := core_free s', debts := debts s'\<rparr> = s'" by blast
  moreover have "num_cores s' = num_cores s" using arg_cong [OF s', of num_cores] by simp
  ultimately show ?thesis using Pressure by (simp add: core_step_def)
next
  case (Borrowed c r)
  obtain b s1 where r: "record_debt c r s = (b, s1)" by (cases "record_debt c r s")
  from record_debt_wf [OF assms r] Borrowed r show ?thesis by (auto simp: core_step_def core_wf_def)
next
  case (PeerHeartbeat c v)
  obtain s' cmds where o: "observe_heartbeat c v s = (s', cmds)" by (cases "observe_heartbeat c v s")
  from observe_heartbeat_frame [OF o] assms PeerHeartbeat o show ?thesis
    by (simp add: core_step_def core_wf_def)
qed (use assms in \<open>auto simp: core_step_def core_wf_def\<close>)

section \<open>Sequences of events\<close>

fun core_run :: "event list \<Rightarrow> core_state_machine \<Rightarrow> (core_state_machine \<times> command list) option" where
  "core_run [] s = Some (s, [])"
| "core_run (ev # evs) s =
     (case core_step ev s of
        None \<Rightarrow> None
      | Some (s1, cmds) \<Rightarrow>
          (case core_run evs s1 of None \<Rightarrow> None | Some (s2, cmds') \<Rightarrow> Some (s2, cmds @ cmds')))"

fun beats :: "u32 \<Rightarrow> event list \<Rightarrow> u64 list" where
  "beats c [] = []"
| "beats c (PeerHeartbeat k v # evs) = (if k = c then v # beats c evs else beats c evs)"
| "beats c (_ # evs) = beats c evs"

text \<open>The heartbeat observer of one peer alone.\<close>

definition observe :: "u64 \<Rightarrow> peer_liveness \<Rightarrow> peer_liveness" where
  "observe v p =
     (if last_hb p < v then \<lparr>last_hb = v, stale = 0, declared_dead = False\<rparr>
      else p\<lparr>stale := sat_add (stale p) 1,
             declared_dead := declared_dead p \<or> DEAD_AFTER_STALE \<le> sat_add (stale p) 1\<rparr>)"

lemma peers_core_step:
  assumes "core_wf s" "core_step ev s = Some (s', cmds)" "unat c < MAX_CORES"
  shows "peers s' ! unat c = fold observe (beats c [ev]) (peers s ! unat c)"
proof (cases ev)
  case (Pressure f)
  from shed_all_spec [OF assms(1)] assms(2) Pressure have
    e: "s\<lparr>core_free := core_free s', debts := debts s'\<rparr> = s'" by (auto simp: core_step_def)
  have "peers s' = peers s" using arg_cong [OF e, of peers] by simp
  with Pressure show ?thesis by simp
next
  case (Borrowed k r)
  obtain b s1 where r: "record_debt k r s = (b, s1)" by (cases "record_debt k r s")
  with record_debt_wf [OF assms(1) r] assms(2) Borrowed show ?thesis by (auto simp: core_step_def)
next
  case (PeerHeartbeat k v)
  have "unat c = unat k \<longleftrightarrow> c = k" by (simp add: word_unat_eq_iff)
  moreover have "length (peers s) = MAX_CORES" using assms(1) by (simp add: core_wf_def)
  ultimately show ?thesis using assms(2,3) PeerHeartbeat
    by (cases "c = k") (auto simp: core_step_def observe_heartbeat_def observe_def Let_def
        split: if_splits)
qed (use assms in \<open>auto simp: core_step_def split: if_splits\<close>)

lemma core_run_Some:
  assumes "core_wf s"
  shows "\<exists>s' cmds. core_run evs s = Some (s', cmds) \<and> core_wf s' \<and> num_cores s' = num_cores s
    \<and> (\<forall>c. unat c < MAX_CORES \<longrightarrow> peers s' ! unat c = fold observe (beats c evs) (peers s ! unat c))"
  using assms
proof (induction evs arbitrary: s)
  case (Cons ev evs)
  from core_step_total [OF Cons.prems] obtain s1 cmds where
    st: "core_step ev s = Some (s1, cmds)" "core_wf s1" "num_cores s1 = num_cores s" by blast
  from Cons.IH [OF st(2)] obtain s2 cmds' where
    r: "core_run evs s1 = Some (s2, cmds')" "core_wf s2" "num_cores s2 = num_cores s1"
      "\<forall>c. unat c < MAX_CORES \<longrightarrow> peers s2 ! unat c = fold observe (beats c evs) (peers s1 ! unat c)" by blast
  have "beats c (ev # evs) = beats c [ev] @ beats c evs" for c by (cases ev) auto
  with peers_core_step [OF Cons.prems st(1)] r st show ?case by simp
qed simp

section \<open>Detection is exact\<close>

text \<open>The last \<open>k\<close> observations do not exceed the highest one before them.\<close>

definition quiet :: "nat \<Rightarrow> u64 list \<Rightarrow> bool" where
  "quiet k vs \<longleftrightarrow> k \<le> length vs
     \<and> (\<forall>v \<in> set (drop (length vs - k) vs). v \<le> Max (insert 0 (set (take (length vs - k) vs))))"

lemma quiet_0 [simp]: "quiet 0 vs"
  by (simp add: quiet_def)

lemma Max_insert_set_le:
  fixes vs :: "u64 list"
  assumes "\<forall>v \<in> set (drop n vs). v \<le> Max (insert 0 (set (take n vs)))"
  shows "Max (insert 0 (set vs)) = Max (insert 0 (set (take n vs)))"
proof (rule antisym)
  have "x \<le> Max (insert 0 (set (take n vs)))" if "x \<in> insert 0 (set vs)" for x
  proof -
    have "x = 0 \<or> x \<in> set (take n vs) \<or> x \<in> set (drop n vs)"
      using that by (metis Un_iff append_take_drop_id insertE set_append)
    with assms show ?thesis by auto
  qed
  then show "Max (insert 0 (set vs)) \<le> Max (insert 0 (set (take n vs)))" by simp
  show "Max (insert 0 (set (take n vs))) \<le> Max (insert 0 (set vs))"
    by (rule Max_mono) (auto dest: in_set_takeD)
qed

lemma quiet_snoc: "quiet (Suc k) (vs @ [v]) \<longleftrightarrow> quiet k vs \<and> v \<le> Max (insert 0 (set vs))"
proof (cases "k \<le> length vs")
  case True
  let ?n = "length vs - k"
  have "quiet (Suc k) (vs @ [v]) \<longleftrightarrow>
      (\<forall>x \<in> set (drop ?n vs). x \<le> Max (insert 0 (set (take ?n vs)))) \<and> v \<le> Max (insert 0 (set (take ?n vs)))"
    using True by (auto simp: quiet_def)
  also have "\<dots> \<longleftrightarrow> quiet k vs \<and> v \<le> Max (insert 0 (set vs))"
    using True Max_insert_set_le [of ?n vs] by (auto simp: quiet_def)
  finally show ?thesis .
qed (simp add: quiet_def)

lemma observe_quiet:
  assumes "p = fold observe vs PeerLiveness_new"
  shows "last_hb p = Max (insert 0 (set vs)) \<and> (declared_dead p \<longleftrightarrow> DEAD_AFTER_STALE \<le> stale p)
    \<and> (\<forall>k \<le> 3. k \<le> unat (stale p) \<longleftrightarrow> quiet k vs)"
  using assms
proof (induction vs arbitrary: p rule: rev_induct)
  case Nil
  have "quiet k [] \<longleftrightarrow> k = 0" for k by (simp add: quiet_def)
  with Nil show ?case by (auto simp: PeerLiveness_new_def DEAD_AFTER_STALE_def word_le_nat_alt)
next
  case (snoc v vs)
  let ?q = "fold observe vs PeerLiveness_new"
  have p: "p = observe v ?q" using snoc.prems by simp
  note IH = snoc.IH [OF refl]
  have "insert 0 (set (vs @ [v])) = insert v (insert 0 (set vs))" by auto
  moreover have "Max (insert v (insert 0 (set vs))) = max v (Max (insert 0 (set vs)))"
    by (rule Max_insert) simp_all
  ultimately have mx: "Max (insert 0 (set (vs @ [v]))) = max v (last_hb ?q)" using IH by presburger
  show ?case
  proof (cases "last_hb ?q < v")
    case True
    then have q: "p = \<lparr>last_hb = v, stale = 0, declared_dead = False\<rparr>" by (simp add: p observe_def)
    have nle: "\<not> v \<le> Max (insert 0 (set vs))" using True IH by (metis not_le)
    have "quiet k (vs @ [v]) \<longleftrightarrow> k = 0" for k
    proof (cases k)
      case (Suc i)
      with nle show ?thesis by (metis quiet_snoc nat.distinct(1))
    qed simp
    with True mx q show ?thesis by (auto simp: DEAD_AFTER_STALE_def word_le_nat_alt)
  next
    case False
    let ?st = "sat_add (stale ?q) 1"
    have q: "last_hb p = last_hb ?q" "stale p = ?st"
      "declared_dead p \<longleftrightarrow> declared_dead ?q \<or> DEAD_AFTER_STALE \<le> ?st"
      using False by (simp_all add: p observe_def)
    have st: "unat ?st = min (unat (stale ?q) + 1) (2 ^ 32 - 1)" by (simp add: unat_sat_add)
    have vle: "v \<le> Max (insert 0 (set vs))" using False IH by (metis not_le)
    have "k \<le> unat (stale p) \<longleftrightarrow> quiet k (vs @ [v])" if "k \<le> 3" for k
    proof (cases k)
      case (Suc i)
      then have "k \<le> unat (stale p) \<longleftrightarrow> i \<le> unat (stale ?q)" using that st q(2) by auto
      also have "\<dots> \<longleftrightarrow> quiet i vs" using IH that Suc by simp
      finally show ?thesis using Suc vle by (metis quiet_snoc)
    qed simp
    moreover have "declared_dead p \<longleftrightarrow> DEAD_AFTER_STALE \<le> stale p"
      using IH q st by (auto simp: DEAD_AFTER_STALE_def word_le_nat_alt)
    ultimately show ?thesis using False mx q by (auto simp: max_def)
  qed
qed

section \<open>Announcements\<close>

text \<open>What a listener believes about peer \<open>c\<close> after the commands; \<open>None\<close> marks a redundant
  announcement.\<close>

fun verdict :: "u32 \<Rightarrow> bool \<Rightarrow> command list \<Rightarrow> bool option" where
  "verdict c dead [] = Some dead"
| "verdict c dead (PeerDown k # cmds) =
     (if k \<noteq> c then verdict c dead cmds else if dead then None else verdict c True cmds)"
| "verdict c dead (PeerUp k # cmds) =
     (if k \<noteq> c then verdict c dead cmds else if dead then verdict c False cmds else None)"
| "verdict c dead (_ # cmds) = verdict c dead cmds"

lemma verdict_append:
  "verdict c dead (xs @ ys) = (case verdict c dead xs of None \<Rightarrow> None | Some d \<Rightarrow> verdict c d ys)"
  by (induction c dead xs rule: verdict.induct) auto

lemma verdict_irrelevant: "\<forall>cmd \<in> set cmds. (\<forall>k. cmd \<noteq> PeerDown k \<and> cmd \<noteq> PeerUp k) \<Longrightarrow>
    verdict c dead cmds = Some dead"
  by (induction c dead cmds rule: verdict.induct) auto

lemma verdict_core_step:
  assumes wf: "core_wf s" and st: "core_step ev s = Some (s', cmds)" and c: "unat c < MAX_CORES"
  shows "verdict c (peer_dead s c) cmds = Some (peer_dead s' c)"
proof -
  have "core_wf s'" using core_step_total [OF wf, of ev] st by auto
  then have pd: "peer_dead t c = declared_dead (peers t ! unat c)" if "t \<in> {s, s'}" for t
    using that wf c by (auto simp: peer_dead_def core_wf_def)
  note obs = peers_core_step [OF wf st c]
  show ?thesis
  proof (cases "\<exists>k v. ev = PeerHeartbeat k v")
    case False
    then have "beats c [ev] = []" by (cases ev) auto
    then have "peer_dead s' c = peer_dead s c" using obs pd by simp
    moreover have "\<forall>cmd \<in> set cmds. \<forall>k. cmd \<noteq> PeerDown k \<and> cmd \<noteq> PeerUp k"
      using st False shed_all_spec [OF wf]
      by (cases ev) (fastforce simp: core_step_def split: if_splits prod.splits)+
    ultimately show ?thesis by (simp add: verdict_irrelevant)
  next
    case True
    then obtain k v where ev: "ev = PeerHeartbeat k v" by blast
    with st have o: "observe_heartbeat k v s = (s', cmds)" by (simp add: core_step_def)
    show ?thesis
    proof (cases "k = c")
      case False
      with obs ev pd have "peer_dead s' c = peer_dead s c" by simp
      with observe_heartbeat_frame(5) [OF o] False show ?thesis by auto
    next
      case True
      have "unat c < length (peers s)" using wf c by (simp add: core_wf_def)
      with obs ev True pd o show ?thesis
        by (auto simp: observe_heartbeat_def observe_def Let_def split: if_splits)
    qed
  qed
qed

lemma verdict_core_run:
  assumes "core_wf s" "core_run evs s = Some (s', cmds)" "unat c < MAX_CORES"
  shows "verdict c (peer_dead s c) cmds = Some (peer_dead s' c)"
  using assms(1,2)
proof (induction evs arbitrary: s cmds)
  case (Cons ev evs)
  from core_step_total [OF Cons.prems(1)] obtain s1 cmds1 where
    st: "core_step ev s = Some (s1, cmds1)" "core_wf s1" by blast
  with Cons.prems(2) obtain cmds2 where r: "core_run evs s1 = Some (s', cmds2)" "cmds = cmds1 @ cmds2"
    by (auto split: option.splits)
  from verdict_core_step [OF Cons.prems(1) st(1) assms(3)] Cons.IH [OF st(2) r(1)] r(2)
  show ?case by (simp add: verdict_append)
qed simp

section \<open>Properties\<close>

text \<open>
  C8: On a pressure signal a core sheds debts to its own creditors without forgetting any: for
  every creditor, the ranges owed before are exactly the ranges repaid plus the ranges still
  owed; a range is retained only if it exceeds the pages left; the pool shrinks by exactly the
  sum repaid and never underflows.
\<close>

theorem pressure_repays_exactly:
  assumes "core_wf s"
  shows "\<exists>s' cmds. core_step (Pressure from_core) s = Some (s', cmds) \<and> core_wf s'
    \<and> unat (core_free s) = unat (core_free s') + repay_total cmds
    \<and> (\<forall>c < num_cores s. mset (owed s c) = mset (repaid_to c cmds) + mset (owed s' c)
          \<and> (\<forall>r \<in> set (owed s' c). core_free s' < rlen r))
    \<and> (\<forall>cmd \<in> set cmds. \<exists>c r. cmd = Repay (of_nat c) r \<and> c < num_cores s)"
proof -
  have n: "num_cores s \<le> MAX_CORES" using assms by (simp add: core_wf_def)
  from shed_all_spec [OF assms] obtain s' cmds where
    r: "shed_debts [0..<num_cores s] s = Some (s', cmds)" "core_wf s'"
      "unat (core_free s) = unat (core_free s') + repay_total cmds"
      "\<forall>c < MAX_CORES. if c < num_cores s
          then mset (owed s c) = mset (repaid_to c cmds) + mset (owed s' c)
               \<and> (\<forall>r \<in> set (owed s' c). core_free s' < rlen r)
          else debts s' ! c = debts s ! c \<and> repaid_to c cmds = []"
      "\<forall>cmd \<in> set cmds. \<exists>c r. cmd = Repay (of_nat c) r \<and> c < num_cores s" by blast
  have "\<forall>c < num_cores s. mset (owed s c) = mset (repaid_to c cmds) + mset (owed s' c)
          \<and> (\<forall>r \<in> set (owed s' c). core_free s' < rlen r)"
    using r(4) n by (meson less_le_trans)
  moreover have "core_step (Pressure from_core) s = Some (s', cmds)" using r(1) by (simp add: core_step_def)
  ultimately show ?thesis using r(2,3,5) by blast
qed

theorem pressure_repays_exactly_witness:
  "\<exists>s s' cmds. core_step (Borrowed 2 \<lparr>rbase = 0x1000, rlen = 4\<rparr>) (CoreStateMachine_new 1 4 100 10) = Some (s, [])
     \<and> core_step (Pressure 3) s = Some (s', cmds) \<and> unat (core_free s) = unat (core_free s') + repay_total cmds"
proof -
  have wf: "core_wf (CoreStateMachine_new 1 4 100 10)" by (rule core_wf_new) (simp add: MAX_CORES_def)
  obtain s where s: "core_step (Borrowed 2 \<lparr>rbase = 0x1000, rlen = 4\<rparr>) (CoreStateMachine_new 1 4 100 10) = Some (s, [])"
    by (cases "record_debt 2 \<lparr>rbase = 0x1000, rlen = 4\<rparr> (CoreStateMachine_new 1 4 100 10)")
      (simp add: core_step_def)
  with core_step_total [OF wf, of "Borrowed 2 \<lparr>rbase = 0x1000, rlen = 4\<rparr>"] have "core_wf s" by auto
  from pressure_repays_exactly [OF this, of 3] s show ?thesis by blast
qed

text \<open>
  Whatever events a core processes, it considers a peer dead exactly when the last three
  observations of that peer's heartbeat did not exceed the highest value seen before them.
\<close>

theorem peer_dead_iff_quiet:
  assumes "n \<le> MAX_CORES" "unat c < MAX_CORES"
  shows "\<exists>s' cmds. core_run evs (CoreStateMachine_new cid n free wm) = Some (s', cmds)
    \<and> (peer_dead s' c \<longleftrightarrow> quiet 3 (beats c evs))"
proof -
  let ?s = "CoreStateMachine_new cid n free wm"
  from core_run_Some [OF core_wf_new [OF assms(1)]] obtain s' cmds where
    r: "core_run evs ?s = Some (s', cmds)" "core_wf s'"
      "\<forall>c. unat c < MAX_CORES \<longrightarrow> peers s' ! unat c = fold observe (beats c evs) (peers ?s ! unat c)" by blast
  have "peers ?s ! unat c = PeerLiveness_new" using assms(2) by (simp add: CoreStateMachine_new_def)
  with r(3) assms(2) have p: "peers s' ! unat c = fold observe (beats c evs) PeerLiveness_new" by simp
  have "declared_dead (peers s' ! unat c) \<longleftrightarrow> quiet 3 (beats c evs)"
    using observe_quiet [OF p] by (simp add: DEAD_AFTER_STALE_def word_le_nat_alt)
  moreover have "peer_dead s' c \<longleftrightarrow> declared_dead (peers s' ! unat c)"
    using r(2) assms(2) by (simp add: peer_dead_def core_wf_def)
  ultimately show ?thesis using r(1) by blast
qed

theorem peer_dead_iff_quiet_witness:
  "\<exists>s' cmds. core_run [PeerHeartbeat 1 5, PeerHeartbeat 1 5, Tick, PeerHeartbeat 1 5, PeerHeartbeat 1 4]
      (CoreStateMachine_new 0 4 100 10) = Some (s', cmds) \<and> peer_dead s' 1"
proof -
  let ?evs = "[PeerHeartbeat 1 5, PeerHeartbeat 1 5, Tick, PeerHeartbeat 1 5, PeerHeartbeat 1 4]"
  have "quiet 3 (beats 1 ?evs)" by (simp add: quiet_def)
  with peer_dead_iff_quiet [of 4 1 ?evs 0 100 10] show ?thesis by (simp add: MAX_CORES_def)
qed

text \<open>
  A core announces each change of a peer's state exactly once: over any run, the commands
  about one peer alternate between \<open>PeerDown\<close> and \<open>PeerUp\<close>, starting from the state known at
  the beginning, and a listener that follows them always agrees with \<open>peer_dead\<close>.
\<close>

theorem announcements_alternate:
  assumes "core_wf s" "unat c < MAX_CORES" "core_run evs s = Some (s', cmds)"
  shows "verdict c (peer_dead s c) cmds = Some (peer_dead s' c)"
  by (rule verdict_core_run [OF assms(1,3,2)])

theorem announcements_alternate_witness:
  "\<exists>s' cmds. core_run (replicate 3 (PeerHeartbeat 1 0) @ [PeerHeartbeat 1 9]) (CoreStateMachine_new 0 4 100 10)
      = Some (s', cmds) \<and> verdict 1 False cmds = Some (peer_dead s' 1)"
proof -
  have wf: "core_wf (CoreStateMachine_new 0 4 100 10)" by (rule core_wf_new) (simp add: MAX_CORES_def)
  from core_run_Some [OF this] obtain s' cmds where
    r: "core_run (replicate 3 (PeerHeartbeat 1 0) @ [PeerHeartbeat 1 9]) (CoreStateMachine_new 0 4 100 10)
      = Some (s', cmds)" by blast
  have "\<not> peer_dead (CoreStateMachine_new 0 4 100 10) 1"
    by (simp add: peer_dead_def CoreStateMachine_new_def PeerLiveness_new_def MAX_CORES_def)
  with announcements_alternate [OF wf _ r, of 1] r show ?thesis by (auto simp: MAX_CORES_def)
qed

end
