(* ===== verification/Smp_Forward.thy ===== *)
theory Smp_Forward
  imports Smp_Channels Smp_Core
begin

text \<open>
  The shared machine descriptor (\<open>descriptor.rs\<close>) and the syscall-forwarding transport built on
  it (\<open>forward_syscall\<close> and \<open>service_fwd_requests\<close> of \<open>src/smp.rs\<close>). The owner's system-call
  dispatch (\<open>service_forwarded_syscall\<close> past the slot lookup) is the parameter \<open>exec\<close>: given
  the requesting core, the call number, the arguments and the bounce buffer it returns the
  result, the bounce buffer with any outbound bytes, and the owner's next state.
\<close>

section \<open>The descriptor\<close>

definition MAGIC :: u64 where "MAGIC = 0x414b554d414d4b31"

definition STATE_OFFLINE :: u32 where "STATE_OFFLINE = 0"
definition STATE_BOOTING :: u32 where "STATE_BOOTING = 1"
definition STATE_ONLINE :: u32 where "STATE_ONLINE = 2"
definition STATE_PARKED :: u32 where "STATE_PARKED = 3"
definition ENF_TESTING :: u32 where "ENF_TESTING = 0"
definition ENF_FAULTED :: u32 where "ENF_FAULTED = 1"
definition ENF_LEAKED :: u32 where "ENF_LEAKED = 2"

record core_config =
  mpidr :: u64
  cc_ram_base :: u64
  cc_ram_len :: u64
  cc_kernel_end :: u64
  entry_sp :: u64
  ttbr0_phys :: u64
  percpu_phys :: u64
  cc_state :: u32

definition CoreConfig_new :: core_config where
  "CoreConfig_new = \<lparr>mpidr = 0, cc_ram_base = 0, cc_ram_len = 0, cc_kernel_end = 0, entry_sp = 0,
     ttbr0_phys = 0, percpu_phys = 0, cc_state = STATE_OFFLINE\<rparr>"

record machine_config =
  enforcement_results :: "u32 list"
  mc_magic :: u64
  mc_version :: u32
  mc_num_cores :: u32
  config_phys_addr :: u64
  mc_cores :: "core_config list"
  heartbeat :: "u64 list"
  inboxes :: "ring list"
  console_rings :: "console_ring list"
  bounces :: "fwd_bounce list"
  calls :: "forward_call list"
  replies :: "fwd_reply list"
  init_programs :: "init_program list"
  fwd_server_ready :: u32
  initiator :: u32

definition MachineConfig_new :: machine_config where
  "MachineConfig_new =
     \<lparr>enforcement_results = replicate MAX_CORES ENF_TESTING, mc_magic = 0, mc_version = 0,
      mc_num_cores = 0, config_phys_addr = 0,
      mc_cores = replicate MAX_CORES CoreConfig_new, heartbeat = replicate MAX_CORES 0,
      inboxes = replicate MAX_CORES Ring_new, console_rings = replicate MAX_CORES ConsoleRing_new,
      bounces = replicate MAX_CORES FwdBounce_new, calls = replicate MAX_CORES ForwardCall_new,
      replies = replicate MAX_CORES FwdReply_new, init_programs = replicate MAX_CORES InitProgram_new,
      fwd_server_ready = 0, initiator = 0\<rparr>"

definition machine_wf :: "machine_config \<Rightarrow> bool" where
  "machine_wf cfg \<longleftrightarrow> length (inboxes cfg) = MAX_CORES \<and> length (bounces cfg) = MAX_CORES
     \<and> length (calls cfg) = MAX_CORES \<and> length (replies cfg) = MAX_CORES
     \<and> (\<forall>r \<in> set (inboxes cfg). ring_wf r) \<and> (\<forall>b \<in> set (bounces cfg). length b = FWD_BOUNCE_CAP)
     \<and> (\<forall>c \<in> set (calls cfg). length (fc_args c) = FWD_CALL_ARGS)"

section \<open>The requesting core\<close>

definition enc_err :: "int \<Rightarrow> u64" where
  "enc_err errno = of_int (- errno)"

text \<open>
  \<open>forward_syscall\<close> up to the push of the request: the error it returns at once, or the
  sequence number it will wait on. The slot lock makes the core's requests take turns.
\<close>

definition forward_send ::
    "nat \<Rightarrow> nat \<Rightarrow> u64 \<Rightarrow> u64 list \<Rightarrow> u8 list option \<Rightarrow> machine_config \<Rightarrow> (u64 + u64) \<times> machine_config" where
  "forward_send idx owner nr args in_buf cfg =
     (if idx < length (calls cfg) \<and> idx < length (bounces cfg) \<and> owner < length (inboxes cfg)
         \<and> idx < length (replies cfg)
      then
        let cfg1 = (case in_buf of
                      None \<Rightarrow> cfg
                    | Some b \<Rightarrow> cfg\<lparr>bounces := (bounces cfg)[idx := snd (bounce_write b (bounces cfg ! idx))]\<rparr>);
            cfg2 = cfg1\<lparr>calls := (calls cfg1)[idx := fwd_call_set nr args (calls cfg1 ! idx)]\<rparr>;
            snapshot = rep_seq (replies cfg2 ! idx)
        in case ring_push MSG_FWD_SYSCALL_REQ (of_nat idx) 0 0 (inboxes cfg2 ! owner) of
             (False, _) \<Rightarrow> (Inl (enc_err 11), cfg2)
           | (True, r) \<Rightarrow> (Inr snapshot, cfg2\<lparr>inboxes := (inboxes cfg2)[owner := r]\<rparr>)
      else (Inl (enc_err 38), cfg))"

text \<open>One poll of the wait loop: the result, the timeout error, or nothing yet.\<close>

definition forward_poll :: "nat \<Rightarrow> u64 \<Rightarrow> bool \<Rightarrow> machine_config \<Rightarrow> u64 option" where
  "forward_poll idx snapshot deadline_passed cfg =
     (if reply_changed snapshot (replies cfg ! idx) then Some (fst (reply_read (replies cfg ! idx)))
      else if deadline_passed then Some (enc_err 110) else None)"

section \<open>The owner\<close>

type_synonym 'o dispatch = "nat \<Rightarrow> u64 \<Rightarrow> u64 list \<Rightarrow> fwd_bounce \<Rightarrow> 'o \<Rightarrow> u64 \<times> fwd_bounce \<times> 'o"

definition service_forwarded_syscall ::
    "'o dispatch \<Rightarrow> nat \<Rightarrow> machine_config \<Rightarrow> 'o \<Rightarrow> (u64 \<times> u64) \<times> machine_config \<times> 'o" where
  "service_forwarded_syscall exec sender cfg os =
     (if sender < length (calls cfg) \<and> sender < length (bounces cfg)
      then case fwd_call_get (calls cfg ! sender) of (sysno, args) \<Rightarrow>
        (case exec sender sysno args (bounces cfg ! sender) os of
           (ret, b, os') \<Rightarrow> ((sysno, ret), cfg\<lparr>bounces := (bounces cfg)[sender := b]\<rparr>, os'))
      else ((0, enc_err 38), cfg, os))"

definition service_msg :: "'o dispatch \<Rightarrow> nat \<Rightarrow> msg \<Rightarrow> machine_config \<Rightarrow> 'o \<Rightarrow> bool \<times> machine_config \<times> 'o" where
  "service_msg exec bsp_idx m cfg os =
     (let sender = unat (msg_from m) in
      if msg_kind m = MSG_FWD_ECHO_REQ then
        let cfg1 = (if sender < length (bounces cfg)
                    then cfg\<lparr>bounces := (bounces cfg)[sender :=
                           bounce_map_in_place (unat (msg_v0 m)) (\<lambda>b. b + 1) (bounces cfg ! sender)]\<rparr>
                    else cfg);
            cfg2 = (if sender < length (inboxes cfg1)
                    then cfg1\<lparr>inboxes := (inboxes cfg1)[sender :=
                           snd (ring_push MSG_FWD_ECHO_REPLY (of_nat bsp_idx) (msg_v0 m) (msg_v1 m) (inboxes cfg1 ! sender))]\<rparr>
                    else cfg1)
        in (True, cfg2, os)
      else if msg_kind m = MSG_FWD_SYSCALL_REQ then
        case service_forwarded_syscall exec sender cfg os of ((nr, ret), cfg1, os1) \<Rightarrow>
          (True,
           if sender < length (replies cfg1)
           then cfg1\<lparr>replies := (replies cfg1)[sender := reply_publish ret nr (replies cfg1 ! sender)]\<rparr>
           else cfg1, os1)
      else (False, cfg, os))"

text \<open>The drain loop, with a bound on the number of messages popped.\<close>

fun service_fwd_requests ::
    "nat \<Rightarrow> 'o dispatch \<Rightarrow> nat \<Rightarrow> machine_config \<Rightarrow> 'o \<Rightarrow> nat \<times> machine_config \<times> 'o" where
  "service_fwd_requests 0 exec bsp_idx cfg os = (0, cfg, os)"
| "service_fwd_requests (Suc fuel) exec bsp_idx cfg os =
     (if bsp_idx < length (inboxes cfg)
      then case ring_pop (inboxes cfg ! bsp_idx) of
             (None, _) \<Rightarrow> (0, cfg, os)
           | (Some m, r) \<Rightarrow>
               (case service_msg exec bsp_idx m (cfg\<lparr>inboxes := (inboxes cfg)[bsp_idx := r]\<rparr>) os of
                  (b, cfg1, os1) \<Rightarrow>
                    (case service_fwd_requests fuel exec bsp_idx cfg1 os1 of
                       (n, cfg2, os2) \<Rightarrow> ((if b then n + 1 else n), cfg2, os2)))
      else (0, cfg, os))"

section \<open>One round trip\<close>

text \<open>Serving another core's message leaves this core's slots and the owner's inbox alone.\<close>

lemma service_msg_frame:
  assumes "service_msg exec owner m cfg os = (b, cfg', os')"
    and "unat (msg_from m) \<noteq> idx" "unat (msg_from m) \<noteq> owner"
  shows "calls cfg' = calls cfg" "length (bounces cfg') = length (bounces cfg)"
    "length (replies cfg') = length (replies cfg)" "length (inboxes cfg') = length (inboxes cfg)"
    "bounces cfg' ! idx = bounces cfg ! idx" "replies cfg' ! idx = replies cfg ! idx"
    "inboxes cfg' ! owner = inboxes cfg ! owner"
  using assms
  by (auto simp: service_msg_def service_forwarded_syscall_def Let_def split: if_splits prod.splits)

definition request :: "nat \<Rightarrow> msg" where
  "request idx = \<lparr>msg_kind = MSG_FWD_SYSCALL_REQ, msg_from = of_nat idx, msg_v0 = 0, msg_v1 = 0\<rparr>"

definition serves :: "machine_config \<Rightarrow> nat \<Rightarrow> nat \<Rightarrow> msg list \<Rightarrow> bool" where
  "serves cfg idx owner ms \<longleftrightarrow> owner < length (inboxes cfg) \<and> ring_wf (inboxes cfg ! owner)
     \<and> ring_contents (inboxes cfg ! owner) = ms
     \<and> idx < length (calls cfg) \<and> idx < length (bounces cfg) \<and> idx < length (replies cfg)"

lemma pop_inbox:
  assumes "serves cfg idx owner (m # ms)"
  obtains r where "ring_pop (inboxes cfg ! owner) = (Some m, r)"
    and "serves (cfg\<lparr>inboxes := (inboxes cfg)[owner := r]\<rparr>) idx owner ms"
proof -
  obtain x r where p: "ring_pop (inboxes cfg ! owner) = (x, r)" by (cases "ring_pop (inboxes cfg ! owner)")
  from assms ring_fifo.get_next [OF _ _ p, of m ms] have "x = Some m" "ring_wf r" "ring_contents r = ms"
    by (auto simp: serves_def)
  with p assms show thesis by (intro that [of r]) (auto simp: serves_def)
qed

lemma service_drained:
  assumes "serves cfg idx owner []"
  shows "service_fwd_requests f exec owner cfg os = (0, cfg, os)"
proof -
  obtain x r where p: "ring_pop (inboxes cfg ! owner) = (x, r)" by (cases "ring_pop (inboxes cfg ! owner)")
  with assms ring_fifo.get_empty [OF _ _ p] have "x = None" by (simp add: serves_def)
  with p show ?thesis by (cases f) simp_all
qed

lemma serve_request:
  assumes sv: "serves cfg idx owner (ms @ [request idx])" and idx: "idx < 2 ^ 32" "idx \<noteq> owner"
    and others: "\<forall>m \<in> set ms. unat (msg_from m) \<noteq> idx \<and> unat (msg_from m) \<noteq> owner"
    and fuel: "length ms < fuel"
  shows "\<exists>n cfg' os' os1 ret b. service_fwd_requests fuel exec owner cfg os = (n, cfg', os')
    \<and> exec idx (fc_nr (calls cfg ! idx)) (fc_args (calls cfg ! idx)) (bounces cfg ! idx) os1 = (ret, b, os')
    \<and> replies cfg' ! idx = reply_publish ret (fc_nr (calls cfg ! idx)) (replies cfg ! idx)
    \<and> bounces cfg' ! idx = b \<and> (ms = [] \<longrightarrow> os1 = os)"
  using assms
proof (induction ms arbitrary: fuel cfg os)
  case Nil
  then obtain f where fuel: "fuel = Suc f" by (cases fuel) auto
  from Nil.prems(1) have "serves cfg idx owner (request idx # [])" by simp
  from pop_inbox [OF this] obtain r where
    p: "ring_pop (inboxes cfg ! owner) = (Some (request idx), r)"
    and sv: "serves (cfg\<lparr>inboxes := (inboxes cfg)[owner := r]\<rparr>) idx owner []" by blast
  let ?cfg = "cfg\<lparr>inboxes := (inboxes cfg)[owner := r]\<rparr>"
  have u: "unat (of_nat idx :: u32) = idx" using idx(1) by (intro unat_of_nat_small) simp
  obtain ret b os' where e: "exec idx (fc_nr (calls cfg ! idx)) (fc_args (calls cfg ! idx)) (bounces cfg ! idx) os = (ret, b, os')"
    by (cases "exec idx (fc_nr (calls cfg ! idx)) (fc_args (calls cfg ! idx)) (bounces cfg ! idx) os") auto
  let ?cfg1 = "?cfg\<lparr>bounces := (bounces cfg)[idx := b],
      replies := (replies cfg)[idx := reply_publish ret (fc_nr (calls cfg ! idx)) (replies cfg ! idx)]\<rparr>"
  have m: "service_msg exec owner (request idx) ?cfg os = (True, ?cfg1, os')"
    using sv e u by (simp add: service_msg_def request_def service_forwarded_syscall_def fwd_call_get_def
        serves_def MSG_FWD_SYSCALL_REQ_def MSG_FWD_ECHO_REQ_def Let_def)
  have "service_fwd_requests f exec owner ?cfg1 os' = (0, ?cfg1, os')"
    using sv by (intro service_drained [of _ idx]) (auto simp: serves_def)
  with fuel p m Nil.prems(1) have "service_fwd_requests fuel exec owner cfg os = (1, ?cfg1, os')"
    by (simp add: serves_def)
  moreover have "replies ?cfg1 ! idx = reply_publish ret (fc_nr (calls cfg ! idx)) (replies cfg ! idx)"
    "bounces ?cfg1 ! idx = b" using Nil.prems(1) by (simp_all add: serves_def)
  ultimately show ?case using e by blast
next
  case (Cons m ms)
  then obtain f where fuel: "fuel = Suc f" "length ms < f" by (cases fuel) auto
  from Cons.prems(1) have "serves cfg idx owner (m # (ms @ [request idx]))" by simp
  from pop_inbox [OF this] obtain r where
    p: "ring_pop (inboxes cfg ! owner) = (Some m, r)"
    and sv: "serves (cfg\<lparr>inboxes := (inboxes cfg)[owner := r]\<rparr>) idx owner (ms @ [request idx])" by blast
  let ?cfg = "cfg\<lparr>inboxes := (inboxes cfg)[owner := r]\<rparr>"
  obtain b1 cfg1 os1 where m: "service_msg exec owner m ?cfg os = (b1, cfg1, os1)"
    by (cases "service_msg exec owner m ?cfg os") auto
  have ne: "unat (msg_from m) \<noteq> idx" "unat (msg_from m) \<noteq> owner" using Cons.prems(4) by auto
  note fr = service_msg_frame [OF m ne]
  have "serves cfg1 idx owner (ms @ [request idx])" using sv fr by (auto simp: serves_def)
  from Cons.IH [OF this idx _ fuel(2), of os1] Cons.prems(4) obtain n cfg2 os2 os3 ret b where
    r: "service_fwd_requests f exec owner cfg1 os1 = (n, cfg2, os2)"
      "exec idx (fc_nr (calls cfg1 ! idx)) (fc_args (calls cfg1 ! idx)) (bounces cfg1 ! idx) os3 = (ret, b, os2)"
      "replies cfg2 ! idx = reply_publish ret (fc_nr (calls cfg1 ! idx)) (replies cfg1 ! idx)"
      "bounces cfg2 ! idx = b" by auto
  have "service_fwd_requests fuel exec owner cfg os = ((if b1 then n + 1 else n), cfg2, os2)"
    using fuel(1) p m r(1) Cons.prems(1) by (simp add: serves_def)
  with r(2-4) fr show ?case by auto
qed

lemma forward_send_Inr:
  assumes wf: "machine_wf cfg" and idx: "idx < MAX_CORES" "owner < MAX_CORES"
    and args: "length args = FWD_CALL_ARGS"
    and send: "forward_send idx owner nr args (Some payload) cfg = (Inr snapshot, cfg1)"
  shows "serves cfg1 idx owner (ring_contents (inboxes cfg ! owner) @ [request idx])"
    and "calls cfg1 ! idx = \<lparr>fc_nr = nr, fc_args = args\<rparr>"
    and "bounce_read (length payload) (bounces cfg1 ! idx) = take FWD_BOUNCE_CAP payload"
    and "replies cfg1 = replies cfg" "snapshot = rep_seq (replies cfg ! idx)" "machine_wf cfg1"
proof -
  let ?b = "snd (bounce_write payload (bounces cfg ! idx))"
  let ?c = "fwd_call_set nr args (calls cfg ! idx)"
  have l: "idx < length (calls cfg)" "idx < length (bounces cfg)" "owner < length (inboxes cfg)"
    "idx < length (replies cfg)" using wf idx by (simp_all add: machine_wf_def)
  obtain ok r where p: "ring_push MSG_FWD_SYSCALL_REQ (of_nat idx) 0 0 (inboxes cfg ! owner) = (ok, r)"
    by (cases "ring_push MSG_FWD_SYSCALL_REQ (of_nat idx) 0 0 (inboxes cfg ! owner)")
  have ok: "ok" and snap: "snapshot = rep_seq (replies cfg ! idx)"
    and cfg1: "cfg1 = cfg\<lparr>bounces := (bounces cfg)[idx := ?b], calls := (calls cfg)[idx := ?c],
      inboxes := (inboxes cfg)[owner := r]\<rparr>"
    using send l p by (auto simp: forward_send_def Let_def split: bool.splits)
  have "ring_wf (inboxes cfg ! owner)" using wf l by (simp add: machine_wf_def)
  from ring_fifo.put_cases [OF this, of "request idx" ok r] p ok
  have r: "ring_wf r" "ring_contents r = ring_contents (inboxes cfg ! owner) @ [request idx]"
    by (simp_all add: push_msg_def request_def)
  have bl: "length (bounces cfg ! idx) = FWD_BOUNCE_CAP" and cl: "length (fc_args (calls cfg ! idx)) = FWD_CALL_ARGS"
    using wf l by (auto simp: machine_wf_def)
  show "serves cfg1 idx owner (ring_contents (inboxes cfg ! owner) @ [request idx])"
    using r l by (simp add: serves_def cfg1)
  have "?c = \<lparr>fc_nr = nr, fc_args = args\<rparr>"
    using args cl by (cases "calls cfg ! idx") (simp add: fwd_call_set_def store_from_eq)
  then show "calls cfg1 ! idx = \<lparr>fc_nr = nr, fc_args = args\<rparr>" using l by (simp add: cfg1)
  obtain n b where w: "bounce_write payload (bounces cfg ! idx) = (n, b)"
    by (cases "bounce_write payload (bounces cfg ! idx)")
  note rt = bounce_roundtrip [OF bl w]
  have "bounce_read (length payload) b = bounce_read n b"
    using rt by (simp add: bounce_read_def min_def)
  then show "bounce_read (length payload) (bounces cfg1 ! idx) = take FWD_BOUNCE_CAP payload"
    using l w rt by (auto simp: cfg1)
  show "replies cfg1 = replies cfg" "snapshot = rep_seq (replies cfg ! idx)" by (simp_all add: cfg1 snap)
  have "\<forall>x \<in> set ((inboxes cfg)[owner := r]). ring_wf x"
    using wf r(1) by (intro set_update_ball) (simp_all add: machine_wf_def)
  moreover have "\<forall>x \<in> set ((bounces cfg)[idx := ?b]). length x = FWD_BOUNCE_CAP"
    using wf w rt by (intro set_update_ball) (simp_all add: machine_wf_def)
  moreover have "\<forall>x \<in> set ((calls cfg)[idx := ?c]). length (fc_args x) = FWD_CALL_ARGS"
    using wf \<open>?c = \<lparr>fc_nr = nr, fc_args = args\<rparr>\<close> args by (intro set_update_ball) (simp_all add: machine_wf_def)
  ultimately show "machine_wf cfg1" using wf by (simp add: machine_wf_def cfg1)
qed

section \<open>Properties\<close>


lemma machine_wf_new: "machine_wf MachineConfig_new"
  by (simp add: machine_wf_def MachineConfig_new_def FwdBounce_new_def ForwardCall_new_def
      ring_wf_def Ring_new_def ring_len_def)

lemma forward_send_new:
  "\<exists>snapshot cfg1. forward_send 1 0 nr args (Some payload) MachineConfig_new = (Inr snapshot, cfg1)"
proof -
  have l: "1 < length (calls MachineConfig_new)" "1 < length (bounces MachineConfig_new)"
    "0 < length (inboxes MachineConfig_new)" "1 < length (replies MachineConfig_new)"
    "inboxes MachineConfig_new ! 0 = Ring_new"
    by (simp_all add: MachineConfig_new_def MAX_CORES_def)
  have "\<exists>r. ring_push MSG_FWD_SYSCALL_REQ 1 0 0 Ring_new = (True, r)"
    by (simp add: ring_push_def Ring_new_def RING_CAP_def)
  with l show ?thesis by (auto simp: forward_send_def Let_def)
qed


text \<open>
  A request that timed out is still queued. When the core then sends its next call, the frame
  and the bounce buffer already hold the new call, so serving the stale message runs the new
  call and publishes its result, and serving the second message runs it once more.
\<close>

lemma timed_out_request_repeats_next_call:
  assumes wf: "machine_wf cfg" and idx: "idx < MAX_CORES" "owner < MAX_CORES" "idx \<noteq> owner"
    and args: "length args1 = FWD_CALL_ARGS" "length args2 = FWD_CALL_ARGS"
    and send1: "forward_send idx owner nr1 args1 (Some p1) cfg = (Inr s1, cfg1)"
    and timeout: "forward_poll idx s1 True cfg1 = Some (enc_err 110)"
    and send2: "forward_send idx owner nr2 args2 (Some p2) cfg1 = (Inr s2, cfg2)"
    and empty: "ring_contents (inboxes cfg ! owner) = []"
  shows "ring_contents (inboxes cfg2 ! owner) = [request idx, request idx]
    \<and> calls cfg2 ! idx = \<lparr>fc_nr = nr2, fc_args = args2\<rparr>"
proof -
  note f1 = forward_send_Inr [OF wf idx(1,2) args(1) send1]
  note f2 = forward_send_Inr [OF f1(6) idx(1,2) args(2) send2]
  have "ring_contents (inboxes cfg1 ! owner) = [request idx]" using f1(1) empty by (simp add: serves_def)
  with f2(1,2) show ?thesis by (simp add: serves_def)
qed

end
