(* ===== verification/Smp_Pump.thy ===== *)
theory Smp_Pump
  imports Smp_Forward
begin

text \<open>
  The pump of an isolated secondary core (the inbox loop of \<open>src/smp.rs\<close>): it drains the core's
  inbox, feeds pressure and repayment messages to the core's state machine and carries out the
  emitted repayments by pushing them into the creditors' inboxes. Here the message ring and the
  state machine meet.
\<close>

section \<open>The loop\<close>

definition exec_command :: "nat \<Rightarrow> command \<Rightarrow> machine_config \<Rightarrow> machine_config" where
  "exec_command idx cmd cfg =
     (case cmd of
        Repay creditor r \<Rightarrow>
          (if unat creditor < length (inboxes cfg)
           then cfg\<lparr>inboxes := (inboxes cfg)[unat creditor :=
                  snd (ring_push MSG_REPAID (of_nat idx) (rbase r) (rlen r) (inboxes cfg ! unat creditor))]\<rparr>
           else cfg)
      | _ \<Rightarrow> cfg)"

definition msg_event :: "msg \<Rightarrow> event option" where
  "msg_event m =
     (if msg_kind m = MSG_PRESSURE then Some (Pressure (msg_from m))
      else if msg_kind m = MSG_REPAID then Some (Repaid (msg_from m) \<lparr>rbase = msg_v0 m, rlen = msg_v1 m\<rparr>)
      else None)"

text \<open>The \<open>while let Some(m) = inbox.pop()\<close> loop with a bound on its iterations; the boolean says
  whether the loop ended by itself.\<close>

fun pump :: "nat \<Rightarrow> nat \<Rightarrow> core_state_machine \<Rightarrow> machine_config
    \<Rightarrow> (bool \<times> core_state_machine \<times> machine_config) option" where
  "pump 0 idx sm cfg = Some (False, sm, cfg)"
| "pump (Suc fuel) idx sm cfg =
     (if idx < length (inboxes cfg)
      then case ring_pop (inboxes cfg ! idx) of
             (None, _) \<Rightarrow> Some (True, sm, cfg)
           | (Some m, r) \<Rightarrow>
               (let cfg1 = cfg\<lparr>inboxes := (inboxes cfg)[idx := r]\<rparr> in
                case msg_event m of
                  None \<Rightarrow> pump fuel idx sm cfg1
                | Some ev \<Rightarrow>
                    (case core_step ev sm of
                       None \<Rightarrow> None
                     | Some (sm1, cmds) \<Rightarrow> pump fuel idx sm1 (fold (exec_command idx) cmds cfg1)))
      else Some (True, sm, cfg))"

section \<open>Pages on the way home\<close>

definition repaid_pages :: "msg \<Rightarrow> nat" where
  "repaid_pages m = (if msg_kind m = MSG_REPAID then unat (msg_v1 m) else 0)"

definition ring_pages :: "ring \<Rightarrow> nat" where
  "ring_pages r = sum_list (map repaid_pages (ring_contents r))"

definition in_flight :: "machine_config \<Rightarrow> nat" where
  "in_flight cfg = sum_list (map ring_pages (inboxes cfg))"

definition rings_wf :: "machine_config \<Rightarrow> bool" where
  "rings_wf cfg \<longleftrightarrow> (\<forall>r \<in> set (inboxes cfg). ring_wf r)"

lemma sum_list_map_update:
  fixes f :: "'a \<Rightarrow> nat"
  assumes "i < length xs"
  shows "sum_list (map f (xs[i := x])) + f (xs ! i) = sum_list (map f xs) + f x"
  using assms by (induction xs arbitrary: i) (auto split: nat.splits)

lemma in_flight_update:
  assumes "i < length (inboxes cfg)"
  shows "in_flight (cfg\<lparr>inboxes := (inboxes cfg)[i := r]\<rparr>) + ring_pages (inboxes cfg ! i)
    = in_flight cfg + ring_pages r"
  using sum_list_map_update [OF assms, of ring_pages r] by (simp add: in_flight_def)

definition room_for :: "command list \<Rightarrow> machine_config \<Rightarrow> bool" where
  "room_for cmds cfg \<longleftrightarrow>
     (\<forall>r \<in> set (inboxes cfg). length (ring_contents r) + length cmds \<le> RING_CAP)"

lemma exec_command_spec:
  assumes wf: "rings_wf cfg" and c: "cmd = Repay k r" "unat k < length (inboxes cfg)"
  shows "rings_wf (exec_command idx cmd cfg)
    \<and> length (inboxes (exec_command idx cmd cfg)) = length (inboxes cfg)
    \<and> in_flight (exec_command idx cmd cfg) \<le> in_flight cfg + unat (rlen r)
    \<and> (\<forall>i. length (ring_contents (inboxes (exec_command idx cmd cfg) ! i))
           \<le> Suc (length (ring_contents (inboxes cfg ! i))))
    \<and> (room_for [cmd] cfg \<longrightarrow> in_flight (exec_command idx cmd cfg) = in_flight cfg + unat (rlen r))"
proof -
  let ?m = "\<lparr>msg_kind = MSG_REPAID, msg_from = of_nat idx, msg_v0 = rbase r, msg_v1 = rlen r\<rparr>"
  let ?q = "inboxes cfg ! unat k"
  obtain b q where p: "push_msg ?m ?q = (b, q)" by (cases "push_msg ?m ?q")
  then have e: "exec_command idx cmd cfg = cfg\<lparr>inboxes := (inboxes cfg)[unat k := q]\<rparr>"
    using c by (simp add: exec_command_def push_msg_def)
  have "ring_wf ?q" using wf c by (simp add: rings_wf_def)
  note pc = ring_fifo.put_cases [OF this p]
  have pages: "ring_pages q = ring_pages ?q + (if b then unat (rlen r) else 0)"
    using pc by (simp add: ring_pages_def repaid_pages_def)
  have "rings_wf (exec_command idx cmd cfg)"
    using set_update_ball [of "inboxes cfg" ring_wf q "unat k"] wf pc unfolding rings_wf_def e by simp
  moreover have "in_flight (exec_command idx cmd cfg) = in_flight cfg + (if b then unat (rlen r) else 0)"
    using in_flight_update [OF c(2), of q] pages unfolding e by (cases b) linarith+
  moreover have "room_for [cmd] cfg \<longrightarrow> b"
    using pc nth_mem [OF c(2)] by (auto simp: room_for_def Suc_le_eq)
  moreover have "length (ring_contents (inboxes (exec_command idx cmd cfg) ! i))
      \<le> Suc (length (ring_contents (inboxes cfg ! i)))" for i
    using pc c(2) unfolding e by (cases "i = unat k") auto
  ultimately show ?thesis unfolding e by auto
qed

lemma exec_commands_spec:
  assumes "rings_wf cfg" "\<forall>cmd \<in> set cmds. \<exists>k r. cmd = Repay k r \<and> unat k < length (inboxes cfg)"
  shows "rings_wf (fold (exec_command idx) cmds cfg)
    \<and> length (inboxes (fold (exec_command idx) cmds cfg)) = length (inboxes cfg)
    \<and> in_flight (fold (exec_command idx) cmds cfg) \<le> in_flight cfg + repay_total cmds
    \<and> length (ring_contents (inboxes (fold (exec_command idx) cmds cfg) ! i))
        \<le> length (ring_contents (inboxes cfg ! i)) + length cmds
    \<and> (room_for cmds cfg \<longrightarrow> in_flight (fold (exec_command idx) cmds cfg) = in_flight cfg + repay_total cmds)"
  using assms
proof (induction cmds arbitrary: cfg)
  case (Cons cmd cmds)
  then obtain k r where c: "cmd = Repay k r" "unat k < length (inboxes cfg)" by auto
  let ?cfg = "exec_command idx cmd cfg"
  note e = exec_command_spec [OF Cons.prems(1) c, of idx]
  let ?fin = "fold (exec_command idx) cmds ?cfg"
  have rest: "\<forall>cmd \<in> set cmds. \<exists>k r. cmd = Repay k r \<and> unat k < length (inboxes ?cfg)"
    using Cons.prems(2) e by auto
  have "rings_wf ?cfg" using e by blast
  note IH = Cons.IH [OF this rest]
  have room: "room_for cmds ?cfg" if room: "room_for (cmd # cmds) cfg"
  proof -
    have "length (ring_contents q) + length cmds \<le> RING_CAP" if q: "q \<in> set (inboxes ?cfg)" for q
    proof -
      from q obtain i where i: "i < length (inboxes ?cfg)" "q = inboxes ?cfg ! i" by (auto simp: in_set_conv_nth)
      then have "length (ring_contents q) \<le> Suc (length (ring_contents (inboxes cfg ! i)))" using e by blast
      moreover have "inboxes cfg ! i \<in> set (inboxes cfg)" using i(1) e by simp
      then have "length (ring_contents (inboxes cfg ! i)) + length (cmd # cmds) \<le> RING_CAP"
        using room unfolding room_for_def by blast
      ultimately show ?thesis by simp
    qed
    then show ?thesis by (simp add: room_for_def)
  qed
  have "length (ring_contents (inboxes ?fin ! i)) \<le> length (ring_contents (inboxes cfg ! i)) + length (cmd # cmds)"
  proof -
    have "length (ring_contents (inboxes ?cfg ! i)) \<le> Suc (length (ring_contents (inboxes cfg ! i)))"
      using e by blast
    moreover have "length (ring_contents (inboxes ?fin ! i)) \<le> length (ring_contents (inboxes ?cfg ! i)) + length cmds"
      using IH by blast
    ultimately show ?thesis by simp
  qed
  moreover have "in_flight ?fin \<le> in_flight cfg + repay_total (cmd # cmds)"
  proof -
    have "in_flight ?cfg \<le> in_flight cfg + unat (rlen r)" using e by blast
    moreover have "in_flight ?fin \<le> in_flight ?cfg + repay_total cmds" using IH by blast
    ultimately show ?thesis using c(1) by simp
  qed
  moreover have "in_flight ?fin = in_flight cfg + repay_total (cmd # cmds)" if "room_for (cmd # cmds) cfg"
  proof -
    have "room_for [cmd] cfg" using that by (auto simp: room_for_def)
    then have "in_flight ?cfg = in_flight cfg + unat (rlen r)" using e by blast
    moreover have "in_flight ?fin = in_flight ?cfg + repay_total cmds" using IH room [OF that] by blast
    ultimately show ?thesis using c(1) by simp
  qed
  moreover have "rings_wf ?fin" "length (inboxes ?fin) = length (inboxes cfg)" using IH e by (blast, simp)
  ultimately show ?case by (simp only: fold_simps) blast
qed (simp add: room_for_def)

section \<open>The loop ends and keeps count of the pages\<close>

lemma shed_ranges_count:
  "shed_ranges c is rs kept free = (rs', kept', free', cmds) \<Longrightarrow> kept' + length cmds = kept + length is"
  by (induction c "is" rs kept free arbitrary: rs' kept' free' cmds rule: shed_ranges.induct)
    (fastforce simp: Let_def split: if_splits prod.splits)+

lemma shed_debts_count:
  "shed_debts cs s = Some (s', cmds) \<Longrightarrow> debt_range_count s' + length cmds = debt_range_count s"
proof (induction cs arbitrary: s cmds)
  case (Cons c cs)
  let ?d = "debts s ! c"
  have c: "c < length (debts s)" using Cons.prems by (auto split: if_splits)
  obtain rs kept free1 cmds1 where
    sh: "shed_ranges c [0..<debt_count ?d] (ranges ?d) 0 (core_free s) = (rs, kept, free1, cmds1)"
    by (cases "shed_ranges c [0..<debt_count ?d] (ranges ?d) 0 (core_free s)") auto
  let ?s1 = "s\<lparr>core_free := free1, debts := (debts s)[c := \<lparr>ranges = rs, debt_count = kept\<rparr>]\<rparr>"
  from Cons.prems c sh obtain cmds2 where
    r: "shed_debts cs ?s1 = Some (s', cmds2)" "cmds = cmds1 @ cmds2" by (auto simp: Let_def split: option.splits)
  have "debt_range_count ?s1 + debt_count ?d = debt_range_count s + kept"
    using sum_list_map_update [OF c, of debt_count "\<lparr>ranges = rs, debt_count = kept\<rparr>"]
    by (simp add: debt_range_count_def)
  with Cons.IH [OF r(1)] shed_ranges_count [OF sh] r(2) show ?case by simp
qed simp

lemma step_pages:
  assumes wf: "core_wf sm" and ev: "msg_event m = Some ev"
    and total: "unat (core_free sm) + repaid_pages m < 2 ^ 64"
  obtains sm1 cmds where "core_step ev sm = Some (sm1, cmds)" "core_wf sm1"
    "debt_range_count sm1 + length (filter (\<lambda>c. \<exists>k r. c = Repay k r) cmds) = debt_range_count sm"
    "unat (core_free sm1) + repay_total cmds = unat (core_free sm) + repaid_pages m"
    "\<forall>cmd \<in> set cmds. (\<exists>k r. cmd = Repay k r \<and> unat k < MAX_CORES) \<or> (\<exists>k r. cmd = Accept k r)"
proof (cases "msg_kind m = MSG_PRESSURE")
  case True
  then have e: "ev = Pressure (msg_from m)" using ev by (simp add: msg_event_def)
  from shed_all_spec [OF wf] obtain sm1 cmds where
    s: "shed_debts [0..<num_cores sm] sm = Some (sm1, cmds)" "core_wf sm1"
      "unat (core_free sm) = unat (core_free sm1) + repay_total cmds"
      "\<forall>cmd \<in> set cmds. \<exists>c r. cmd = Repay (of_nat c) r \<and> c < num_cores sm" by blast
  have k: "unat (of_nat c :: u32) < MAX_CORES" if "c < num_cores sm" for c
  proof -
    have "c < MAX_CORES" using that wf by (simp add: core_wf_def)
    then show ?thesis by (subst unat_of_nat_small) (simp_all add: MAX_CORES_def)
  qed
  have "filter (\<lambda>c. \<exists>k r. c = Repay k r) cmds = cmds" using s(4) by (intro filter_True) blast
  moreover have "repaid_pages m = 0"
    using True by (simp add: repaid_pages_def MSG_PRESSURE_def MSG_REPAID_def)
  ultimately show thesis
    using that [of sm1 cmds] s e k shed_debts_count [OF s(1)] by (fastforce simp: core_step_def)
next
  case False
  then have r: "msg_kind m = MSG_REPAID" "ev = Repaid (msg_from m) \<lparr>rbase = msg_v0 m, rlen = msg_v1 m\<rparr>"
    using ev by (auto simp: msg_event_def split: if_splits)
  let ?sm = "sm\<lparr>core_free := core_free sm + msg_v1 m\<rparr>"
  have "unat (core_free sm + msg_v1 m) = unat (core_free sm) + unat (msg_v1 m)"
    using total r(1) by (simp add: repaid_pages_def unat_word_ariths)
  moreover have "core_wf ?sm" using wf by (simp add: core_wf_def)
  ultimately show thesis
    using r by (intro that [of ?sm "[Accept (msg_from m) \<lparr>rbase = msg_v0 m, rlen = msg_v1 m\<rparr>]"])
      (simp_all add: core_step_def repaid_pages_def debt_range_count_def)
qed

lemma exec_only_repays:
  assumes "\<forall>cmd \<in> set cmds. (\<exists>k r. cmd = Repay k r \<and> unat k < MAX_CORES) \<or> (\<exists>k r. cmd = Accept k r)"
  shows "fold (exec_command idx) cmds cfg = fold (exec_command idx) (filter (\<lambda>c. \<exists>k r. c = Repay k r) cmds) cfg"
    and "repay_total (filter (\<lambda>c. \<exists>k r. c = Repay k r) cmds) = repay_total cmds"
  using assms by (induction cmds arbitrary: cfg) (auto simp: exec_command_def)

definition roomy :: "core_state_machine \<Rightarrow> machine_config \<Rightarrow> bool" where
  "roomy sm cfg \<longleftrightarrow>
     (\<forall>i < length (inboxes cfg). length (ring_contents (inboxes cfg ! i)) + debt_range_count sm \<le> RING_CAP)"

definition pages_held :: "core_state_machine \<Rightarrow> machine_config \<Rightarrow> nat" where
  "pages_held sm cfg = unat (core_free sm) + in_flight cfg"

definition pump_inv :: "nat \<Rightarrow> core_state_machine \<Rightarrow> machine_config \<Rightarrow> bool" where
  "pump_inv idx sm cfg \<longleftrightarrow> core_wf sm \<and> rings_wf cfg \<and> length (inboxes cfg) = MAX_CORES \<and> idx < MAX_CORES
     \<and> pages_held sm cfg < 2 ^ 64"

definition pump_work :: "nat \<Rightarrow> core_state_machine \<Rightarrow> machine_config \<Rightarrow> nat" where
  "pump_work idx sm cfg = length (ring_contents (inboxes cfg ! idx)) + debt_range_count sm"

text \<open>One iteration of the loop: less work is left, and pages are at most lost.\<close>

lemma pump_pop:
  assumes inv: "pump_inv idx sm cfg" and p: "ring_pop (inboxes cfg ! idx) = (Some m, r)"
    and cfg1: "cfg1 = cfg\<lparr>inboxes := (inboxes cfg)[idx := r]\<rparr>"
  shows "rings_wf cfg1" "length (inboxes cfg1) = MAX_CORES"
    "in_flight cfg1 + repaid_pages m = in_flight cfg" "Suc (pump_work idx sm cfg1) = pump_work idx sm cfg"
    "roomy sm cfg \<longrightarrow> roomy sm cfg1"
proof -
  let ?q = "inboxes cfg ! idx"
  have l: "idx < length (inboxes cfg)" using inv by (simp add: pump_inv_def)
  have "ring_wf ?q" using inv l by (simp add: pump_inv_def rings_wf_def)
  from ring_fifo.get_cases [OF this p] have r: "ring_wf r" "ring_contents ?q = m # ring_contents r" by auto
  show "rings_wf cfg1"
    using set_update_ball [of "inboxes cfg" ring_wf r idx] inv r(1) by (simp add: cfg1 rings_wf_def pump_inv_def)
  show "length (inboxes cfg1) = MAX_CORES" using inv by (simp add: cfg1 pump_inv_def)
  show "in_flight cfg1 + repaid_pages m = in_flight cfg"
    using in_flight_update [OF l, of r] r(2) by (simp add: cfg1 ring_pages_def)
  show "Suc (pump_work idx sm cfg1) = pump_work idx sm cfg" using l r(2) by (simp add: cfg1 pump_work_def)
  have "length (ring_contents (inboxes cfg1 ! i)) \<le> length (ring_contents (inboxes cfg ! i))" for i
    using l r(2) by (cases "i = idx") (simp_all add: cfg1)
  then show "roomy sm cfg \<longrightarrow> roomy sm cfg1"
    unfolding roomy_def cfg1 by (auto intro: order_trans [OF add_right_mono])
qed

lemma pump_deliver:
  assumes wf: "core_wf sm" "rings_wf cfg" "length (inboxes cfg) = MAX_CORES" "idx < MAX_CORES"
    and ev: "msg_event m = Some ev" and total: "pages_held sm cfg + repaid_pages m < 2 ^ 64"
  shows "\<exists>sm1 cmds cfg1. core_step ev sm = Some (sm1, cmds) \<and> cfg1 = fold (exec_command idx) cmds cfg
    \<and> pump_inv idx sm1 cfg1 \<and> pump_work idx sm1 cfg1 \<le> pump_work idx sm cfg
    \<and> pages_held sm1 cfg1 \<le> pages_held sm cfg + repaid_pages m
    \<and> (roomy sm cfg \<longrightarrow> roomy sm1 cfg1 \<and> pages_held sm1 cfg1 = pages_held sm cfg + repaid_pages m)"
proof -
  have "unat (core_free sm) + repaid_pages m < 2 ^ 64" using total by (simp add: pages_held_def)
  then obtain sm1 cmds where st: "core_step ev sm = Some (sm1, cmds)" "core_wf sm1"
    "debt_range_count sm1 + length (filter (\<lambda>c. \<exists>k r. c = Repay k r) cmds) = debt_range_count sm"
    "unat (core_free sm1) + repay_total cmds = unat (core_free sm) + repaid_pages m"
    "\<forall>cmd \<in> set cmds. (\<exists>k r. cmd = Repay k r \<and> unat k < MAX_CORES) \<or> (\<exists>k r. cmd = Accept k r)"
    by (rule step_pages [OF wf(1) ev])
  define cs where "cs = filter (\<lambda>c. \<exists>k r. c = Repay k r) cmds"
  define cfg1 where "cfg1 = fold (exec_command idx) cs cfg"
  have fold_eq: "fold (exec_command idx) cmds cfg = cfg1" and tot: "repay_total cs = repay_total cmds"
    using exec_only_repays [OF st(5)] by (simp_all add: cfg1_def cs_def)
  have "\<forall>cmd \<in> set cs. \<exists>k r. cmd = Repay k r \<and> unat k < length (inboxes cfg)"
    using st(5) wf(3) by (auto simp: cs_def)
  note ex = exec_commands_spec [OF wf(2) this, of idx]
  have deb: "debt_range_count sm1 + length cs = debt_range_count sm" using st(3) by (simp add: cs_def)
  have len: "length (ring_contents (inboxes cfg1 ! i)) \<le> length (ring_contents (inboxes cfg ! i)) + length cs" for i
    using ex [of i] by (simp add: cfg1_def)
  have held: "pages_held sm1 cfg1 \<le> pages_held sm cfg + repaid_pages m"
    using ex [of 0] st(4) tot unfolding pages_held_def cfg1_def by linarith
  have "pump_inv idx sm1 cfg1"
    using st(2) ex wf held total by (simp add: pump_inv_def cfg1_def)
  moreover have "pump_work idx sm1 cfg1 \<le> pump_work idx sm cfg"
    using len [of idx] deb by (simp add: pump_work_def)
  moreover have "roomy sm1 cfg1 \<and> pages_held sm1 cfg1 = pages_held sm cfg + repaid_pages m" if "roomy sm cfg"
  proof
    have "length (ring_contents (inboxes cfg1 ! i)) + debt_range_count sm1 \<le> RING_CAP"
      if "i < length (inboxes cfg1)" for i
    proof -
      have "length (ring_contents (inboxes cfg ! i)) + debt_range_count sm \<le> RING_CAP"
        using \<open>roomy sm cfg\<close> that ex by (simp add: roomy_def cfg1_def)
      with len [of i] deb show ?thesis by linarith
    qed
    then show "roomy sm1 cfg1" by (simp add: roomy_def)
    have "room_for cs cfg"
      using \<open>roomy sm cfg\<close> deb by (fastforce simp: roomy_def room_for_def in_set_conv_nth)
    then show "pages_held sm1 cfg1 = pages_held sm cfg + repaid_pages m"
      using ex st(4) tot by (simp add: pages_held_def cfg1_def)
  qed
  ultimately show ?thesis using st(1) held fold_eq by blast
qed

lemma pump_spec:
  assumes "pump_inv idx sm cfg" "pump_work idx sm cfg < fuel"
  shows "\<exists>sm' cfg'. pump fuel idx sm cfg = Some (True, sm', cfg') \<and> pump_inv idx sm' cfg'
    \<and> ring_contents (inboxes cfg' ! idx) = [] \<and> pages_held sm' cfg' \<le> pages_held sm cfg
    \<and> (roomy sm cfg \<longrightarrow> pages_held sm' cfg' = pages_held sm cfg)"
  using assms
proof (induction fuel arbitrary: sm cfg)
  case (Suc fuel)
  have l: "idx < length (inboxes cfg)" using Suc.prems(1) by (simp add: pump_inv_def)
  then have w: "ring_wf (inboxes cfg ! idx)" using Suc.prems(1) by (simp add: pump_inv_def rings_wf_def)
  obtain x r where p: "ring_pop (inboxes cfg ! idx) = (x, r)" by (cases "ring_pop (inboxes cfg ! idx)")
  show ?case
  proof (cases x)
    case None
    with ring_fifo.get_cases [OF w p] have "ring_contents (inboxes cfg ! idx) = []" by blast
    with None p l Suc.prems(1) show ?thesis by simp
  next
    case (Some m)
    define cfg1 where "cfg1 = cfg\<lparr>inboxes := (inboxes cfg)[idx := r]\<rparr>"
    note pp = pump_pop [OF Suc.prems(1) p [unfolded Some] cfg1_def]
    have wf: "core_wf sm" "idx < MAX_CORES" using Suc.prems(1) by (simp_all add: pump_inv_def)
    have held1: "pages_held sm cfg1 + repaid_pages m = pages_held sm cfg" using pp(3) by (simp add: pages_held_def)
    show ?thesis
    proof (cases "msg_event m")
      case None
      then have "repaid_pages m = 0" by (simp add: msg_event_def repaid_pages_def split: if_splits)
      then have h: "pages_held sm cfg1 = pages_held sm cfg" using held1 by simp
      have "pump_inv idx sm cfg1" using pp(1,2) wf Suc.prems(1) h by (simp add: pump_inv_def)
      moreover have "pump_work idx sm cfg1 < fuel" using pp(4) Suc.prems(2) by simp
      moreover have "pump (Suc fuel) idx sm cfg = pump fuel idx sm cfg1"
        using p l Some None by (simp add: cfg1_def Let_def)
      ultimately show ?thesis using Suc.IH [of sm cfg1] pp(5) h by metis
    next
      case (Some ev)
      have "pages_held sm cfg1 + repaid_pages m < 2 ^ 64" using held1 Suc.prems(1) by (simp add: pump_inv_def)
      from pump_deliver [OF wf(1) pp(1,2) wf(2) Some this] obtain sm2 cmds cfg2 where
        d: "core_step ev sm = Some (sm2, cmds)" "cfg2 = fold (exec_command idx) cmds cfg1"
          "pump_inv idx sm2 cfg2" "pump_work idx sm2 cfg2 \<le> pump_work idx sm cfg1"
          "pages_held sm2 cfg2 \<le> pages_held sm cfg"
          "roomy sm cfg1 \<longrightarrow> roomy sm2 cfg2 \<and> pages_held sm2 cfg2 = pages_held sm cfg"
        unfolding held1 by blast
      have "pump_work idx sm2 cfg2 < fuel" using d(4) pp(4) Suc.prems(2) by simp
      moreover have "pump (Suc fuel) idx sm cfg = pump fuel idx sm2 cfg2"
        using p l \<open>x = Some m\<close> Some d(1,2) by (simp add: cfg1_def Let_def)
      ultimately show ?thesis using Suc.IH [OF d(3)] d(5,6) pp(5) by (metis order_trans)
    qed
  qed
qed simp

section \<open>Properties\<close>



text \<open>
  A repayment to a creditor whose inbox is full is dropped: the debtor's pool has already
  shrunk, and the pages appear in no inbox.
\<close>

lemma repayment_lost_when_full:
  assumes "unat k < length (inboxes cfg)" "ring_wf (inboxes cfg ! unat k)"
    and "length (ring_contents (inboxes cfg ! unat k)) = RING_CAP"
  shows "exec_command idx (Repay k r) cfg = cfg"
proof -
  let ?m = "\<lparr>msg_kind = MSG_REPAID, msg_from = of_nat idx, msg_v0 = rbase r, msg_v1 = rlen r\<rparr>"
  obtain b q where p: "push_msg ?m (inboxes cfg ! unat k) = (b, q)"
    by (cases "push_msg ?m (inboxes cfg ! unat k)")
  with ring_fifo.put_full [OF assms(2) _ p] assms(3) have "q = inboxes cfg ! unat k" by simp
  with p assms(1) show ?thesis by (simp add: exec_command_def push_msg_def)
qed

end
