(* ===== verification/Vfs_Path.thy ===== *)
theory Vfs_Path
  imports Akuma_Prelude
begin

text \<open>
  Path manipulation, \<open>crates/akuma-vfs/src/path.rs\<close>, and the string functions of the Rust
  standard library it uses. Strings are lists of characters; the separator is a single ASCII
  character, so splitting characters and splitting the UTF-8 bytes agree.
\<close>

section \<open>String functions\<close>

abbreviation slash :: char where "slash \<equiv> CHR ''/''"

text \<open>\<open>str::split\<close> on one character: always at least one piece.\<close>

fun str_split :: "char \<Rightarrow> string \<Rightarrow> string list" where
  "str_split c [] = [[]]"
| "str_split c (x # xs) =
     (if x = c then [] # str_split c xs
      else case str_split c xs of [] \<Rightarrow> [[x]] | y # ys \<Rightarrow> (x # y) # ys)"

definition trim_start_matches :: "char \<Rightarrow> string \<Rightarrow> string" where
  "trim_start_matches c s = dropWhile (\<lambda>x. x = c) s"

definition trim_end_matches :: "char \<Rightarrow> string \<Rightarrow> string" where
  "trim_end_matches c s = rev (dropWhile (\<lambda>x. x = c) (rev s))"

definition trim_matches :: "char \<Rightarrow> string \<Rightarrow> string" where
  "trim_matches c s = trim_end_matches c (trim_start_matches c s)"

text \<open>\<open>str::rfind\<close>: the last position of the character.\<close>

definition rfind :: "char \<Rightarrow> string \<Rightarrow> nat option" where
  "rfind c s = (case position (\<lambda>x. x = c) (rev s) of None \<Rightarrow> None | Some i \<Rightarrow> Some (length s - 1 - i))"

section \<open>Paths\<close>

fun canon_step :: "string \<Rightarrow> string list \<Rightarrow> string list" where
  "canon_step component components =
     (if component = [] \<or> component = ''.'' then components
      else if component = ''..'' then butlast components
      else components @ [component])"

definition join_components :: "string list \<Rightarrow> string" where
  "join_components components = concat (map (\<lambda>c. slash # c) components)"

definition canonicalize_path :: "string \<Rightarrow> string" where
  "canonicalize_path path =
     (let components = fold canon_step (str_split slash path) [] in
      if components = [] then [slash] else join_components components)"

definition resolve_path :: "string \<Rightarrow> string \<Rightarrow> string" where
  "resolve_path base_cwd path =
     (if path \<noteq> [] \<and> hd path = slash then canonicalize_path path
      else let full_path = (if base_cwd = [slash] then slash # path else base_cwd @ [slash] @ path)
           in canonicalize_path full_path)"

definition split_path :: "string \<Rightarrow> string \<times> string" where
  "split_path path0 =
     (let path = trim_end_matches slash (trim_start_matches slash path0) in
      case rfind slash path of
        None \<Rightarrow> ([], path)
      | Some idx \<Rightarrow> (take idx path, drop (idx + 1) path))"

definition path_components :: "string \<Rightarrow> string list" where
  "path_components path = filter (\<lambda>s. s \<noteq> []) (str_split slash (trim_matches slash path))"

section \<open>Splitting and joining\<close>

lemma str_split_nonempty [simp]: "str_split c s \<noteq> []"
  by (induction s) (auto split: list.splits)

lemma str_split_no_sep: "c \<notin> set s \<Longrightarrow> str_split c s = [s]"
  by (induction s) auto

lemma str_split_append: "c \<notin> set s \<Longrightarrow> str_split c (s @ c # t) = s # str_split c t"
  by (induction s) auto

lemma str_split_pieces: "p \<in> set (str_split c s) \<Longrightarrow> c \<notin> set p"
proof (induction s arbitrary: p)
  case (Cons x s)
  show ?case
  proof (cases "x = c")
    case False
    obtain y ys where y: "str_split c s = y # ys" using str_split_nonempty by (meson neq_Nil_conv)
    with Cons False show ?thesis by auto
  qed (use Cons in auto)
qed simp

text \<open>A component: what can stand between two separators.\<close>

definition component :: "string \<Rightarrow> bool" where
  "component s \<longleftrightarrow> s \<noteq> [] \<and> slash \<notin> set s"

definition plain :: "string \<Rightarrow> bool" where
  "plain s \<longleftrightarrow> component s \<and> s \<noteq> ''.'' \<and> s \<noteq> ''..''"

lemma str_split_join: "\<forall>c \<in> set cs. component c \<Longrightarrow> str_split slash (join_components cs) = [] # cs"
proof (induction cs)
  case (Cons c cs)
  have "slash \<notin> set c" using Cons.prems by (simp add: component_def)
  then have "str_split slash (c @ join_components cs) = c # cs"
  proof (cases cs)
    case Nil
    with \<open>slash \<notin> set c\<close> show ?thesis by (simp add: join_components_def str_split_no_sep)
  next
    case (Cons d ds)
    then have e: "join_components cs = slash # (d @ join_components ds)" by (simp add: join_components_def)
    have "str_split slash (join_components cs) = [] # cs" using Cons.IH Cons.prems by simp
    then have "str_split slash (d @ join_components ds) = cs" using e by simp
    with \<open>slash \<notin> set c\<close> e show ?thesis by (simp add: str_split_append)
  qed
  then show ?case by (simp add: join_components_def)
qed (simp add: join_components_def)

lemma trim_empty_pieces:
  "filter (\<lambda>s. s \<noteq> []) (str_split c (trim_matches c s)) = filter (\<lambda>s. s \<noteq> []) (str_split c s)"
proof -
  have start: "filter (\<lambda>s. s \<noteq> []) (str_split c (dropWhile (\<lambda>x. x = c) t))
      = filter (\<lambda>s. s \<noteq> []) (str_split c t)" for t
    by (induction t) auto
  have snoc: "str_split c (t @ [c]) = str_split c t @ [[]]" for t
    by (induction t) (auto split: list.splits)
  have "filter (\<lambda>s. s \<noteq> []) (str_split c (rev (dropWhile (\<lambda>x. x = c) u)))
      = filter (\<lambda>s. s \<noteq> []) (str_split c (rev u))" for u
    by (induction u) (auto simp: snoc)
  from this [of "rev (dropWhile (\<lambda>x. x = c) s)"] start show ?thesis
    by (simp add: trim_matches_def trim_end_matches_def trim_start_matches_def)
qed

lemma path_components_eq: "path_components p = filter (\<lambda>s. s \<noteq> []) (str_split slash p)"
  by (simp add: path_components_def trim_empty_pieces)

lemma path_components_ok: "c \<in> set (path_components p) \<Longrightarrow> component c"
  by (auto simp: path_components_eq component_def dest: str_split_pieces)

lemma path_components_join: "\<forall>c \<in> set cs. component c \<Longrightarrow> path_components (join_components cs) = cs"
  by (auto simp: path_components_eq str_split_join component_def intro!: filter_True)

section \<open>Resolution\<close>

text \<open>What a sequence of components means: walk it with a stack.\<close>

definition walk :: "string list \<Rightarrow> string list \<Rightarrow> string list" where
  "walk comps stack = fold canon_step comps stack"

lemma walk_plain: "\<forall>c \<in> set cs. plain c \<Longrightarrow> walk cs stack = stack @ cs"
  by (induction cs arbitrary: stack) (auto simp: walk_def plain_def component_def)

lemma walk_keeps_plain:
  "\<forall>c \<in> set stack. plain c \<Longrightarrow> \<forall>c \<in> set comps. slash \<notin> set c \<Longrightarrow> \<forall>c \<in> set (walk comps stack). plain c"
proof (induction comps arbitrary: stack)
  case (Cons c comps)
  have "\<forall>x \<in> set (canon_step c stack). plain x"
    using Cons.prems by (auto simp: plain_def component_def dest: in_set_butlastD)
  with Cons.IH Cons.prems(2) show ?case by (simp add: walk_def del: canon_step.simps)
qed (simp add: walk_def)

lemma walk_filter: "walk (filter (\<lambda>s. s \<noteq> []) comps) stack = walk comps stack"
  by (induction comps arbitrary: stack) (auto simp: walk_def)

lemma canonicalize_components:
  "path_components (canonicalize_path p) = walk (path_components p) []"
proof -
  let ?w = "walk (str_split slash p) []"
  have pl: "\<forall>c \<in> set ?w. plain c" by (rule walk_keeps_plain) (auto dest: str_split_pieces)
  then have "path_components (join_components ?w) = ?w"
    by (intro path_components_join) (simp add: plain_def)
  moreover have "path_components [slash] = []" by (simp add: path_components_eq)
  moreover have "walk (path_components p) [] = ?w" by (simp add: path_components_eq walk_filter)
  ultimately show ?thesis by (simp add: canonicalize_path_def walk_def Let_def)
qed

lemma canonical_plain: "\<forall>c \<in> set (path_components (canonicalize_path p)). plain c"
  unfolding canonicalize_components
  by (rule walk_keeps_plain) (auto dest: path_components_ok simp: component_def)

lemma canonicalize_join:
  "canonicalize_path p = (if walk (path_components p) [] = [] then [slash]
     else join_components (walk (path_components p) []))"
  by (simp add: canonicalize_path_def Let_def walk_def path_components_eq
      walk_filter [unfolded walk_def])

lemma str_split_append_sep: "str_split c (a @ c # b) = str_split c a @ str_split c b"
  by (induction a) (auto split: list.splits)

lemma path_components_append: "path_components (a @ slash # b) = path_components a @ path_components b"
  by (simp add: path_components_eq str_split_append_sep)

lemma walk_append: "walk (a @ b) stack = walk b (walk a stack)"
  by (simp add: walk_def)

section \<open>Parent and file name\<close>

lemma rfind_Some:
  assumes "rfind c s = Some i"
  shows "s = take i s @ c # drop (i + 1) s" "c \<notin> set (drop (i + 1) s)"
proof -
  from assms obtain j where j: "position (\<lambda>x. x = c) (rev s) = Some j" and i: "i = length s - 1 - j"
    by (auto simp: rfind_def split: option.splits)
  note p = position_SomeD [OF j]
  have lt: "i < length s" "j < length s" using p i by auto
  have "s ! i = c" using p lt i by (simp add: rev_nth)
  with id_take_nth_drop [OF lt(1)] show "s = take i s @ c # drop (i + 1) s" by simp
  show "c \<notin> set (drop (i + 1) s)"
  proof
    assume "c \<in> set (drop (i + 1) s)"
    then obtain k where k: "k < length s - (i + 1)" "s ! (i + 1 + k) = c" by (auto simp: in_set_conv_nth)
    let ?m = "length s - 1 - (i + 1 + k)"
    have "?m < j" "?m < length s" using k lt i by linarith+
    moreover have "rev s ! ?m = c" using k lt by (simp add: rev_nth)
    ultimately show False using p by auto
  qed
qed

lemma rfind_None: "rfind c s = None \<Longrightarrow> c \<notin> set s"
  by (auto simp: rfind_def position_None split: option.splits)

lemma trim_matches_last: "trim_matches c s \<noteq> [] \<Longrightarrow> last (trim_matches c s) \<noteq> c"
  using hd_dropWhile [of "\<lambda>x. x = c" "rev (trim_start_matches c s)"]
  by (simp add: trim_matches_def trim_end_matches_def last_rev del: dropWhile_eq_Nil_conv)

text \<open>The two halves of a path with at least one component.\<close>

lemma rsplit_components:
  assumes t: "t = trim_matches slash p"
  shows "case rfind slash t of
      None \<Rightarrow> path_components p = (if t = [] then [] else [t])
    | Some i \<Rightarrow> drop (i + 1) t \<noteq> [] \<and> path_components p = path_components (take i t) @ [drop (i + 1) t]"
proof (cases "rfind slash t")
  case None
  then have "str_split slash t = [t]" by (simp add: rfind_None str_split_no_sep)
  with None show ?thesis by (simp add: path_components_def t)
next
  case (Some i)
  note r = rfind_Some [OF Some]
  have ne: "drop (i + 1) t \<noteq> []"
  proof
    assume "drop (i + 1) t = []"
    then have "t = take i t @ [slash]" using r(1) by simp
    then have "t \<noteq> []" "last t = slash" by (metis Nil_is_append_conv list.distinct(1), metis last_snoc)
    with trim_matches_last [of slash p] show False by (simp add: t)
  qed
  have "path_components p = path_components t" by (simp add: path_components_eq t trim_empty_pieces)
  also have "\<dots> = path_components (take i t) @ path_components (drop (i + 1) t)"
    by (subst r(1)) (simp only: path_components_append)
  also have "path_components (drop (i + 1) t) = [drop (i + 1) t]"
    using r(2) ne by (simp add: path_components_eq str_split_no_sep)
  finally show ?thesis using Some ne by simp
qed

section \<open>Properties\<close>

text \<open>
  Canonicalisation yields a normal form: the result is absolute, none of its components is
  empty, \<open>.\<close> or \<open>..\<close>, applying it again changes nothing, and two paths have the same canonical
  form exactly when walking their components from the root leads to the same place.
\<close>

theorem canonicalize_normal_form:
  "hd (canonicalize_path p) = slash
   \<and> list_all plain (path_components (canonicalize_path p))
   \<and> canonicalize_path (canonicalize_path p) = canonicalize_path p
   \<and> (canonicalize_path p = canonicalize_path q \<longleftrightarrow> walk (path_components p) [] = walk (path_components q) [])"
proof -
  have hd: "hd (canonicalize_path p) = slash"
    by (subst canonicalize_join) (auto simp: join_components_def neq_Nil_conv)
  have inj: "canonicalize_path x = canonicalize_path y"
    if "walk (path_components x) [] = walk (path_components y) []" for x y
    using that canonicalize_join [of x] canonicalize_join [of y] by simp
  have "walk (path_components (canonicalize_path p)) [] = walk (path_components p) []"
    using walk_plain [OF canonical_plain [of p], of "[]"] by (simp add: canonicalize_components)
  then have "canonicalize_path (canonicalize_path p) = canonicalize_path p" by (rule inj)
  moreover have "canonicalize_path p = canonicalize_path q
      \<longleftrightarrow> walk (path_components p) [] = walk (path_components q) []"
    using inj [of p q] canonicalize_components [of p] canonicalize_components [of q] by metis
  moreover have "list_all plain (path_components (canonicalize_path p))"
    using canonical_plain [of p] by (simp add: list_all_iff)
  ultimately show ?thesis using hd by blast
qed

text \<open>
  Resolving a path against a working directory follows the components: an absolute path
  ignores the directory, a relative one continues the walk where the directory ends, and
  \<open>..\<close> never leads above the root.
\<close>

theorem resolve_path_walks:
  "path_components (resolve_path cwd path) =
     (if path \<noteq> [] \<and> hd path = slash then walk (path_components path) []
      else walk (path_components path) (walk (path_components cwd) []))
   \<and> list_all plain (path_components (resolve_path cwd path))"
proof -
  have root: "path_components (slash # path) = path_components path" by (simp add: path_components_eq)
  have "path_components [slash] = []" "path_components [] = []" by (simp_all add: path_components_eq)
  then show ?thesis
    using canonical_plain
    by (auto simp: resolve_path_def Let_def canonicalize_components root path_components_append
        walk_append list_all_iff) (auto simp: walk_def)
qed

end
