(* ===== verification/Ordered_Map.thy ===== *)
theory Ordered_Map
  imports Akuma_Prelude
begin

text \<open>
  The standard library's \<open>BTreeMap\<close> and \<open>BTreeSet\<close>, which the kernel uses for directories, descriptor
  tables and the tables of its objects: association lists, and lists, kept in key order.
\<close>

section \<open>Maps\<close>

type_synonym ('k, 'v) btree = "('k \<times> 'v) list"

fun bt_insert :: "'k::linorder \<Rightarrow> 'v \<Rightarrow> ('k, 'v) btree \<Rightarrow> ('k, 'v) btree" where
  "bt_insert k v [] = [(k, v)]"
| "bt_insert k v ((k', v') # m) =
     (if k < k' then (k, v) # (k', v') # m
      else if k = k' then (k, v) # m else (k', v') # bt_insert k v m)"

definition bt_remove :: "'k::linorder \<Rightarrow> ('k, 'v) btree \<Rightarrow> ('k, 'v) btree" where
  "bt_remove k m = filter (\<lambda>(k', _). k' \<noteq> k) m"

definition bt_wf :: "('k::linorder, 'v) btree \<Rightarrow> bool" where
  "bt_wf m \<longleftrightarrow> sorted_wrt (<) (map fst m)"

section \<open>Facts on maps\<close>

lemma map_of_bt_insert [simp]: "map_of (bt_insert k v m) = (map_of m)(k \<mapsto> v)"
  by (induction k v m rule: bt_insert.induct) (auto simp: fun_eq_iff)

lemma map_of_bt_remove [simp]: "map_of (bt_remove k m) = (map_of m)(k := None)"
  by (induction m) (auto simp: bt_remove_def fun_eq_iff)

lemma keys_bt_insert: "set (map fst (bt_insert k v m)) = insert k (set (map fst m))"
  by (induction k v m rule: bt_insert.induct) auto

lemma values_bt_insert: "set (bt_insert k v m) \<subseteq> insert (k, v) (set m)"
  by (induction k v m rule: bt_insert.induct) auto

lemma bt_wf_insert: "bt_wf m \<Longrightarrow> bt_wf (bt_insert k v m)"
proof (induction k v m rule: bt_insert.induct)
  case (2 k v k' v' m)
  have keys: "x \<in> set (map fst (bt_insert k v m)) \<Longrightarrow> x = k \<or> x \<in> set (map fst m)" for x
    by (simp only: keys_bt_insert) simp
  show ?case
  proof (cases "k < k'")
    case True
    with "2.prems" show ?thesis by (auto simp: bt_wf_def)
  next
    case False
    with 2 keys show ?thesis by (fastforce simp: bt_wf_def)
  qed
qed (simp add: bt_wf_def)

lemma bt_wf_remove: "bt_wf m \<Longrightarrow> bt_wf (bt_remove k m)"
  unfolding bt_wf_def bt_remove_def by (induction m) auto

lemma bt_insert_same: "bt_wf m \<Longrightarrow> map_of m k = Some v \<Longrightarrow> bt_insert k v m = m"
proof (induction k v m rule: bt_insert.induct)
  case (2 k v k' v' m)
  show ?case
  proof (cases "k = k'")
    case False
    then have m: "map_of m k = Some v" using "2.prems"(2) by simp
    then have "k \<in> set (map fst m)" by (force dest: map_of_SomeD)
    then have "k' < k" "bt_wf m" using "2.prems"(1) by (auto simp: bt_wf_def)
    with False m "2.IH" show ?thesis by auto
  qed (use "2.prems" in simp)
qed simp

lemma bt_insert_twice: "bt_insert k v (bt_insert k w m) = bt_insert k v m"
  by (induction k w m rule: bt_insert.induct) auto

lemma bt_insert_before: "\<forall>x \<in> set (map fst m). k < x \<Longrightarrow> bt_insert k v m = (k, v) # m"
  by (cases m) auto

lemma bt_insert_removed: "bt_wf m \<Longrightarrow> map_of m k = Some v \<Longrightarrow> bt_insert k v (bt_remove k m) = m"
proof (induction m)
  case (Cons x m)
  obtain k' v' where x: "x = (k', v')" by (cases x)
  have gt: "\<forall>y \<in> set (map fst m). k' < y" and wf: "bt_wf m" using Cons.prems(1) x by (auto simp: bt_wf_def)
  show ?case
  proof (cases "k = k'")
    case True
    have "bt_remove k m = m" using gt True by (auto simp: bt_remove_def intro!: filter_True)
    then have "bt_remove k (x # m) = m" using x True by (simp add: bt_remove_def)
    with True Cons.prems(2) x gt show ?thesis by (simp add: bt_insert_before)
  next
    case False
    then have m: "map_of m k = Some v" using Cons.prems(2) x by simp
    then have "k' < k" using gt by (force dest: map_of_SomeD)
    with False x Cons.IH [OF wf m] show ?thesis by (auto simp: bt_remove_def)
  qed
qed simp

lemma sum_bt_insert:
  fixes f :: "'v \<Rightarrow> nat"
  assumes "bt_wf m"
  shows "sum_list (map (\<lambda>(_, x). f x) (bt_insert k v m)) + (case map_of m k of None \<Rightarrow> 0 | Some w \<Rightarrow> f w)
    = sum_list (map (\<lambda>(_, x). f x) m) + f v"
  using assms
proof (induction k v m rule: bt_insert.induct)
  case (2 k v k' v' m)
  have wf: "bt_wf m" and gt: "\<forall>y \<in> set m. k' < fst y" using "2.prems" by (auto simp: bt_wf_def)
  show ?case
  proof (cases "k < k'")
    case True
    have "k \<notin> fst ` set m" using gt True by auto
    then have "map_of m k = None" by (simp add: map_of_eq_None_iff)
    with True show ?thesis by auto
  next
    case False
    with "2.IH" [OF _ _ wf] show ?thesis by (cases "k = k'") auto
  qed
qed simp

section \<open>Sets\<close>

text \<open>A \<open>BTreeSet\<close> is its ascending list of elements.\<close>

definition bs_insert :: "'a::linorder \<Rightarrow> 'a list \<Rightarrow> 'a list" where
  "bs_insert x xs = insort_insert x xs"

definition bs_remove :: "'a::linorder \<Rightarrow> 'a list \<Rightarrow> 'a list" where
  "bs_remove x xs = filter (\<lambda>y. y \<noteq> x) xs"

definition bs_wf :: "'a::linorder list \<Rightarrow> bool" where
  "bs_wf xs \<longleftrightarrow> sorted xs \<and> distinct xs"

lemma set_bs_insert [simp]: "set (bs_insert x xs) = insert x (set xs)"
  by (simp add: bs_insert_def set_insort_insert)

lemma set_bs_remove [simp]: "set (bs_remove x xs) = set xs - {x}"
  by (auto simp: bs_remove_def)

lemma bs_wf_insert [wf_intros]: "bs_wf xs \<Longrightarrow> bs_wf (bs_insert x xs)"
  by (simp add: bs_wf_def bs_insert_def sorted_insort_insert distinct_insort_insert)

lemma bs_wf_remove [wf_intros]: "bs_wf xs \<Longrightarrow> bs_wf (bs_remove x xs)"
  by (simp add: bs_wf_def bs_remove_def sorted_wrt_filter)

lemma bs_wf_Nil [wf_intros]: "bs_wf []"
  by (simp add: bs_wf_def)

end
