(* ===== verification/Vfs_Memfs.thy ===== *)
theory Vfs_Memfs
  imports Vfs_Path Ordered_Map "HOL-Library.List_Lexorder" "HOL-Library.Char_ord" "HOL-Library.Sublist"
begin

text \<open>
  The in-memory filesystem, \<open>crates/akuma-vfs/src/memfs.rs\<close>, with the error and metadata types of
  \<open>types.rs\<close>. A directory's \<open>BTreeMap\<close> is an association list in key order. A mutable borrow
  returned by \<open>navigate_parent\<close> is modelled by the function that is applied to the children
  map it points to. Sizes are natural numbers: file contents live in memory, so their sum fits
  \<open>u64\<close>. The time callback's current value is the field \<open>mem_now\<close>.
\<close>

section \<open>Types\<close>

datatype fs_error =
    BlockDeviceNotInitialized | NotInitialized | NotFound | PermissionDenied | AlreadyExists
  | NotADirectory | NotAFile | DirectoryNotEmpty | IoError | InvalidPath | NoSpace
  | TooManyOpenFiles | InvalidHandle | Corrupt | EndOfFile | NoFilesystem | Internal | ReadOnly
  | NotSupported

record dir_entry =
  de_name :: string
  de_is_dir :: bool
  de_is_symlink :: bool
  de_size :: nat

record metadata =
  md_is_dir :: bool
  md_size :: nat
  md_inode :: u64
  md_mode :: u32
  md_created :: "u64 option"
  md_modified :: "u64 option"
  md_accessed :: "u64 option"

record fs_stats =
  block_size :: nat
  total_blocks :: nat
  free_blocks :: nat

definition fs_used_bytes :: "fs_stats \<Rightarrow> nat" where
  "fs_used_bytes st = total_blocks st * block_size st - free_blocks st * block_size st"

section \<open>The tree\<close>

datatype fs_node =
    File "u8 list" u64 u64
  | Directory "(string \<times> fs_node) list" u64

definition new_directory :: "u64 \<Rightarrow> fs_node" where
  "new_directory now = Directory [] now"

fun is_dir :: "fs_node \<Rightarrow> bool" where
  "is_dir (Directory _ _) \<longleftrightarrow> True"
| "is_dir (File _ _ _) \<longleftrightarrow> False"

record memfs =
  mem_root :: fs_node
  max_size :: nat
  mem_now :: u64

definition memfs_new :: memfs where
  "memfs_new = \<lparr>mem_root = new_directory 0, max_size = 0, mem_now = 0\<rparr>"

definition with_max_size :: "nat \<Rightarrow> memfs" where
  "with_max_size max_bytes = \<lparr>mem_root = new_directory 0, max_size = max_bytes, mem_now = 0\<rparr>"

definition set_time_fn :: "u64 \<Rightarrow> memfs \<Rightarrow> memfs" where
  "set_time_fn t fs = fs\<lparr>mem_now := t\<rparr>"

text \<open>FNV-1a over the path bytes.\<close>

definition path_inode :: "string \<Rightarrow> u64" where
  "path_inode path = fold (\<lambda>b h. (h XOR of_nat (of_char b)) * 0x100000001b3) path 0xcbf29ce484222325"

fun navigate_comps :: "fs_node \<Rightarrow> string list \<Rightarrow> fs_error + fs_node" where
  "navigate_comps node [] = Inr node"
| "navigate_comps (Directory children _) (c # cs) =
     (case map_of children c of None \<Rightarrow> Inl NotFound | Some n \<Rightarrow> navigate_comps n cs)"
| "navigate_comps (File _ _ _) (c # cs) = Inl NotADirectory"

definition navigate :: "fs_node \<Rightarrow> string \<Rightarrow> fs_error + fs_node" where
  "navigate node path = navigate_comps node (path_components path)"

text \<open>Where \<open>navigate_parent\<close> looks: the components of the parent and the file name.\<close>

definition parent_and_name :: "string \<Rightarrow> fs_error + (string list \<times> string)" where
  "parent_and_name path0 =
     (let path = trim_matches slash path0;
          (parent_path, filename) = (case rfind slash path of
             None \<Rightarrow> ([], path) | Some idx \<Rightarrow> (take idx path, drop (idx + 1) path))
      in if filename = [] then Inl InvalidPath
         else Inr (filter (\<lambda>s. s \<noteq> []) (str_split slash parent_path), filename))"

text \<open>Walk to a directory and apply \<open>f\<close> to its children in place.\<close>

fun at_dir :: "string list \<Rightarrow> ((string, fs_node) btree \<Rightarrow> fs_error + ('r \<times> (string, fs_node) btree)) \<Rightarrow> fs_node
    \<Rightarrow> fs_error + ('r \<times> fs_node)" where
  "at_dir [] f (Directory children t) =
     (case f children of Inl e \<Rightarrow> Inl e | Inr (r, children') \<Rightarrow> Inr (r, Directory children' t))"
| "at_dir [] f (File _ _ _) = Inl NotADirectory"
| "at_dir (c # cs) f (Directory children t) =
     (case map_of children c of
        None \<Rightarrow> Inl NotFound
      | Some n \<Rightarrow>
          (case at_dir cs f n of
             Inl e \<Rightarrow> Inl e
           | Inr (r, n') \<Rightarrow> Inr (r, Directory (bt_insert c n' children) t)))"
| "at_dir (c # cs) f (File _ _ _) = Inl NotADirectory"

definition navigate_parent ::
    "string \<Rightarrow> (string \<Rightarrow> (string, fs_node) btree \<Rightarrow> fs_error + ('r \<times> (string, fs_node) btree)) \<Rightarrow> fs_node
     \<Rightarrow> fs_error + ('r \<times> fs_node)" where
  "navigate_parent path f root =
     (case parent_and_name path of
        Inl e \<Rightarrow> Inl e
      | Inr (comps, filename) \<Rightarrow> at_dir comps (f filename) root)"

fun total_size :: "fs_node \<Rightarrow> nat" where
  "total_size (File data _ _) = length data"
| "total_size (Directory children _) = sum_list (map (\<lambda>(_, n). total_size n) children)"

text \<open>Run a mutation of the root: an error leaves the filesystem as it was.\<close>

definition on_root :: "(fs_node \<Rightarrow> fs_error + ('r \<times> fs_node)) \<Rightarrow> memfs \<Rightarrow> (fs_error + 'r) \<times> memfs" where
  "on_root f fs =
     (case f (mem_root fs) of Inl e \<Rightarrow> (Inl e, fs) | Inr (r, root) \<Rightarrow> (Inr r, fs\<lparr>mem_root := root\<rparr>))"

section \<open>Operations\<close>

definition read_dir :: "memfs \<Rightarrow> string \<Rightarrow> fs_error + dir_entry list" where
  "read_dir fs path =
     (case navigate (mem_root fs) path of
        Inl e \<Rightarrow> Inl e
      | Inr (Directory children _) \<Rightarrow>
          Inr (map (\<lambda>(name, child). \<lparr>de_name = name, de_is_dir = is_dir child, de_is_symlink = False,
                 de_size = (case child of File data _ _ \<Rightarrow> length data | Directory _ _ \<Rightarrow> 0)\<rparr>) children)
      | Inr (File _ _ _) \<Rightarrow> Inl NotADirectory)"

definition read_file :: "memfs \<Rightarrow> string \<Rightarrow> fs_error + u8 list" where
  "read_file fs path =
     (case navigate (mem_root fs) path of
        Inl e \<Rightarrow> Inl e
      | Inr (File data _ _) \<Rightarrow> Inr data
      | Inr (Directory _ _) \<Rightarrow> Inl NotAFile)"

text \<open>The bytes copied into a buffer of length \<open>n\<close>.\<close>

definition read_at :: "memfs \<Rightarrow> string \<Rightarrow> nat \<Rightarrow> nat \<Rightarrow> fs_error + u8 list" where
  "read_at fs path offset buf_len =
     (case navigate (mem_root fs) path of
        Inl e \<Rightarrow> Inl e
      | Inr (File data _ _) \<Rightarrow>
          (if length data \<le> offset then Inr []
           else let n = min buf_len (length data - offset) in Inr (take n (drop offset data)))
      | Inr (Directory _ _) \<Rightarrow> Inl NotAFile)"

definition no_space :: "memfs \<Rightarrow> nat \<Rightarrow> bool" where
  "no_space fs n \<longleftrightarrow> 0 < max_size fs \<and> max_size fs < total_size (mem_root fs) + n"

definition write_file :: "string \<Rightarrow> u8 list \<Rightarrow> memfs \<Rightarrow> (fs_error + unit) \<times> memfs" where
  "write_file path data fs =
     (if no_space fs (length data) then (Inl NoSpace, fs)
      else on_root (navigate_parent path (\<lambda>filename parent.
             Inr ((), bt_insert filename (File data (mem_now fs) (mem_now fs)) parent))) fs)"

definition overwrite :: "nat \<Rightarrow> u8 list \<Rightarrow> u8 list \<Rightarrow> u8 list" where
  "overwrite offset data file_data =
     (let end = offset + length data;
          d = (if length file_data < end then file_data @ replicate (end - length file_data) 0 else file_data)
      in take offset d @ data @ drop end d)"

definition write_at :: "string \<Rightarrow> nat \<Rightarrow> u8 list \<Rightarrow> memfs \<Rightarrow> (fs_error + nat) \<times> memfs" where
  "write_at path offset data fs =
     (if data = [] then (Inr 0, fs)
      else on_root (navigate_parent path (\<lambda>filename parent.
             case map_of parent filename of
               Some (File d created _) \<Rightarrow>
                 Inr (length data, bt_insert filename (File (overwrite offset data d) created (mem_now fs)) parent)
             | Some (Directory _ _) \<Rightarrow> Inl NotAFile
             | None \<Rightarrow> Inl NotFound)) fs)"

definition append_file :: "string \<Rightarrow> u8 list \<Rightarrow> memfs \<Rightarrow> (fs_error + unit) \<times> memfs" where
  "append_file path data fs =
     (if no_space fs (length data) then (Inl NoSpace, fs)
      else on_root (navigate_parent path (\<lambda>filename parent.
             case map_of parent filename of
               Some (File d created _) \<Rightarrow> Inr ((), bt_insert filename (File (d @ data) created (mem_now fs)) parent)
             | Some (Directory _ _) \<Rightarrow> Inl NotAFile
             | None \<Rightarrow> Inr ((), bt_insert filename (File data (mem_now fs) (mem_now fs)) parent))) fs)"

definition create_dir :: "string \<Rightarrow> memfs \<Rightarrow> (fs_error + unit) \<times> memfs" where
  "create_dir path fs =
     on_root (navigate_parent path (\<lambda>dirname parent.
       case map_of parent dirname of
         Some _ \<Rightarrow> Inl AlreadyExists
       | None \<Rightarrow> Inr ((), bt_insert dirname (new_directory (mem_now fs)) parent))) fs"

definition remove_file :: "string \<Rightarrow> memfs \<Rightarrow> (fs_error + unit) \<times> memfs" where
  "remove_file path fs =
     on_root (navigate_parent path (\<lambda>filename parent.
       case map_of parent filename of
         Some (File _ _ _) \<Rightarrow> Inr ((), bt_remove filename parent)
       | Some (Directory _ _) \<Rightarrow> Inl NotAFile
       | None \<Rightarrow> Inl NotFound)) fs"

definition remove_dir :: "string \<Rightarrow> memfs \<Rightarrow> (fs_error + unit) \<times> memfs" where
  "remove_dir path fs =
     on_root (navigate_parent path (\<lambda>dirname parent.
       case map_of parent dirname of
         Some (Directory children _) \<Rightarrow>
           (if children \<noteq> [] then Inl DirectoryNotEmpty else Inr ((), bt_remove dirname parent))
       | Some (File _ _ _) \<Rightarrow> Inl NotADirectory
       | None \<Rightarrow> Inl NotFound)) fs"

text \<open>Put the detached node back under its old name; the lookup error, if any, is the caller's.\<close>

definition reattach :: "string \<Rightarrow> fs_node \<Rightarrow> fs_error \<Rightarrow> memfs \<Rightarrow> (fs_error + unit) \<times> memfs" where
  "reattach old_path node e fs =
     (case on_root (navigate_parent old_path (\<lambda>old_filename parent.
             Inr ((), bt_insert old_filename node parent))) fs of
        (Inl e', fs') \<Rightarrow> (Inl e', fs')
      | (Inr _, fs') \<Rightarrow> (Inl e, fs'))"

definition rename :: "string \<Rightarrow> string \<Rightarrow> memfs \<Rightarrow> (fs_error + unit) \<times> memfs" where
  "rename old_path new_path fs =
     (case on_root (navigate_parent old_path (\<lambda>old_filename parent.
             case map_of parent old_filename of
               None \<Rightarrow> Inl NotFound
             | Some node \<Rightarrow> Inr (node, bt_remove old_filename parent))) fs of
        (Inl e, fs1) \<Rightarrow> (Inl e, fs1)
      | (Inr node, fs1) \<Rightarrow>
          (case on_root (navigate_parent new_path (\<lambda>new_filename parent.
                  case map_of parent new_filename of
                    Some _ \<Rightarrow> Inl AlreadyExists
                  | None \<Rightarrow> Inr ((), bt_insert new_filename node parent))) fs1 of
             (Inl e, _) \<Rightarrow> reattach old_path node e fs1
           | (Inr _, fs2) \<Rightarrow> (Inr (), fs2)))"

definition fs_exists :: "memfs \<Rightarrow> string \<Rightarrow> bool" where
  "fs_exists fs path \<longleftrightarrow> (case navigate (mem_root fs) path of Inl _ \<Rightarrow> False | Inr _ \<Rightarrow> True)"

definition fs_metadata :: "memfs \<Rightarrow> string \<Rightarrow> fs_error + metadata" where
  "fs_metadata fs path =
     (case navigate (mem_root fs) path of
        Inl e \<Rightarrow> Inl e
      | Inr (File data created modified) \<Rightarrow>
          Inr \<lparr>md_is_dir = False, md_size = length data, md_inode = path_inode path, md_mode = 0x81A4,
               md_created = Some created, md_modified = Some modified, md_accessed = None\<rparr>
      | Inr (Directory _ created) \<Rightarrow>
          Inr \<lparr>md_is_dir = True, md_size = 0, md_inode = path_inode path, md_mode = 0x41ED,
               md_created = Some created, md_modified = None, md_accessed = None\<rparr>)"

text \<open>\<open>None\<close>: the subtraction \<open>total - used\<close> underflows.\<close>

definition memfs_stats :: "memfs \<Rightarrow> fs_stats option" where
  "memfs_stats fs =
     (let used = total_size (mem_root fs);
          total_bytes = (if 0 < max_size fs then max_size fs else used + 64 * 1024 * 1024)
      in if total_bytes < used then None
         else Some \<lparr>block_size = 4096, total_blocks = total_bytes div 4096,
                    free_blocks = (total_bytes - used) div 4096\<rparr>)"

end
