(* ===== verification/Vfs_Mount.thy ===== *)
theory Vfs_Mount
  imports Vfs_Memfs "HOL-Library.Multiset"
begin

text \<open>
  Mount points: the global mount table (\<open>crates/akuma-vfs/src/mount.rs\<close>), the per-box mount
  namespace (\<open>crates/akuma-isolation/src/mount.rs\<close>), the subdirectory filesystem
  (\<open>subdir_fs.rs\<close>) and the kernel's path routing on top of them (\<open>with_fs\<close> and friends in
  \<open>src/vfs/mod.rs\<close>). A mounted filesystem is an opaque value of type \<open>'fs\<close>.
\<close>

section \<open>Tables of mount points\<close>

type_synonym 'fs mounts = "(string \<times> 'fs) list"

definition MAX_MOUNTS :: nat where
  "MAX_MOUNTS = 8"

definition MAX_NS_MOUNTS :: nat where
  "MAX_NS_MOUNTS = 16"

text \<open>\<open>sort_by(|a, b| b.path.len().cmp(&a.path.len()))\<close>: stable, longest path first.\<close>

definition sort_mounts :: "'fs mounts \<Rightarrow> 'fs mounts" where
  "sort_mounts ms = sort_key (\<lambda>m. - int (length (fst m))) ms"

definition table_mount :: "string \<Rightarrow> 'fs \<Rightarrow> 'fs mounts \<Rightarrow> (fs_error + unit) \<times> 'fs mounts" where
  "table_mount path fs mounts =
     (if MAX_MOUNTS \<le> length mounts then (Inl NoSpace, mounts)
      else if \<exists>m \<in> set mounts. fst m = path then (Inl AlreadyExists, mounts)
      else (Inr (), sort_mounts (mounts @ [(path, fs)])))"

definition table_unmount :: "string \<Rightarrow> 'fs mounts \<Rightarrow> (fs_error + unit) \<times> 'fs mounts" where
  "table_unmount path mounts =
     (case position (\<lambda>m. fst m = path) mounts of
        None \<Rightarrow> (Inl NotFound, mounts)
      | Some idx \<Rightarrow> (Inr (), remove_at idx mounts))"

definition normalize_path :: "string \<Rightarrow> string" where
  "normalize_path path0 = (let path = trim_end_matches slash path0 in if path = [] then [slash] else path)"

fun resolve_loop :: "string \<Rightarrow> 'fs mounts \<Rightarrow> ('fs \<times> string) option" where
  "resolve_loop normalized [] = None"
| "resolve_loop normalized ((mpath, fs) # mounts) =
     (if mpath = [slash] then Some (fs, normalized)
      else if normalized = mpath then Some (fs, [slash])
      else if prefix mpath normalized
      then let rest = drop (length mpath) normalized in
        if rest = [] then Some (fs, [slash])
        else if hd rest = slash then Some (fs, rest)
        else resolve_loop normalized mounts
      else resolve_loop normalized mounts)"

definition table_resolve :: "'fs mounts \<Rightarrow> string \<Rightarrow> ('fs \<times> string) option" where
  "table_resolve mounts path = resolve_loop (normalize_path path) mounts"

definition child_name :: "string \<Rightarrow> string \<Rightarrow> string option" where
  "child_name parent mpath =
     (if mpath = [slash] \<or> mpath = parent then None
      else if parent = [slash]
      then if mpath \<noteq> [] \<and> hd mpath = slash \<and> slash \<notin> set (tl mpath) then Some (tl mpath) else None
      else let pre = parent @ [slash] in
        if prefix pre mpath
        then let rest = drop (length pre) mpath in if slash \<notin> set rest then Some rest else None
        else None)"

definition table_child_mount_points :: "'fs mounts \<Rightarrow> string \<Rightarrow> dir_entry list" where
  "table_child_mount_points mounts parent_path =
     map (\<lambda>n. \<lparr>de_name = n, de_is_dir = True, de_is_symlink = False, de_size = 0\<rparr>)
       (List.map_filter (\<lambda>m. child_name (normalize_path parent_path) (fst m)) mounts)"

definition table_get_fs :: "'fs mounts \<Rightarrow> string \<Rightarrow> 'fs option" where
  "table_get_fs mounts path = map_option snd (List.find (\<lambda>m. fst m = normalize_path path) mounts)"

text \<open>The namespace's own copies of the same operations, with its own capacity.\<close>

definition ns_mount :: "string \<Rightarrow> 'fs \<Rightarrow> 'fs mounts \<Rightarrow> (fs_error + unit) \<times> 'fs mounts" where
  "ns_mount path fs mounts =
     (if MAX_NS_MOUNTS \<le> length mounts then (Inl NoSpace, mounts)
      else if \<exists>m \<in> set mounts. fst m = path then (Inl AlreadyExists, mounts)
      else (Inr (), sort_mounts (mounts @ [(path, fs)])))"

definition ns_unmount :: "string \<Rightarrow> 'fs mounts \<Rightarrow> (fs_error + unit) \<times> 'fs mounts" where
  "ns_unmount path mounts =
     (case position (\<lambda>m. fst m = path) mounts of
        None \<Rightarrow> (Inl NotFound, mounts)
      | Some idx \<Rightarrow> (Inr (), remove_at idx mounts))"

definition ns_resolve :: "'fs mounts \<Rightarrow> string \<Rightarrow> ('fs \<times> string) option" where
  "ns_resolve mounts path =
     (let normalized = trim_end_matches slash path;
          normalized = (if normalized = [] then [slash] else normalized)
      in resolve_loop normalized mounts)"

definition ns_child_mount_points :: "'fs mounts \<Rightarrow> string \<Rightarrow> dir_entry list" where
  "ns_child_mount_points mounts parent_path =
     (let parent = trim_end_matches slash parent_path;
          parent = (if parent = [] then [slash] else parent)
      in map (\<lambda>n. \<lparr>de_name = n, de_is_dir = True, de_is_symlink = False, de_size = 0\<rparr>)
           (List.map_filter (\<lambda>m. child_name parent (fst m)) mounts))"

section \<open>The subdirectory filesystem\<close>

definition subdir_new :: "string \<Rightarrow> string" where
  "subdir_new prefix_path = trim_end_matches slash prefix_path"

definition full_path :: "string \<Rightarrow> string \<Rightarrow> string" where
  "full_path prefix_path path = (if path = [slash] then prefix_path else prefix_path @ path)"

section \<open>Canonical paths as component lists\<close>

definition abs_path :: "string list \<Rightarrow> string" where
  "abs_path cs = (if cs = [] then [slash] else join_components cs)"

definition canonical :: "string \<Rightarrow> bool" where
  "canonical p \<longleftrightarrow> p = abs_path (path_components p)"

lemma join_Nil [simp]: "join_components [] = []"
  by (simp add: join_components_def)

lemma join_Cons [simp]: "join_components (c # cs) = slash # c @ join_components cs"
  by (simp add: join_components_def)

lemma join_append: "join_components (a @ b) = join_components a @ join_components b"
  by (simp add: join_components_def)

lemma canonicalD: "canonical p \<Longrightarrow> abs_path (path_components p) = p"
  unfolding canonical_def by (rule sym)

lemma canonical_abs_path: "\<forall>c \<in> set cs. component c \<Longrightarrow> canonical (abs_path cs)"
  by (auto simp: canonical_def abs_path_def path_components_join path_components_eq [of "[slash]"])

lemma path_components_abs_path: "\<forall>c \<in> set cs. component c \<Longrightarrow> path_components (abs_path cs) = cs"
  by (auto simp: abs_path_def path_components_join path_components_eq [of "[slash]"])

lemma canonical_canonicalize: "canonical (canonicalize_path p)"
proof -
  have "\<forall>c \<in> set (walk (path_components p) []). component c"
    using canonical_plain [of p] by (auto simp: canonicalize_components plain_def)
  then show ?thesis
    using canonicalize_join [of p] canonical_abs_path [of "walk (path_components p) []"]
    by (simp add: abs_path_def)
qed

lemma canonical_resolve_path: "canonical (resolve_path cwd p)"
  by (simp add: resolve_path_def canonical_canonicalize Let_def)

lemma canonical_components: "canonical p \<Longrightarrow> \<exists>cs. p = abs_path cs \<and> (\<forall>c \<in> set cs. component c)"
  unfolding canonical_def using path_components_ok by blast

text \<open>A canonical path does not end in a separator, except for the root.\<close>

lemma join_last:
  assumes "\<forall>c \<in> set cs. component c" "cs \<noteq> []"
  shows "join_components cs \<noteq> []" "last (join_components cs) \<noteq> slash"
proof -
  obtain ds d where cs: "cs = ds @ [d]" using assms(2) by (meson rev_exhaust)
  then have d: "d \<noteq> []" "slash \<notin> set d" using assms(1) by (auto simp: component_def)
  have j: "join_components cs = join_components ds @ slash # d" by (simp add: cs join_append)
  show "join_components cs \<noteq> []" by (simp add: j)
  have "last d \<in> set d" using d(1) by simp
  moreover have "last (join_components cs) = last d" using d(1) by (simp add: j)
  ultimately show "last (join_components cs) \<noteq> slash" using d(2) by metis
qed

lemma trim_end_no_sep: "s \<noteq> [] \<Longrightarrow> last s \<noteq> c \<Longrightarrow> trim_end_matches c s = s"
  by (cases s rule: rev_cases) (simp_all add: trim_end_matches_def)

lemma normalize_canonical: "canonical p \<Longrightarrow> normalize_path p = p"
proof -
  assume "canonical p"
  then obtain cs where p: "p = abs_path cs" and cs: "\<forall>c \<in> set cs. component c"
    using canonical_components by blast
  show ?thesis
  proof (cases "cs = []")
    case True
    then show ?thesis by (simp add: p abs_path_def normalize_path_def trim_end_matches_def)
  next
    case False
    with join_last [OF cs] show ?thesis by (simp add: p abs_path_def normalize_path_def trim_end_no_sep)
  qed
qed

text \<open>A prefix of the string that ends at a separator is a prefix of the components.\<close>

lemma slash_free_prefix:
  assumes "c @ x = d @ y" "slash \<notin> set c" "slash \<notin> set d"
    and "x = [] \<or> hd x = slash" "y = [] \<or> hd y = slash"
  shows "c = d \<and> x = y"
proof -
  have "takeWhile (\<lambda>z. z \<noteq> slash) (s @ t) = s" if "slash \<notin> set s" "t = [] \<or> hd t = slash" for s t
    using that by (induction s) (cases t; auto)+
  then have "c = d" using assms by metis
  with assms(1) show ?thesis by simp
qed

lemma join_hd: "join_components cs = [] \<or> hd (join_components cs) = slash"
  by (cases cs) auto

lemma join_prefix:
  assumes "join_components cs @ rest = join_components ns" "rest = [] \<or> hd rest = slash"
    and "\<forall>c \<in> set cs. component c" "\<forall>c \<in> set ns. component c"
  shows "\<exists>ds. ns = cs @ ds \<and> rest = join_components ds"
  using assms
proof (induction cs arbitrary: ns)
  case (Cons c cs)
  then obtain n ns' where ns: "ns = n # ns'" by (cases ns) auto
  have e: "c @ (join_components cs @ rest) = n @ join_components ns'" using Cons.prems(1) ns by simp
  have "join_components cs @ rest = [] \<or> hd (join_components cs @ rest) = slash"
    using join_hd [of cs] Cons.prems(2) by (cases "join_components cs = []") auto
  from slash_free_prefix [OF e _ _ this join_hd] Cons.prems(3,4) ns
  have "c = n" "join_components cs @ rest = join_components ns'" by (auto simp: component_def)
  with Cons.IH [of ns'] Cons.prems(2-4) ns show ?case by auto
qed auto

lemma join_prefix_iff:
  assumes "\<forall>c \<in> set cs. component c" "\<forall>c \<in> set ns. component c"
  shows "(prefix (join_components cs) (join_components ns)
      \<and> (drop (length (join_components cs)) (join_components ns) = []
         \<or> hd (drop (length (join_components cs)) (join_components ns)) = slash)) \<longleftrightarrow> prefix cs ns"
proof
  assume l: "prefix (join_components cs) (join_components ns)
      \<and> (drop (length (join_components cs)) (join_components ns) = []
         \<or> hd (drop (length (join_components cs)) (join_components ns)) = slash)"
  then obtain rest where r: "join_components cs @ rest = join_components ns" by (auto simp: prefix_def)
  then have "rest = [] \<or> hd rest = slash" using l by (metis append_eq_conv_conj)
  from join_prefix [OF r this assms] show "prefix cs ns" by auto
next
  assume "prefix cs ns"
  then obtain ds where "ns = cs @ ds" by (auto simp: prefix_def)
  then show "prefix (join_components cs) (join_components ns)
      \<and> (drop (length (join_components cs)) (join_components ns) = []
         \<or> hd (drop (length (join_components cs)) (join_components ns)) = slash)"
    using join_hd [of ds] by (simp add: join_append)
qed

section \<open>Longest-prefix resolution\<close>

definition mounts_wf :: "'fs mounts \<Rightarrow> bool" where
  "mounts_wf ms \<longleftrightarrow> sorted_wrt (\<lambda>a b. length (fst b) \<le> length (fst a)) ms \<and> distinct (map fst ms)
     \<and> (\<forall>m \<in> set ms. canonical (fst m))"

text \<open>Mount point \<open>mp\<close> covers the path with components \<open>ns\<close>.\<close>

definition covers :: "string \<Rightarrow> string list \<Rightarrow> bool" where
  "covers mp ns \<longleftrightarrow> prefix (path_components mp) ns"

lemma resolve_loop_head:
  assumes mp: "canonical mp" and ns: "\<forall>c \<in> set ns. component c"
  shows "resolve_loop (abs_path ns) ((mp, fs) # ms) =
    (if covers mp ns then Some (fs, abs_path (drop (length (path_components mp)) ns))
     else resolve_loop (abs_path ns) ms)"
proof -
  obtain cs where cs: "mp = abs_path cs" "\<forall>c \<in> set cs. component c" "path_components mp = cs"
    using canonical_components [OF mp] path_components_abs_path by blast
  show ?thesis
  proof (cases "cs = []")
    case True
    then show ?thesis using cs by (simp add: covers_def abs_path_def)
  next
    case cne: False
    have mpj: "mp = join_components cs" using cs(1) cne by (simp add: abs_path_def)
    have "length (join_components cs) > 1" using join_last [OF cs(2) cne] cne cs(2)
      by (cases cs) (auto simp: component_def Suc_lessI)
    then have nroot: "mp \<noteq> [slash]" using mpj by auto
    show ?thesis
    proof (cases "ns = []")
      case True
      have "\<not> prefix mp [slash]" "[slash] \<noteq> mp"
        using nroot mpj \<open>length (join_components cs) > 1\<close> prefix_length_le [of mp "[slash]"] by auto
      with True nroot cne cs show ?thesis by (simp add: abs_path_def covers_def)
    next
      case False
      let ?n = "join_components ns"
      have iff: "(prefix mp ?n \<and> (drop (length mp) ?n = [] \<or> hd (drop (length mp) ?n) = slash)) \<longleftrightarrow> prefix cs ns"
        using join_prefix_iff [OF cs(2) ns] by (simp add: mpj)
      have rest: "drop (length mp) ?n = join_components (drop (length cs) ns)" if "prefix cs ns"
        using that by (auto simp: prefix_def mpj join_append)
      have eq: "?n = mp \<Longrightarrow> ns = cs"
        using cs(2,3) ns path_components_join mpj by metis
      show ?thesis
      proof (cases "prefix cs ns")
        case True
        show ?thesis
        proof (cases "drop (length cs) ns = []")
          case dn: True
          then have "ns = cs" using True by (auto simp: prefix_def)
          then show ?thesis using nroot cne cs mpj by (simp add: abs_path_def covers_def)
        next
          case dn: False
          then have "drop (length mp) ?n \<noteq> []" "hd (drop (length mp) ?n) = slash"
            using rest [OF True] iff True by (cases "drop (length cs) ns", auto)+
          moreover have "?n \<noteq> mp" using eq dn by auto
          moreover have "prefix mp ?n" using iff True by blast
          ultimately have "resolve_loop ?n ((mp, fs) # ms) = Some (fs, drop (length mp) ?n)"
            using nroot by (simp add: Let_def)
          moreover have "abs_path ns = ?n" "abs_path (drop (length cs) ns) = drop (length mp) ?n"
            using False dn rest [OF True] by (simp_all add: abs_path_def)
          ultimately show ?thesis using True by (simp only: covers_def cs(3) if_True)
        qed
      next
        case np: False
        then have "?n \<noteq> mp" using eq by auto
        with np iff nroot have "resolve_loop ?n ((mp, fs) # ms) = resolve_loop ?n ms"
          by (auto simp: Let_def)
        moreover have "abs_path ns = ?n" using False by (simp add: abs_path_def)
        ultimately show ?thesis using np by (simp only: covers_def cs(3) if_False)
      qed
    qed
  qed
qed

lemma covers_longer:
  assumes "covers p ns" "covers q ns" "canonical p" "canonical q" "length q \<le> length p"
  shows "length (path_components q) \<le> length (path_components p)"
proof (rule ccontr)
  assume "\<not> length (path_components q) \<le> length (path_components p)"
  then have "strict_prefix (path_components p) (path_components q)"
    using assms(1,2) unfolding covers_def by (metis not_le prefix_length_prefix strict_prefixI less_imp_le nat_neq_iff)
  then obtain c ds where q: "path_components q = path_components p @ c # ds"
    by (auto simp: strict_prefix_def prefix_def neq_Nil_conv)
  have "c \<noteq> []" using path_components_ok [of c q] q by (simp add: component_def)
  have ap: "abs_path (path_components q) = q" "abs_path (path_components p) = p"
    using assms(3,4) by (simp_all only: canonicalD)
  have "abs_path (path_components q) = join_components (path_components q)"
    by (simp add: abs_path_def q)
  then have "length q = length (join_components (path_components q))" using ap(1) by simp
  then have lq: "length q \<ge> length (join_components (path_components p)) + 2"
    using q \<open>c \<noteq> []\<close> by (simp add: join_append Suc_leI)
  have "length (abs_path (path_components p)) \<le> length (join_components (path_components p)) + 1"
    by (simp add: abs_path_def)
  then have "length p \<le> length (join_components (path_components p)) + 1" using ap(2) by simp
  with lq assms(5) show False by linarith
qed

text \<open>The answer of a resolution: the deepest mount point that covers the path.\<close>

definition deepest_cover :: "'fs mounts \<Rightarrow> string list \<Rightarrow> 'fs \<Rightarrow> string \<Rightarrow> bool" where
  "deepest_cover ms ns fs rel \<longleftrightarrow> (\<exists>mp. (mp, fs) \<in> set ms \<and> covers mp ns
        \<and> rel = abs_path (drop (length (path_components mp)) ns)
        \<and> (\<forall>m \<in> set ms. covers (fst m) ns \<longrightarrow> length (path_components (fst m)) \<le> length (path_components mp)))"

lemma resolve_loop_longest:
  assumes "mounts_wf ms" and ns: "\<forall>c \<in> set ns. component c"
  shows "case resolve_loop (abs_path ns) ms of
      None \<Rightarrow> \<forall>m \<in> set ms. \<not> covers (fst m) ns
    | Some (fs, rel) \<Rightarrow> deepest_cover ms ns fs rel"
  using assms(1)
proof (induction ms)
  case (Cons m ms)
  obtain mp fs where m: "m = (mp, fs)" by (cases m)
  have wf: "mounts_wf ms" and mp: "canonical mp" and ge: "\<forall>x \<in> set ms. length (fst x) \<le> length mp"
    and can: "\<forall>x \<in> set ms. canonical (fst x)"
    using Cons.prems m by (auto simp: mounts_wf_def)
  note head = resolve_loop_head [OF mp ns, of fs ms]
  show ?case
  proof (cases "covers mp ns")
    case True
    have "\<forall>x \<in> set (m # ms). covers (fst x) ns
        \<longrightarrow> length (path_components (fst x)) \<le> length (path_components mp)"
    proof (intro ballI impI)
      fix x assume x: "x \<in> set (m # ms)" "covers (fst x) ns"
      then have "canonical (fst x)" "length (fst x) \<le> length mp" using m mp ge can by auto
      with covers_longer [OF True x(2) mp] show "length (path_components (fst x)) \<le> length (path_components mp)" .
    qed
    then have "deepest_cover (m # ms) ns fs (abs_path (drop (length (path_components mp)) ns))"
      unfolding deepest_cover_def using True m by auto
    with True head show ?thesis by (simp add: m)
  next
    case False
    then have r: "resolve_loop (abs_path ns) (m # ms) = resolve_loop (abs_path ns) ms" using head m by simp
    show ?thesis
    proof (cases "resolve_loop (abs_path ns) ms")
      case None
      with Cons.IH [OF wf] False show ?thesis unfolding r by (simp add: m)
    next
      case (Some fr)
      then obtain fs' rel where fr: "resolve_loop (abs_path ns) ms = Some (fs', rel)" by (cases fr) simp
      with Cons.IH [OF wf] have "deepest_cover ms ns fs' rel" by simp
      then have "deepest_cover (m # ms) ns fs' rel"
        unfolding deepest_cover_def using False by (auto simp: m)
      then show ?thesis unfolding r by (simp add: fr)
    qed
  qed
qed simp


text \<open>The deepest cover is unique, so resolution depends on the set of mounts only.\<close>

lemma deepest_cover_unique:
  assumes "deepest_cover ms ns fs rel" "deepest_cover ms' ns fs' rel'"
    and "set ms = set ms'" "mounts_wf ms"
  shows "fs = fs' \<and> rel = rel'"
proof -
  obtain mp where mp: "(mp, fs) \<in> set ms" "covers mp ns" "rel = abs_path (drop (length (path_components mp)) ns)"
    "\<forall>m \<in> set ms. covers (fst m) ns \<longrightarrow> length (path_components (fst m)) \<le> length (path_components mp)"
    using assms(1) unfolding deepest_cover_def by blast
  obtain mq where mq: "(mq, fs') \<in> set ms" "covers mq ns" "rel' = abs_path (drop (length (path_components mq)) ns)"
    "\<forall>m \<in> set ms. covers (fst m) ns \<longrightarrow> length (path_components (fst m)) \<le> length (path_components mq)"
    using assms(2,3) unfolding deepest_cover_def by blast
  have "length (path_components mp) = length (path_components mq)"
    using mp(1,2,4) mq(1,2,4) by (metis fst_conv le_antisym)
  then have pq: "path_components mp = path_components mq"
    using mp(2) mq(2) unfolding covers_def by (metis prefix_length_prefix prefix_order.antisym order_refl)
  have "canonical mp" "canonical mq" using assms(4) mp(1) mq(1) by (auto simp: mounts_wf_def)
  then have "mp = mq" using pq canonicalD by metis
  then have "fs = fs'" using assms(4) mp(1) mq(1) by (metis eq_key_imp_eq_value mounts_wf_def)
  with pq mp(3) mq(3) show ?thesis by simp
qed

section \<open>The contract of a table of mount points\<close>

locale mount_points =
  fixes capacity :: nat
    and mount_op :: "string \<Rightarrow> 'fs \<Rightarrow> 'fs mounts \<Rightarrow> (fs_error + unit) \<times> 'fs mounts"
    and unmount_op :: "string \<Rightarrow> 'fs mounts \<Rightarrow> (fs_error + unit) \<times> 'fs mounts"
    and resolve_op :: "'fs mounts \<Rightarrow> string \<Rightarrow> ('fs \<times> string) option"
  assumes mount_full: "capacity \<le> length ms \<Longrightarrow> mount_op p fs ms = (Inl NoSpace, ms)"
    and mount_dup: "length ms < capacity \<Longrightarrow> p \<in> fst ` set ms \<Longrightarrow> mount_op p fs ms = (Inl AlreadyExists, ms)"
    and mount_new: "length ms < capacity \<Longrightarrow> p \<notin> fst ` set ms \<Longrightarrow> mounts_wf ms \<Longrightarrow> canonical p \<Longrightarrow>
      \<exists>ms'. mount_op p fs ms = (Inr (), ms') \<and> mounts_wf ms' \<and> set ms' = insert (p, fs) (set ms)"
    and unmount_absent: "p \<notin> fst ` set ms \<Longrightarrow> unmount_op p ms = (Inl NotFound, ms)"
    and unmount_present: "p \<in> fst ` set ms \<Longrightarrow> mounts_wf ms \<Longrightarrow>
      \<exists>ms'. unmount_op p ms = (Inr (), ms') \<and> mounts_wf ms' \<and> set ms' = {m \<in> set ms. fst m \<noteq> p}"
    and resolve_deepest: "mounts_wf ms \<Longrightarrow> \<forall>c \<in> set ns. component c \<Longrightarrow>
      (case resolve_op ms (abs_path ns) of
         None \<Rightarrow> \<forall>m \<in> set ms. \<not> covers (fst m) ns
       | Some (fs, rel) \<Rightarrow> deepest_cover ms ns fs rel)"
begin

lemma resolve_Some_iff:
  assumes "mounts_wf ms" "\<forall>c \<in> set ns. component c"
  shows "resolve_op ms (abs_path ns) = Some (fs, rel) \<longleftrightarrow> deepest_cover ms ns fs rel"
proof
  show "deepest_cover ms ns fs rel" if "resolve_op ms (abs_path ns) = Some (fs, rel)"
    using resolve_deepest [OF assms] that by simp
  assume d: "deepest_cover ms ns fs rel"
  then have "\<exists>m \<in> set ms. covers (fst m) ns" unfolding deepest_cover_def by force
  with resolve_deepest [OF assms] obtain fs' rel' where
    r: "resolve_op ms (abs_path ns) = Some (fs', rel')" "deepest_cover ms ns fs' rel'"
    by (cases "resolve_op ms (abs_path ns)") auto
  from deepest_cover_unique [OF d r(2) refl assms(1)] r(1) show "resolve_op ms (abs_path ns) = Some (fs, rel)" by simp
qed

lemma resolve_same_set:
  assumes "mounts_wf ms" "mounts_wf ms'" "set ms = set ms'" "\<forall>c \<in> set ns. component c"
  shows "resolve_op ms (abs_path ns) = resolve_op ms' (abs_path ns)"
proof -
  have "deepest_cover ms ns fs rel \<longleftrightarrow> deepest_cover ms' ns fs rel" for fs rel
    by (simp only: deepest_cover_def assms(3))
  then have "resolve_op ms (abs_path ns) = Some x \<longleftrightarrow> resolve_op ms' (abs_path ns) = Some x" for x
    using resolve_Some_iff [OF assms(1,4)] resolve_Some_iff [OF assms(2,4)] by (cases x) simp
  then show ?thesis by (metis not_Some_eq)
qed

lemma mount_shadows:
  assumes "mounts_wf ms" "canonical p" "length ms < capacity" "p \<notin> fst ` set ms" "\<forall>c \<in> set ns. component c"
  shows "\<exists>ms'. mount_op p fs ms = (Inr (), ms') \<and> mounts_wf ms'
    \<and> resolve_op ms' (abs_path ns) =
        (if covers p ns \<and> (\<forall>m \<in> set ms. covers (fst m) ns \<longrightarrow> length (path_components (fst m)) \<le> length (path_components p))
         then Some (fs, abs_path (drop (length (path_components p)) ns))
         else resolve_op ms (abs_path ns))"
proof -
  obtain ms' where ms': "mount_op p fs ms = (Inr (), ms')" "mounts_wf ms'" "set ms' = insert (p, fs) (set ms)"
    using mount_new [OF assms(3,4,1,2)] by blast
  let ?top = "covers p ns \<and> (\<forall>m \<in> set ms. covers (fst m) ns \<longrightarrow> length (path_components (fst m)) \<le> length (path_components p))"
  have "resolve_op ms' (abs_path ns) = Some (fs, abs_path (drop (length (path_components p)) ns))" if ?top
    unfolding resolve_Some_iff [OF ms'(2) assms(5)] deepest_cover_def using that ms'(3) by auto
  moreover have "resolve_op ms' (abs_path ns) = resolve_op ms (abs_path ns)" if n: "\<not> ?top"
  proof (cases "resolve_op ms (abs_path ns)")
    case None
    with resolve_deepest [OF assms(1,5)] n have none: "\<forall>m \<in> set ms'. \<not> covers (fst m) ns" by (auto simp: ms'(3))
    have False if "deepest_cover ms' ns f rel" for f rel using that none unfolding deepest_cover_def by force
    then have "resolve_op ms' (abs_path ns) \<noteq> Some x" for x
      using resolve_Some_iff [OF ms'(2) assms(5)] by (cases x) blast
    with None show ?thesis by (metis not_Some_eq)
  next
    case (Some x)
    then obtain f rel where x: "resolve_op ms (abs_path ns) = Some (f, rel)" by (cases x) simp
    then obtain mp where mp: "(mp, f) \<in> set ms" "covers mp ns" "rel = abs_path (drop (length (path_components mp)) ns)"
      "\<forall>m \<in> set ms. covers (fst m) ns \<longrightarrow> length (path_components (fst m)) \<le> length (path_components mp)"
      unfolding resolve_Some_iff [OF assms(1,5)] deepest_cover_def by blast
    have "covers p ns \<longrightarrow> length (path_components p) \<le> length (path_components mp)"
      using n mp(4) by (meson le_trans nat_le_linear)
    then have "deepest_cover ms' ns f rel" unfolding deepest_cover_def using mp ms'(3) by auto
    then show ?thesis using resolve_Some_iff [OF ms'(2) assms(5)] x by simp
  qed
  ultimately show ?thesis using ms'(1,2) by auto
qed

lemma unmount_restores:
  assumes "mounts_wf ms" "canonical p" "length ms < capacity" "p \<notin> fst ` set ms" "\<forall>c \<in> set ns. component c"
  shows "\<exists>ms' ms''. mount_op p fs ms = (Inr (), ms') \<and> unmount_op p ms' = (Inr (), ms'')
    \<and> set ms'' = set ms \<and> resolve_op ms'' (abs_path ns) = resolve_op ms (abs_path ns)"
proof -
  obtain ms' where ms': "mount_op p fs ms = (Inr (), ms')" "mounts_wf ms'" "set ms' = insert (p, fs) (set ms)"
    using mount_new [OF assms(3,4,1,2)] by blast
  obtain ms'' where ms'': "unmount_op p ms' = (Inr (), ms'')" "mounts_wf ms''" "set ms'' = {m \<in> set ms'. fst m \<noteq> p}"
    using unmount_present [of p ms'] ms'(2,3) by auto
  have "set ms'' = set ms" using ms''(3) ms'(3) assms(4) by force
  with resolve_same_set [OF ms''(2) assms(1) _ assms(5)] ms'(1) ms''(1) show ?thesis by blast
qed

end

section \<open>Both tables keep the contract\<close>

lemma sorted_mounts: "sorted_wrt (\<lambda>a b. length (fst b) \<le> length (fst a)) (sort_mounts ms)"
proof -
  have "sorted (map (\<lambda>m. - int (length (fst m))) (sort_mounts ms))"
    unfolding sort_mounts_def by (rule sorted_sort_key)
  then show ?thesis by (simp add: sorted_map)
qed

lemma mounts_wf_add:
  assumes "mounts_wf ms" "canonical p" "p \<notin> fst ` set ms"
  shows "mounts_wf (sort_mounts (ms @ [(p, fs)]))" "set (sort_mounts (ms @ [(p, fs)])) = insert (p, fs) (set ms)"
proof -
  show "set (sort_mounts (ms @ [(p, fs)])) = insert (p, fs) (set ms)" by (simp add: sort_mounts_def)
  have "mset (map fst (sort_mounts (ms @ [(p, fs)]))) = mset (map fst (ms @ [(p, fs)]))"
    by (simp only: mset_map sort_mounts_def mset_sort)
  moreover have "distinct (map fst (ms @ [(p, fs)]))" using assms(1,3) by (simp add: mounts_wf_def)
  ultimately have "distinct (map fst (sort_mounts (ms @ [(p, fs)])))" using mset_eq_imp_distinct_iff by blast
  then show "mounts_wf (sort_mounts (ms @ [(p, fs)]))"
    using assms(1,2) sorted_mounts by (auto simp: mounts_wf_def sort_mounts_def)
qed

lemma mounts_wf_remove:
  assumes "mounts_wf ms" "position (\<lambda>m. fst m = p) ms = Some i"
  shows "mounts_wf (remove_at i ms)" "set (remove_at i ms) = {m \<in> set ms. fst m \<noteq> p}"
proof -
  have i: "i < length ms" "fst (ms ! i) = p" using position_SomeD [OF assms(2)] by auto
  have ms: "ms = take i ms @ ms ! i # drop (Suc i) ms" using i(1) by (simp add: id_take_nth_drop)
  have r: "remove_at i ms = take i ms @ drop (Suc i) ms" by (simp add: remove_at_def)
  have "mounts_wf (take i ms @ ms ! i # drop (Suc i) ms)" using assms(1) by (simp only: ms [symmetric])
  then show "mounts_wf (remove_at i ms)" unfolding r by (auto simp: mounts_wf_def sorted_wrt_append)
  have d: "fst (ms ! i) \<notin> fst ` set (take i ms)" "fst (ms ! i) \<notin> fst ` set (drop (Suc i) ms)"
    using \<open>mounts_wf (take i ms @ ms ! i # drop (Suc i) ms)\<close> by (auto simp: mounts_wf_def)
  have "set (remove_at i ms) = {m \<in> set (take i ms @ ms ! i # drop (Suc i) ms). fst m \<noteq> p}"
    using d i(2) unfolding r by (auto simp: image_iff)
  then show "set (remove_at i ms) = {m \<in> set ms. fst m \<noteq> p}" by (simp only: ms [symmetric])
qed

interpretation table_points: mount_points MAX_MOUNTS table_mount table_unmount table_resolve
proof
  show "table_mount p fs ms = (Inl NoSpace, ms)" if "MAX_MOUNTS \<le> length ms" for p and fs :: 'a and ms
    using that by (simp add: table_mount_def)
  show "table_mount p fs ms = (Inl AlreadyExists, ms)" if "length ms < MAX_MOUNTS" "p \<in> fst ` set ms" for p and fs :: 'a and ms
    using that by (auto simp: table_mount_def)
  show "\<exists>ms'. table_mount p fs ms = (Inr (), ms') \<and> mounts_wf ms' \<and> set ms' = insert (p, fs) (set ms)"
    if "length ms < MAX_MOUNTS" "p \<notin> fst ` set ms" "mounts_wf ms" "canonical p" for p and fs :: 'a and ms
    using that mounts_wf_add [OF that(3,4,2), of fs] by (auto simp: table_mount_def)
  show "table_unmount p ms = (Inl NotFound, ms)" if "p \<notin> fst ` set ms" for p and ms :: "'a mounts"
    using that by (auto simp: table_unmount_def position_None split: option.splits dest: position_SomeD)
  show "\<exists>ms'. table_unmount p ms = (Inr (), ms') \<and> mounts_wf ms' \<and> set ms' = {m \<in> set ms. fst m \<noteq> p}"
    if "p \<in> fst ` set ms" "mounts_wf ms" for p and ms :: "'a mounts"
    using that mounts_wf_remove [OF that(2)] by (auto simp: table_unmount_def position_None split: option.splits)
  show "case table_resolve ms (abs_path ns) of None \<Rightarrow> \<forall>m \<in> set ms. \<not> covers (fst m) ns
      | Some (fs, rel) \<Rightarrow> deepest_cover ms ns fs rel"
    if "mounts_wf ms" "\<forall>c \<in> set ns. component c" for ms :: "'a mounts" and ns
    using resolve_loop_longest [OF that] normalize_canonical [OF canonical_abs_path [OF that(2)]]
    by (simp add: table_resolve_def)
qed

lemma ns_ops_eq: "ns_unmount = table_unmount" "ns_resolve = table_resolve"
  by (intro ext, simp add: ns_unmount_def table_unmount_def)
    (intro ext, simp add: ns_resolve_def table_resolve_def normalize_path_def Let_def)

interpretation ns_points: mount_points MAX_NS_MOUNTS ns_mount ns_unmount ns_resolve
proof
  show "ns_mount p fs ms = (Inl NoSpace, ms)" if "MAX_NS_MOUNTS \<le> length ms" for p and fs :: 'a and ms
    using that by (simp add: ns_mount_def)
  show "ns_mount p fs ms = (Inl AlreadyExists, ms)" if "length ms < MAX_NS_MOUNTS" "p \<in> fst ` set ms" for p and fs :: 'a and ms
    using that by (auto simp: ns_mount_def)
  show "\<exists>ms'. ns_mount p fs ms = (Inr (), ms') \<and> mounts_wf ms' \<and> set ms' = insert (p, fs) (set ms)"
    if "length ms < MAX_NS_MOUNTS" "p \<notin> fst ` set ms" "mounts_wf ms" "canonical p" for p and fs :: 'a and ms
    using that mounts_wf_add [OF that(3,4,2), of fs] by (auto simp: ns_mount_def)
qed (unfold ns_ops_eq, (fact table_points.unmount_absent table_points.unmount_present table_points.resolve_deepest)+)

end
