(* ===== verification/Vfs_Memfs_Proofs.thy ===== *)
theory Vfs_Memfs_Proofs
  imports Vfs_Memfs
begin

text \<open>
  What the in-memory filesystem promises. A filesystem is seen as a partial function from
  component lists to entries; every operation is characterised by what it does to this view.
\<close>

section \<open>Well-formed trees\<close>

fun node_wf :: "fs_node \<Rightarrow> bool" where
  "node_wf (File _ _ _) \<longleftrightarrow> True"
| "node_wf (Directory children _) \<longleftrightarrow> bt_wf children \<and> (\<forall>kn \<in> set children. node_wf (snd kn))"

lemma node_wf_child: "node_wf (Directory ch t) \<Longrightarrow> map_of ch c = Some n \<Longrightarrow> node_wf n"
  by (fastforce dest: map_of_SomeD)

lemma node_wf_insert: "node_wf (Directory ch t) \<Longrightarrow> node_wf n \<Longrightarrow> node_wf (Directory (bt_insert c n ch) t)"
  using values_bt_insert [of c n ch] by (auto simp: bt_wf_insert)

lemma node_wf_remove: "node_wf (Directory ch t) \<Longrightarrow> node_wf (Directory (bt_remove c ch) t)"
  by (auto simp: bt_wf_remove) (auto simp: bt_remove_def)

section \<open>The view\<close>

datatype entry = FileE "u8 list" | DirE

definition view :: "fs_node \<Rightarrow> string list \<Rightarrow> entry option" where
  "view node p = (case navigate_comps node p of
     Inl _ \<Rightarrow> None | Inr (File d _ _) \<Rightarrow> Some (FileE d) | Inr (Directory _ _) \<Rightarrow> Some DirE)"

lemma view_simps [simp]:
  "view (File d a b) [] = Some (FileE d)" "view (Directory ch t) [] = Some DirE"
  "view (File d a b) (c # p) = None"
  "view (Directory ch t) (c # p) = (case map_of ch c of None \<Rightarrow> None | Some n \<Rightarrow> view n p)"
  by (auto simp: view_def split: option.splits)

text \<open>Replace what a directory holds under one name; everything else stays.\<close>

definition graft :: "(string list \<Rightarrow> entry option) \<Rightarrow> string list \<Rightarrow> (string list \<Rightarrow> entry option)
    \<Rightarrow> string list \<Rightarrow> entry option" where
  "graft base p sub q = (if prefix p q then sub (drop (length p) q) else base q)"

lemma at_dir_Inr:
  assumes "at_dir cs f root = Inr (r, root')"
  shows "\<exists>ch t ch'. navigate_comps root cs = Inr (Directory ch t) \<and> f ch = Inr (r, ch')
    \<and> navigate_comps root' cs = Inr (Directory ch' t)
    \<and> (\<forall>c X. map_of ch' = (map_of ch)(c := X) \<longrightarrow>
         view root' = graft (view root) (cs @ [c]) (\<lambda>q. case X of None \<Rightarrow> None | Some n \<Rightarrow> view n q))"
  using assms
proof (induction cs f root arbitrary: root' rule: at_dir.induct)
  case (1 f ch t)
  then obtain ch' where f: "f ch = Inr (r, ch')" and root': "root' = Directory ch' t"
    by (auto split: sum.splits)
  have v1: "view root' = graft (view (Directory ch t)) [c] (\<lambda>q. case X of None \<Rightarrow> None | Some n \<Rightarrow> view n q)"
    if "map_of ch' = (map_of ch)(c := X)" for c X
  proof
    fix q
    show "view root' q = graft (view (Directory ch t)) [c] (\<lambda>q. case X of None \<Rightarrow> None | Some n \<Rightarrow> view n q) q"
      using that by (cases q) (auto simp: root' graft_def split: option.splits)
  qed
  show ?case
    by (intro exI [of _ ch] exI [of _ t] exI [of _ ch'] conjI allI impI)
      (use f root' v1 in \<open>simp_all only: navigate_comps.simps append_Nil\<close>)
next
  case (3 d cs f ch0 t0)
  obtain n n' where n: "map_of ch0 d = Some n" and a: "at_dir cs f n = Inr (r, n')"
    and root': "root' = Directory (bt_insert d n' ch0) t0"
    using "3.prems" by (auto split: option.splits sum.splits)
  from "3.IH" [OF n a] obtain ch t ch' where
    nav: "navigate_comps n cs = Inr (Directory ch t)" "f ch = Inr (r, ch')"
      "navigate_comps n' cs = Inr (Directory ch' t)"
    and v: "\<forall>c X. map_of ch' = (map_of ch)(c := X) \<longrightarrow>
         view n' = graft (view n) (cs @ [c]) (\<lambda>q. case X of None \<Rightarrow> None | Some n \<Rightarrow> view n q)" by blast
  have v1: "view root' = graft (view (Directory ch0 t0)) ((d # cs) @ [c]) (\<lambda>q. case X of None \<Rightarrow> None | Some n \<Rightarrow> view n q)"
    if "map_of ch' = (map_of ch)(c := X)" for c X
  proof
    fix q
    have "view n' = graft (view n) (cs @ [c]) (\<lambda>q. case X of None \<Rightarrow> None | Some n \<Rightarrow> view n q)"
      using v that by blast
    then show "view root' q = graft (view (Directory ch0 t0)) ((d # cs) @ [c]) (\<lambda>q. case X of None \<Rightarrow> None | Some n \<Rightarrow> view n q) q"
      using n by (cases q) (auto simp: root' graft_def split: option.splits)
  qed
  have "navigate_comps (Directory ch0 t0) (d # cs) = Inr (Directory ch t)"
    "navigate_comps root' (d # cs) = Inr (Directory ch' t)" using n nav root' by simp_all
  with nav(2) v1 show ?case by blast
qed auto

lemma at_dir_wf:
  assumes "at_dir cs f root = Inr (r, root')" "node_wf root"
    and "\<And>ch t ch'. node_wf (Directory ch t) \<Longrightarrow> f ch = Inr (r, ch') \<Longrightarrow> node_wf (Directory ch' t)"
  shows "node_wf root'"
  using assms
proof (induction cs f root arbitrary: root' rule: at_dir.induct)
  case (1 f ch t)
  from "1.prems"(1) obtain ch' where "f ch = Inr (r, ch')" "root' = Directory ch' t"
    by (cases "f ch") auto
  with "1.prems"(2,3) show ?case by blast
next
  case (3 d cs f ch t)
  obtain n n' where n: "map_of ch d = Some n" and a: "at_dir cs f n = Inr (r, n')"
    and root': "root' = Directory (bt_insert d n' ch) t"
    using "3.prems"(1) by (auto split: option.splits sum.splits)
  have "node_wf n'" by (rule "3.IH" [OF n a node_wf_child [OF "3.prems"(2) n] "3.prems"(3)])
  then show ?case unfolding root' by (rule node_wf_insert [OF "3.prems"(2)])
qed auto

text \<open>A change that is undone by a second visit to the same directory restores the tree.\<close>

lemma at_dir_undo:
  assumes "at_dir cs f root = Inr (r, root1)" "node_wf root"
    and "\<And>ch t ch1. node_wf (Directory ch t) \<Longrightarrow> f ch = Inr (r, ch1) \<Longrightarrow> g ch1 = Inr (r2, ch)"
  shows "at_dir cs g root1 = Inr (r2, root)"
  using assms
proof (induction cs f root arbitrary: root1 rule: at_dir.induct)
  case (1 f ch t)
  from "1.prems"(1) obtain ch1 where f: "f ch = Inr (r, ch1)" "root1 = Directory ch1 t"
    by (cases "f ch") auto
  from "1.prems"(3) [OF "1.prems"(2) f(1)] f(2) show ?case by simp
next
  case (3 d cs f ch t)
  obtain n n' where n: "map_of ch d = Some n" and a: "at_dir cs f n = Inr (r, n')"
    and root1: "root1 = Directory (bt_insert d n' ch) t"
    using "3.prems"(1) by (auto split: option.splits sum.splits)
  have "at_dir cs g n' = Inr (r2, n)" by (rule "3.IH" [OF n a node_wf_child [OF "3.prems"(2) n] "3.prems"(3)])
  moreover have "bt_insert d n ch = ch" using "3.prems"(2) n by (simp add: bt_insert_same)
  ultimately show ?case by (simp add: root1 bt_insert_twice)
qed auto

section \<open>Operations on one name\<close>

lemma parent_and_name_eq:
  "parent_and_name path = (if path_components path = [] then Inl InvalidPath
     else Inr (butlast (path_components path), last (path_components path)))"
proof -
  let ?t = "trim_matches slash path"
  have empty: "filter (\<lambda>s. s \<noteq> []) (str_split slash []) = []" by simp
  show ?thesis
  proof (cases "rfind slash ?t")
    case None
    with rsplit_components [OF refl, of path] show ?thesis by (simp add: parent_and_name_def Let_def)
  next
    case (Some i)
    with rsplit_components [OF refl, of path] show ?thesis
      by (simp add: parent_and_name_def Let_def path_components_eq)
  qed
qed

lemma navigate_snoc:
  "navigate_comps root (cs @ [c]) =
     (case navigate_comps root cs of
        Inl e \<Rightarrow> Inl e
      | Inr (Directory ch t) \<Rightarrow> (case map_of ch c of None \<Rightarrow> Inl NotFound | Some n \<Rightarrow> Inr n)
      | Inr (File _ _ _) \<Rightarrow> Inl NotADirectory)"
proof (induction root cs rule: navigate_comps.induct)
  case (1 node)
  then show ?case by (cases node) (auto split: option.splits)
qed (auto split: option.splits)

text \<open>
  What a mutation through \<open>navigate_parent\<close> does: it fails and changes nothing, or it runs on the
  children of the parent directory.
\<close>

lemma on_parent_cases:
  assumes "on_root (navigate_parent path F) fs = (res, fs')"
  obtains (err) e where "res = Inl e" "fs' = fs"
  | (ok) r cs c ch t ch' where "res = Inr r" "path_components path = cs @ [c]"
      "at_dir cs (F c) (mem_root fs) = Inr (r, mem_root fs')"
      "fs' = fs\<lparr>mem_root := mem_root fs'\<rparr>"
      "navigate_comps (mem_root fs) cs = Inr (Directory ch t)" "F c ch = Inr (r, ch')"
      "navigate_comps (mem_root fs') cs = Inr (Directory ch' t)"
      "\<And>X. map_of ch' = (map_of ch)(c := X) \<Longrightarrow> view (mem_root fs') =
         graft (view (mem_root fs)) (path_components path) (\<lambda>q. case X of None \<Rightarrow> None | Some n \<Rightarrow> view n q)"
proof (cases "path_components path = []")
  case True
  with assms have "res = Inl InvalidPath" "fs' = fs"
    by (auto simp: on_root_def navigate_parent_def parent_and_name_eq)
  then show thesis by (rule err)
next
  case False
  let ?cs = "butlast (path_components path)" and ?c = "last (path_components path)"
  have pc: "path_components path = ?cs @ [?c]" using False by simp
  have nav: "navigate_parent path F (mem_root fs) = at_dir ?cs (F ?c) (mem_root fs)"
    using False by (simp add: navigate_parent_def parent_and_name_eq)
  show thesis
  proof (cases "at_dir ?cs (F ?c) (mem_root fs)")
    case (Inl e)
    with assms nav show thesis by (intro err [of e]) (auto simp: on_root_def)
  next
    case (Inr rr)
    obtain r root' where rr: "rr = (r, root')" by (cases rr)
    then have at: "at_dir ?cs (F ?c) (mem_root fs) = Inr (r, root')" using Inr by simp
    have fs': "fs' = fs\<lparr>mem_root := root'\<rparr>" "res = Inr r" using assms nav at by (auto simp: on_root_def)
    from at_dir_Inr [OF at] obtain ch t ch' where
      d: "navigate_comps (mem_root fs) ?cs = Inr (Directory ch t)" "F ?c ch = Inr (r, ch')"
        "navigate_comps root' ?cs = Inr (Directory ch' t)"
        "\<forall>c X. map_of ch' = (map_of ch)(c := X) \<longrightarrow>
         view root' = graft (view (mem_root fs)) (?cs @ [c]) (\<lambda>q. case X of None \<Rightarrow> None | Some n \<Rightarrow> view n q)"
      by blast
    have "mem_root fs' = root'" "fs' = fs\<lparr>mem_root := mem_root fs'\<rparr>" by (simp_all add: fs'(1))
    moreover have "view (mem_root fs') = graft (view (mem_root fs)) (path_components path)
        (\<lambda>q. case X of None \<Rightarrow> None | Some n \<Rightarrow> view n q)" if "map_of ch' = (map_of ch)(?c := X)" for X
      using d(4) that pc \<open>mem_root fs' = root'\<close> by metis
    ultimately show thesis using ok [OF fs'(2) pc] at d(1-3) by metis
  qed
qed

abbreviation file_view :: "u8 list \<Rightarrow> string list \<Rightarrow> entry option" where
  "file_view data \<equiv> \<lambda>q. if q = [] then Some (FileE data) else None"

lemma view_File: "view (File d a b) = file_view d"
proof
  fix q show "view (File d a b) q = file_view d q" by (cases q) auto
qed

lemma read_file_view: "read_file fs path = Inr d \<longleftrightarrow> view (mem_root fs) (path_components path) = Some (FileE d)"
  by (auto simp: read_file_def navigate_def view_def split: sum.splits fs_node.splits)

lemma graft_here: "graft base p sub p = sub []"
  by (simp add: graft_def)

section \<open>Sizes\<close>

lemma size_at_dir:
  assumes "at_dir cs f root = Inr (r, root')" "node_wf root"
    and "\<And>ch t ch'. node_wf (Directory ch t) \<Longrightarrow> f ch = Inr (r, ch') \<Longrightarrow>
        total_size (Directory ch' t) + a \<le> total_size (Directory ch t) + b"
  shows "total_size root' + a \<le> total_size root + b"
  using assms
proof (induction cs f root arbitrary: root' rule: at_dir.induct)
  case (1 f ch t)
  from "1.prems"(1) obtain ch' where f: "f ch = Inr (r, ch')" "root' = Directory ch' t" by (cases "f ch") auto
  from "1.prems"(3) [OF "1.prems"(2) f(1)] f(2) show ?case by simp
next
  case (3 d cs f ch t)
  obtain n n' where n: "map_of ch d = Some n" and a: "at_dir cs f n = Inr (r, n')"
    and root': "root' = Directory (bt_insert d n' ch) t"
    using "3.prems"(1) by (auto split: option.splits sum.splits)
  have le: "total_size n' + a \<le> total_size n + b"
    by (rule "3.IH" [OF n a node_wf_child [OF "3.prems"(2) n] "3.prems"(3)])
  have "bt_wf ch" using "3.prems"(2) by simp
  from sum_bt_insert [OF this, of total_size d n'] n le show ?case by (simp add: root')
qed auto

lemma size_bt_insert:
  assumes "node_wf (Directory ch t)"
  shows "total_size (Directory (bt_insert c n ch) t) + (case map_of ch c of None \<Rightarrow> 0 | Some w \<Rightarrow> total_size w)
    = total_size (Directory ch t) + total_size n"
  using sum_bt_insert [of ch total_size c n] assms by simp

lemma size_bt_remove:
  assumes "node_wf (Directory ch t)" "map_of ch c = Some n"
  shows "total_size (Directory (bt_remove c ch) t) + total_size n = total_size (Directory ch t)"
  using size_bt_insert [OF node_wf_remove [OF assms(1)], of c n c] assms by (simp add: bt_insert_removed)

section \<open>Every operation keeps the tree well formed\<close>

definition memfs_wf :: "memfs \<Rightarrow> bool" where
  "memfs_wf fs \<longleftrightarrow> node_wf (mem_root fs)"

lemma memfs_wf_new [simp]: "memfs_wf memfs_new" "memfs_wf (with_max_size m)"
  by (simp_all add: memfs_wf_def memfs_new_def with_max_size_def new_directory_def bt_wf_def)

lemma on_parent_wf:
  assumes "on_root (navigate_parent path F) fs = (res, fs')" "memfs_wf fs"
    and "\<And>c ch t r ch'. node_wf (Directory ch t) \<Longrightarrow> F c ch = Inr (r, ch') \<Longrightarrow> node_wf (Directory ch' t)"
  shows "memfs_wf fs'"
  using assms(1)
proof (cases rule: on_parent_cases)
  case (ok r cs c ch t ch')
  show ?thesis unfolding memfs_wf_def
    by (rule at_dir_wf [OF ok(3) _ assms(3)]) (use assms(2) in \<open>simp_all add: memfs_wf_def\<close>)
qed (use assms(2) in simp)

lemma on_parent_size:
  assumes "on_root (navigate_parent path F) fs = (Inr r, fs')" "memfs_wf fs"
    and "\<And>c ch t ch'. node_wf (Directory ch t) \<Longrightarrow> F c ch = Inr (r, ch') \<Longrightarrow>
        total_size (Directory ch' t) + a \<le> total_size (Directory ch t) + b"
  shows "total_size (mem_root fs') + a \<le> total_size (mem_root fs) + b"
  using assms(1)
proof (cases rule: on_parent_cases)
  case (ok r' cs c ch t ch')
  show ?thesis
    by (rule size_at_dir [OF ok(3)]) (use assms(2,3) ok(1) in \<open>auto simp: memfs_wf_def\<close>)
qed simp

lemma on_parent_fields:
  assumes "on_root (navigate_parent path F) fs = (res, fs')"
  shows "max_size fs' = max_size fs" "mem_now fs' = mem_now fs"
  using assms by (auto simp: on_root_def split: sum.splits)

text \<open>The node a successful removal detaches is well formed.\<close>

definition detach :: "string \<Rightarrow> (string, fs_node) btree \<Rightarrow> fs_error + (fs_node \<times> (string, fs_node) btree)" where
  "detach old_filename parent = (case map_of parent old_filename of
     None \<Rightarrow> Inl NotFound | Some node \<Rightarrow> Inr (node, bt_remove old_filename parent))"

definition attach :: "fs_node \<Rightarrow> string \<Rightarrow> (string, fs_node) btree \<Rightarrow> fs_error + (unit \<times> (string, fs_node) btree)" where
  "attach node new_filename parent = (case map_of parent new_filename of
     Some _ \<Rightarrow> Inl AlreadyExists | None \<Rightarrow> Inr ((), bt_insert new_filename node parent))"

lemma rename_eq:
  "rename old_path new_path fs =
     (case on_root (navigate_parent old_path detach) fs of
        (Inl e, fs1) \<Rightarrow> (Inl e, fs1)
      | (Inr node, fs1) \<Rightarrow>
          (case on_root (navigate_parent new_path (attach node)) fs1 of
             (Inl e, _) \<Rightarrow> reattach old_path node e fs1
           | (Inr _, fs2) \<Rightarrow> (Inr (), fs2)))"
  unfolding rename_def detach_def attach_def ..

lemma detach_spec:
  assumes "on_root (navigate_parent path detach) fs = (Inr node, fs1)" "memfs_wf fs"
  shows "memfs_wf fs1" "node_wf node" "max_size fs1 = max_size fs" "mem_now fs1 = mem_now fs"
    "total_size (mem_root fs1) + total_size node \<le> total_size (mem_root fs)"
    "navigate_comps (mem_root fs) (path_components path) = Inr node"
    "view (mem_root fs1) = graft (view (mem_root fs)) (path_components path) (\<lambda>q. None)"
    "reattach path node e fs1 = (Inl e, fs)"
proof -
  show "max_size fs1 = max_size fs" "mem_now fs1 = mem_now fs"
    using on_parent_fields [OF assms(1)] by auto
  show "memfs_wf fs1"
    by (rule on_parent_wf [OF assms])
      (auto simp: detach_def simp del: node_wf.simps split: option.splits intro: node_wf_remove)
  have "total_size (mem_root fs1) + total_size node \<le> total_size (mem_root fs) + 0"
    by (rule on_parent_size [OF assms])
      (auto simp: detach_def dest!: size_bt_remove simp del: total_size.simps node_wf.simps
        split: option.splits)
  then show "total_size (mem_root fs1) + total_size node \<le> total_size (mem_root fs)" by simp
  have "node_wf node \<and> navigate_comps (mem_root fs) (path_components path) = Inr node
    \<and> view (mem_root fs1) = graft (view (mem_root fs)) (path_components path) (\<lambda>q. None)
    \<and> reattach path node e fs1 = (Inl e, fs)"
    using assms(1)
  proof (cases rule: on_parent_cases)
    case (ok r cs c ch t ch')
    have n: "map_of ch c = Some node" "ch' = bt_remove c ch" using ok(1,6) by (auto simp: detach_def split: option.splits)
    have "navigate_comps (mem_root fs) (cs @ [c]) = Inr node" using ok(5) n by (simp add: navigate_snoc)
    then have nav: "navigate_comps (mem_root fs) (path_components path) = Inr node" using ok(2) by simp
    have nav_wf: "node_wf root \<Longrightarrow> navigate_comps root p = Inr m \<Longrightarrow> node_wf m" for root p m
    proof (induction root p rule: navigate_comps.induct)
      case (2 ch t c p)
      then show ?case by (metis navigate_comps.simps(2) node_wf_child option.case_eq_if option.collapse sum.distinct(1))
    qed auto
    have n_wf: "node_wf node" by (rule nav_wf [OF _ nav]) (use assms(2) in \<open>simp add: memfs_wf_def\<close>)
    have "map_of ch' = (map_of ch)(c := None)" using n by simp
    from ok(8) [OF this] have v: "view (mem_root fs1) = graft (view (mem_root fs)) (path_components path) (\<lambda>q. None)"
      by simp
    have "at_dir cs (\<lambda>parent. Inr ((), bt_insert c node parent)) (mem_root fs1) = Inr ((), mem_root fs)"
      using ok(1) assms(2)
      by (intro at_dir_undo [OF ok(3)])
        (auto simp: memfs_wf_def detach_def bt_insert_removed split: option.splits)
    moreover have "fs1\<lparr>mem_root := mem_root fs\<rparr> = fs" by (subst ok(4)) simp
    ultimately have "reattach path node e fs1 = (Inl e, fs)"
      using ok(2) by (simp add: reattach_def on_root_def navigate_parent_def parent_and_name_eq)
    with nav n_wf v show ?thesis by blast
  qed simp
  then show "node_wf node" "navigate_comps (mem_root fs) (path_components path) = Inr node"
    "view (mem_root fs1) = graft (view (mem_root fs)) (path_components path) (\<lambda>q. None)"
    "reattach path node e fs1 = (Inl e, fs)" by blast+
qed


lemma attach_spec:
  assumes "on_root (navigate_parent path (attach node)) fs = (res, fs')" "memfs_wf fs" "node_wf node"
  shows "memfs_wf fs'" "max_size fs' = max_size fs" "mem_now fs' = mem_now fs"
    "total_size (mem_root fs') \<le> total_size (mem_root fs) + total_size node"
    "case res of Inl e \<Rightarrow> fs' = fs
     | Inr u \<Rightarrow> view (mem_root fs) (path_components path) = None
         \<and> view (mem_root fs') = graft (view (mem_root fs)) (path_components path) (view node)"
proof -
  show "max_size fs' = max_size fs" "mem_now fs' = mem_now fs" using on_parent_fields [OF assms(1)] by auto
  show "memfs_wf fs'"
    by (rule on_parent_wf [OF assms(1,2)])
      (use assms(3) in \<open>auto simp: attach_def simp del: node_wf.simps split: option.splits intro: node_wf_insert\<close>)
  show "total_size (mem_root fs') \<le> total_size (mem_root fs) + total_size node"
  proof (cases res)
    case (Inl e)
    with assms(1) show ?thesis by (auto simp: on_root_def split: sum.splits)
  next
    case (Inr u)
    have "total_size (mem_root fs') + 0 \<le> total_size (mem_root fs) + total_size node"
    proof (rule on_parent_size [OF assms(1) [unfolded Inr] assms(2)])
      fix c ch t ch' assume "node_wf (Directory ch t)" "attach node c ch = Inr (u, ch')"
      then show "total_size (Directory ch' t) + 0 \<le> total_size (Directory ch t) + total_size node"
        using size_bt_insert [of ch t c node]
        by (auto simp: attach_def simp del: total_size.simps node_wf.simps split: option.splits)
    qed
    then show ?thesis by simp
  qed
  from assms(1) show "case res of Inl e \<Rightarrow> fs' = fs
     | Inr u \<Rightarrow> view (mem_root fs) (path_components path) = None
         \<and> view (mem_root fs') = graft (view (mem_root fs)) (path_components path) (view node)"
  proof (cases rule: on_parent_cases)
    case (ok r cs c ch t ch')
    have n: "map_of ch c = None" "ch' = bt_insert c node ch"
      using ok(6) by (auto simp: attach_def split: option.splits)
    then have "map_of ch' = (map_of ch)(c := Some node)" by simp
    from ok(8) [OF this] have "view (mem_root fs') = graft (view (mem_root fs)) (path_components path) (view node)"
      by simp
    moreover have "view (mem_root fs) (path_components path) = None"
      using ok(2,5) n(1) by (simp add: view_def navigate_snoc)
    ultimately show ?thesis using ok(1) by simp
  qed simp
qed

text \<open>The three file writers.\<close>

lemma write_file_spec:
  assumes "write_file path data fs = (res, fs')"
  shows "case res of Inl e \<Rightarrow> fs' = fs
    | Inr u \<Rightarrow> view (mem_root fs') = graft (view (mem_root fs)) (path_components path) (file_view data)"
proof (cases "no_space fs (length data)")
  case False
  with assms have "on_root (navigate_parent path (\<lambda>filename parent.
      Inr ((), bt_insert filename (File data (mem_now fs) (mem_now fs)) parent))) fs = (res, fs')"
    by (simp add: write_file_def)
  then show ?thesis
  proof (cases rule: on_parent_cases)
    case (ok r cs c ch t ch')
    have "map_of ch' = (map_of ch)(c := Some (File data (mem_now fs) (mem_now fs)))" using ok(6) by auto
    from ok(8) [OF this] ok(1) show ?thesis by (simp add: view_File)
  qed simp
qed (use assms in \<open>auto simp: write_file_def\<close>)

lemma write_at_spec:
  assumes "write_at path offset data fs = (res, fs')"
  shows "case res of Inl e \<Rightarrow> fs' = fs
    | Inr n \<Rightarrow> n = length data \<and> (if data = [] then fs' = fs
        else \<exists>d. view (mem_root fs) (path_components path) = Some (FileE d)
          \<and> view (mem_root fs') = graft (view (mem_root fs)) (path_components path) (file_view (overwrite offset data d)))"
proof (cases "data = []")
  case False
  with assms have "on_root (navigate_parent path (\<lambda>filename parent.
      case map_of parent filename of
        Some (File d created _) \<Rightarrow>
          Inr (length data, bt_insert filename (File (overwrite offset data d) created (mem_now fs)) parent)
      | Some (Directory _ _) \<Rightarrow> Inl NotAFile
      | None \<Rightarrow> Inl NotFound)) fs = (res, fs')"
    by (simp add: write_at_def)
  then show ?thesis
  proof (cases rule: on_parent_cases)
    case (ok r cs c ch t ch')
    then obtain d a b where m: "map_of ch c = Some (File d a b)" "r = length data"
      "ch' = bt_insert c (File (overwrite offset data d) a (mem_now fs)) ch"
      by (auto split: option.splits fs_node.splits)
    then have "map_of ch' = (map_of ch)(c := Some (File (overwrite offset data d) a (mem_now fs)))" by simp
    from ok(8) [OF this] have "view (mem_root fs') = graft (view (mem_root fs)) (path_components path)
        (file_view (overwrite offset data d))" by (simp add: view_File)
    moreover have "view (mem_root fs) (path_components path) = Some (FileE d)"
      using ok(2,5) m(1) by (simp add: view_def navigate_snoc)
    ultimately show ?thesis using False m(2) ok(1) by auto
  qed simp
qed (use assms in \<open>auto simp: write_at_def\<close>)

lemma append_file_spec:
  assumes "append_file path data fs = (res, fs')"
  shows "case res of Inl e \<Rightarrow> fs' = fs
    | Inr u \<Rightarrow> \<exists>d. (view (mem_root fs) (path_components path) = Some (FileE d)
          \<or> (view (mem_root fs) (path_components path) = None \<and> d = []))
        \<and> view (mem_root fs') = graft (view (mem_root fs)) (path_components path) (file_view (d @ data))"
proof (cases "no_space fs (length data)")
  case False
  with assms have "on_root (navigate_parent path (\<lambda>filename parent.
      case map_of parent filename of
        Some (File d created _) \<Rightarrow> Inr ((), bt_insert filename (File (d @ data) created (mem_now fs)) parent)
      | Some (Directory _ _) \<Rightarrow> Inl NotAFile
      | None \<Rightarrow> Inr ((), bt_insert filename (File data (mem_now fs) (mem_now fs)) parent))) fs = (res, fs')"
    by (simp add: append_file_def)
  then show ?thesis
  proof (cases rule: on_parent_cases)
    case (ok r cs c ch t ch')
    have v: "view (mem_root fs) (path_components path)
        = (case map_of ch c of None \<Rightarrow> None | Some n \<Rightarrow> view n [])"
      using ok(2,5) by (simp add: view_def navigate_snoc split: option.splits)
    from ok(6) consider (new) "map_of ch c = None" "ch' = bt_insert c (File data (mem_now fs) (mem_now fs)) ch"
      | (old) d a b where "map_of ch c = Some (File d a b)" "ch' = bt_insert c (File (d @ data) a (mem_now fs)) ch"
      by (auto split: option.splits fs_node.splits)
    then show ?thesis
    proof cases
      case new
      then have "map_of ch' = (map_of ch)(c := Some (File data (mem_now fs) (mem_now fs)))" by simp
      from ok(8) [OF this] ok(1) v new(1) show ?thesis by (simp add: view_File cong: if_cong)
    next
      case (old d a b)
      then have "map_of ch' = (map_of ch)(c := Some (File (d @ data) a (mem_now fs)))" by simp
      from ok(8) [OF this] ok(1) v old(1) show ?thesis by (simp add: view_File)
    qed
  qed simp
qed (use assms in \<open>auto simp: append_file_def\<close>)

lemma rename_spec:
  assumes wf: "memfs_wf fs" and r: "rename old_path new_path fs = (res, fs')"
  shows "memfs_wf fs' \<and> max_size fs' = max_size fs \<and> mem_now fs' = mem_now fs
    \<and> total_size (mem_root fs') \<le> total_size (mem_root fs)
    \<and> (case res of Inl e \<Rightarrow> fs' = fs
       | Inr u \<Rightarrow> view (mem_root fs') =
           graft (graft (view (mem_root fs)) (path_components old_path) (\<lambda>q. None)) (path_components new_path)
             (\<lambda>q. view (mem_root fs) (path_components old_path @ q))
         \<and> graft (view (mem_root fs)) (path_components old_path) (\<lambda>q. None) (path_components new_path) = None)"
proof -
  obtain r1 fs1 where d: "on_root (navigate_parent old_path detach) fs = (r1, fs1)"
    by (cases "on_root (navigate_parent old_path detach) fs")
  show ?thesis
  proof (cases r1)
    case (Inl e)
    with d r have "res = Inl e" "fs' = fs" by (auto simp: rename_eq on_root_def split: sum.splits)
    with wf show ?thesis by simp
  next
    case (Inr node)
    note ds = detach_spec [OF d [unfolded Inr] wf]
    obtain r2 fs2 where a: "on_root (navigate_parent new_path (attach node)) fs1 = (r2, fs2)"
      by (cases "on_root (navigate_parent new_path (attach node)) fs1")
    note as = attach_spec [OF a ds(1,2)]
    show ?thesis
    proof (cases r2)
      case (Inl e)
      with d Inr a r ds(8) have "res = Inl e" "fs' = fs" by (auto simp: rename_eq)
      with wf show ?thesis by simp
    next
      case (Inr u)
      with d \<open>r1 = Inr node\<close> a r have e: "res = Inr ()" "fs' = fs2" by (auto simp: rename_eq)
      have sub: "view node = (\<lambda>q. view (mem_root fs) (path_components old_path @ q))"
      proof
        fix q
        have "navigate_comps root (p @ q) = (case navigate_comps root p of Inl e \<Rightarrow> Inl e | Inr n \<Rightarrow> navigate_comps n q)" for root p
          by (induction root p rule: navigate_comps.induct) (auto split: option.splits)
        then show "view node q = view (mem_root fs) (path_components old_path @ q)"
          using ds(6) by (simp add: view_def)
      qed
      have "total_size (mem_root fs2) \<le> total_size (mem_root fs)" using as(4) ds(5) by linarith
      moreover have "max_size fs2 = max_size fs" "mem_now fs2 = mem_now fs" using as(2,3) ds(3,4) by simp_all
      moreover have "view (mem_root fs1) (path_components new_path) = None"
        "view (mem_root fs2) = graft (view (mem_root fs1)) (path_components new_path) (view node)"
        using as(5) Inr by simp_all
      ultimately show ?thesis using as(1) unfolding e sum.case ds(7) sub by blast
    qed
  qed
qed

section \<open>Sequences of operations\<close>

datatype memfs_op =
    WriteFile string "u8 list"
  | WriteAt string nat "u8 list"
  | AppendFile string "u8 list"
  | CreateDir string
  | RemoveFile string
  | RemoveDir string
  | Rename string string
  | SetTime u64

text \<open>Apply an operation; the boolean says whether it succeeded.\<close>

fun memfs_apply :: "memfs_op \<Rightarrow> memfs \<Rightarrow> bool \<times> memfs" where
  "memfs_apply (WriteFile p d) fs = (case write_file p d fs of (r, fs') \<Rightarrow> (\<not> isl r, fs'))"
| "memfs_apply (WriteAt p off d) fs = (case write_at p off d fs of (r, fs') \<Rightarrow> (\<not> isl r, fs'))"
| "memfs_apply (AppendFile p d) fs = (case append_file p d fs of (r, fs') \<Rightarrow> (\<not> isl r, fs'))"
| "memfs_apply (CreateDir p) fs = (case create_dir p fs of (r, fs') \<Rightarrow> (\<not> isl r, fs'))"
| "memfs_apply (RemoveFile p) fs = (case remove_file p fs of (r, fs') \<Rightarrow> (\<not> isl r, fs'))"
| "memfs_apply (RemoveDir p) fs = (case remove_dir p fs of (r, fs') \<Rightarrow> (\<not> isl r, fs'))"
| "memfs_apply (Rename a b) fs = (case rename a b fs of (r, fs') \<Rightarrow> (\<not> isl r, fs'))"
| "memfs_apply (SetTime t) fs = (True, set_time_fn t fs)"

definition memfs_run :: "memfs_op list \<Rightarrow> memfs \<Rightarrow> memfs" where
  "memfs_run ops fs = fold (\<lambda>op fs. snd (memfs_apply op fs)) ops fs"

definition within_limit :: "memfs \<Rightarrow> bool" where
  "within_limit fs \<longleftrightarrow> max_size fs = 0 \<or> total_size (mem_root fs) \<le> max_size fs"

text \<open>Facts about one mutation of a parent directory, in the form the operations use them.\<close>

lemma on_parent_op:
  assumes r: "on_root (navigate_parent path F) fs = (res, fs')" and wf: "memfs_wf fs"
    and F: "\<And>c ch t r ch'. node_wf (Directory ch t) \<Longrightarrow> F c ch = Inr (r, ch') \<Longrightarrow>
      node_wf (Directory ch' t) \<and> total_size (Directory ch' t) \<le> total_size (Directory ch t) + b"
  shows "memfs_wf fs' \<and> max_size fs' = max_size fs \<and> (\<not> isl res \<or> fs' = fs)
    \<and> total_size (mem_root fs') \<le> total_size (mem_root fs) + b"
proof -
  have "memfs_wf fs'" by (rule on_parent_wf [OF r wf]) (rule F [THEN conjunct1])
  moreover have "total_size (mem_root fs') \<le> total_size (mem_root fs) + b"
  proof (cases res)
    case (Inl e)
    with r show ?thesis by (auto simp: on_root_def split: sum.splits)
  next
    case (Inr x)
    have "total_size (mem_root fs') + 0 \<le> total_size (mem_root fs) + b"
    proof (rule on_parent_size [OF r [unfolded Inr] wf])
      fix c ch t ch' assume w: "node_wf (Directory ch t)" and f: "F c ch = Inr (x, ch')"
      from F [OF w f] show "total_size (Directory ch' t) + 0 \<le> total_size (Directory ch t) + b" by linarith
    qed
    then show ?thesis by simp
  qed
  moreover have "\<not> isl res \<or> fs' = fs" using r by (auto simp: on_root_def split: sum.splits)
  ultimately show ?thesis using on_parent_fields [OF r] by blast
qed

lemma insert_local:
  assumes "node_wf (Directory ch t)" "node_wf n"
    and "total_size n \<le> (case map_of ch c of None \<Rightarrow> 0 | Some w \<Rightarrow> total_size w) + b"
  shows "node_wf (Directory (bt_insert c n ch) t)
    \<and> total_size (Directory (bt_insert c n ch) t) \<le> total_size (Directory ch t) + b"
  using node_wf_insert [OF assms(1,2), of c] size_bt_insert [OF assms(1), of c n] assms(3) by linarith

lemma remove_local:
  assumes "node_wf (Directory ch t)" "map_of ch c = Some n"
  shows "node_wf (Directory (bt_remove c ch) t)
    \<and> total_size (Directory (bt_remove c ch) t) \<le> total_size (Directory ch t) + 0"
  using node_wf_remove [OF assms(1), of c] size_bt_remove [OF assms] by linarith

text \<open>The shape of every mutation's conclusion: \<open>b\<close> bytes may be added.\<close>

definition op_ok :: "nat \<Rightarrow> memfs \<Rightarrow> bool \<Rightarrow> memfs \<Rightarrow> bool" where
  "op_ok b fs ok fs' \<longleftrightarrow> memfs_wf fs' \<and> max_size fs' = max_size fs \<and> (ok \<or> fs' = fs)
     \<and> total_size (mem_root fs') \<le> total_size (mem_root fs) + b"

lemma op_ok_same: "memfs_wf fs \<Longrightarrow> op_ok b fs ok fs"
  by (simp add: op_ok_def)

lemma on_parent_ok:
  assumes r: "on_root (navigate_parent path F) fs = (res, fs')" and wf: "memfs_wf fs"
    and F: "\<And>c ch t r ch'. node_wf (Directory ch t) \<Longrightarrow> F c ch = Inr (r, ch') \<Longrightarrow>
      node_wf (Directory ch' t) \<and> total_size (Directory ch' t) \<le> total_size (Directory ch t) + b"
  shows "op_ok b fs (\<not> isl res) fs'"
  unfolding op_ok_def by (rule on_parent_op [OF r wf F])

lemma write_file_ok:
  assumes r: "write_file path data fs = (res, fs')" and wf: "memfs_wf fs"
  shows "op_ok (length data) fs (\<not> isl res) fs' \<and> (within_limit fs \<longrightarrow> within_limit fs')"
proof (cases "no_space fs (length data)")
  case True
  with r wf show ?thesis by (auto simp: write_file_def intro: op_ok_same)
next
  case False
  let ?F = "\<lambda>filename parent. Inr ((), bt_insert filename (File data (mem_now fs) (mem_now fs)) parent)"
  have r': "on_root (navigate_parent path ?F) fs = (res, fs')" using False r by (simp add: write_file_def)
  have "op_ok (length data) fs (\<not> isl res) fs'"
  proof (rule on_parent_ok [OF r' wf])
    fix c ch t x ch' assume w: "node_wf (Directory ch t)" and f: "?F c ch = Inr (x, ch')"
    have ch': "ch' = bt_insert c (File data (mem_now fs) (mem_now fs)) ch" using f by simp
    show "node_wf (Directory ch' t) \<and> total_size (Directory ch' t) \<le> total_size (Directory ch t) + length data"
      unfolding ch' by (rule insert_local [OF w]) simp_all
  qed
  with False show ?thesis by (auto simp: within_limit_def no_space_def op_ok_def)
qed

lemma append_file_ok:
  assumes r: "append_file path data fs = (res, fs')" and wf: "memfs_wf fs"
  shows "op_ok (length data) fs (\<not> isl res) fs' \<and> (within_limit fs \<longrightarrow> within_limit fs')"
proof (cases "no_space fs (length data)")
  case True
  with r wf show ?thesis by (auto simp: append_file_def intro: op_ok_same)
next
  case False
  let ?F = "\<lambda>filename parent. case map_of parent filename of
        Some (File d created _) \<Rightarrow> Inr ((), bt_insert filename (File (d @ data) created (mem_now fs)) parent)
      | Some (Directory _ _) \<Rightarrow> Inl NotAFile
      | None \<Rightarrow> Inr ((), bt_insert filename (File data (mem_now fs) (mem_now fs)) parent)"
  have r': "on_root (navigate_parent path ?F) fs = (res, fs')" using False r by (simp add: append_file_def)
  have "op_ok (length data) fs (\<not> isl res) fs'"
  proof (rule on_parent_ok [OF r' wf])
    fix c ch t x ch' assume w: "node_wf (Directory ch t)" and f: "?F c ch = Inr (x, ch')"
    from f obtain n where n: "ch' = bt_insert c n ch" "node_wf n"
      "total_size n \<le> (case map_of ch c of None \<Rightarrow> 0 | Some w \<Rightarrow> total_size w) + length data"
      by (auto split: option.splits fs_node.splits)
    show "node_wf (Directory ch' t) \<and> total_size (Directory ch' t) \<le> total_size (Directory ch t) + length data"
      unfolding n(1) by (rule insert_local [OF w n(2,3)])
  qed
  with False show ?thesis by (auto simp: within_limit_def no_space_def op_ok_def)
qed

lemma create_dir_ok:
  assumes r: "create_dir path fs = (res, fs')" and wf: "memfs_wf fs"
  shows "op_ok 0 fs (\<not> isl res) fs'"
proof (rule on_parent_ok [OF r [unfolded create_dir_def] wf])
  fix c ch t x ch' assume w: "node_wf (Directory ch t)"
    and f: "(case map_of ch c of Some _ \<Rightarrow> Inl AlreadyExists
      | None \<Rightarrow> Inr ((), bt_insert c (new_directory (mem_now fs)) ch)) = Inr (x, ch')"
  have ch': "ch' = bt_insert c (new_directory (mem_now fs)) ch" using f by (simp split: option.splits)
  show "node_wf (Directory ch' t) \<and> total_size (Directory ch' t) \<le> total_size (Directory ch t) + 0"
    unfolding ch' by (rule insert_local [OF w]) (simp_all add: new_directory_def bt_wf_def)
qed

lemma remove_ok:
  assumes r: "remove_file path fs = (res, fs') \<or> remove_dir path fs = (res, fs')" and wf: "memfs_wf fs"
  shows "op_ok 0 fs (\<not> isl res) fs'"
proof -
  have *: "op_ok 0 fs (\<not> isl res) fs'"
    if r: "on_root (navigate_parent path F) fs = (res, fs')"
      and F: "\<And>c ch x ch'. F c ch = Inr (x, ch') \<Longrightarrow> ch' = bt_remove c ch \<and> map_of ch c \<noteq> None"
    for F :: "string \<Rightarrow> (string, fs_node) btree \<Rightarrow> fs_error + unit \<times> (string, fs_node) btree"
  proof (rule on_parent_ok [OF r wf])
    fix c ch t x ch' assume w: "node_wf (Directory ch t)" and f: "F c ch = Inr (x, ch')"
    from F [OF f] obtain n where "ch' = bt_remove c ch" "map_of ch c = Some n" by auto
    with remove_local [OF w] show "node_wf (Directory ch' t) \<and> total_size (Directory ch' t) \<le> total_size (Directory ch t) + 0"
      by blast
  qed
  from r show ?thesis
  proof
    assume "remove_file path fs = (res, fs')"
    then show ?thesis unfolding remove_file_def by (rule *) (auto split: option.splits fs_node.splits)
  next
    assume "remove_dir path fs = (res, fs')"
    then show ?thesis unfolding remove_dir_def by (rule *) (auto split: option.splits fs_node.splits if_splits)
  qed
qed

lemma rename_ok:
  assumes "rename a b fs = (res, fs')" "memfs_wf fs"
  shows "op_ok 0 fs (\<not> isl res) fs'"
  using rename_spec [OF assms(2,1)] by (cases res) (auto simp: op_ok_def)

lemma write_at_ok:
  assumes r: "write_at path offset data fs = (res, fs')" and wf: "memfs_wf fs"
  shows "memfs_wf fs' \<and> max_size fs' = max_size fs \<and> (\<not> isl res \<or> fs' = fs)"
proof (cases "data = []")
  case True
  with r wf show ?thesis by (auto simp: write_at_def)
next
  case False
  let ?F = "\<lambda>filename parent. case map_of parent filename of
        Some (File d created _) \<Rightarrow>
          Inr (length data, bt_insert filename (File (overwrite offset data d) created (mem_now fs)) parent)
      | Some (Directory _ _) \<Rightarrow> Inl NotAFile
      | None \<Rightarrow> Inl NotFound"
  have r': "on_root (navigate_parent path ?F) fs = (res, fs')" using False r by (simp add: write_at_def)
  have "memfs_wf fs'"
  proof (rule on_parent_wf [OF r' wf])
    fix c ch t x ch' assume w: "node_wf (Directory ch t)" and f: "?F c ch = Inr (x, ch')"
    from f obtain d a where ch': "ch' = bt_insert c (File (overwrite offset data d) a (mem_now fs)) ch"
      by (auto split: option.splits fs_node.splits)
    show "node_wf (Directory ch' t)" unfolding ch' by (rule node_wf_insert [OF w]) simp
  qed
  moreover have "\<not> isl res \<or> fs' = fs" using r' by (auto simp: on_root_def split: sum.splits)
  ultimately show ?thesis using on_parent_fields [OF r'] by blast
qed

lemma memfs_apply_ok:
  assumes "memfs_apply op fs = (ok, fs')" "memfs_wf fs"
  shows "memfs_wf fs' \<and> max_size fs' = max_size fs \<and> (ok \<or> fs' = fs)"
  using assms
  by (cases op)
    (auto split: prod.splits simp: set_time_fn_def memfs_wf_def [of "_\<lparr>mem_now := _\<rparr>"] op_ok_def memfs_wf_def [symmetric]
      dest: write_file_ok write_at_ok append_file_ok create_dir_ok remove_ok [OF disjI1] remove_ok [OF disjI2] rename_ok)

lemma memfs_apply_limit:
  assumes "memfs_apply op fs = (ok, fs')" "memfs_wf fs" "\<forall>p off d. op \<noteq> WriteAt p off d" "within_limit fs"
  shows "within_limit fs'"
  using assms
  by (cases op)
    (auto split: prod.splits simp: set_time_fn_def within_limit_def [of "_\<lparr>mem_now := _\<rparr>"] op_ok_def within_limit_def
      dest: write_file_ok append_file_ok create_dir_ok remove_ok [OF disjI1] remove_ok [OF disjI2] rename_ok)

section \<open>Properties\<close>


text \<open>
  C12: \<open>rename\<close> is atomic: on success the whole subtree has moved, nothing was overwritten and
  nothing else changed; on any error, including a missing or occupied target discovered after
  the source was already detached, the filesystem is exactly as before.
\<close>

theorem memfs_rename_atomic:
  assumes "memfs_wf fs"
  shows "case rename old_path new_path fs of
      (Inl e, fs') \<Rightarrow> fs' = fs
    | (Inr u, fs') \<Rightarrow> view (mem_root fs') =
         graft (graft (view (mem_root fs)) (path_components old_path) (\<lambda>q. None)) (path_components new_path)
           (\<lambda>q. view (mem_root fs) (path_components old_path @ q))
       \<and> graft (view (mem_root fs)) (path_components old_path) (\<lambda>q. None) (path_components new_path) = None"
  using rename_spec [OF assms, of old_path new_path]
  by (cases "rename old_path new_path fs") (auto split: sum.splits)

theorem memfs_rename_atomic_witness:
  "memfs_wf (snd (write_file ''/a'' [1, 2] memfs_new))
   \<and> fst (rename ''/a'' ''/b'' (snd (write_file ''/a'' [1, 2] memfs_new))) = Inr ()
   \<and> read_file (snd (rename ''/a'' ''/b'' (snd (write_file ''/a'' [1, 2] memfs_new)))) ''/b'' = Inr [1, 2]"
proof -
  let ?fs = "snd (write_file ''/a'' [1, 2] memfs_new)"
  have wf: "memfs_wf ?fs"
    using write_file_ok [of "''/a''" "[1, 2]" memfs_new] by (cases "write_file ''/a'' [1, 2] memfs_new") (simp add: op_ok_def)
  have ok: "fst (rename ''/a'' ''/b'' ?fs) = Inr ()" by code_simp
  have src: "read_file ?fs ''/a'' = Inr [1, 2]" by code_simp
  have "path_components ''/a'' = [''a'']" "path_components ''/b'' = [''b'']" by code_simp+
  with memfs_rename_atomic [OF wf, of "''/a''" "''/b''"] ok src
  have "read_file (snd (rename ''/a'' ''/b'' ?fs)) ''/b'' = Inr [1, 2]"
    by (cases "rename ''/a'' ''/b'' ?fs") (auto simp: read_file_view graft_def)
  with wf ok show ?thesis by blast
qed



text \<open>
  \<open>write_at\<close> ignores the limit: two bytes at offset 6 of a one-byte file in a filesystem limited
  to 4 bytes succeed, after which the free space computed by \<open>stats\<close> underflows.
\<close>

lemma write_at_exceeds_limit:
  "total_size (mem_root (memfs_run [WriteFile ''/f'' [1], WriteAt ''/f'' 6 [2, 3]] (with_max_size 4))) = 8
   \<and> memfs_stats (memfs_run [WriteFile ''/f'' [1], WriteAt ''/f'' 6 [2, 3]] (with_max_size 4)) = None"
  by code_simp

text \<open>\<open>write_file\<close> on the path of a directory replaces the directory: its subtree is gone.\<close>

lemma write_file_replaces_directory:
  assumes "write_file path data fs = (Inr u, fs')" "q \<noteq> []"
  shows "view (mem_root fs') (path_components path @ q) = None"
  using write_file_spec [OF assms(1)] assms(2) by (simp add: graft_def)

end
