(* ===== verification/Vfs_Kernel.thy ===== *)
theory Vfs_Kernel
  imports Vfs_Mount Vfs_Memfs_Proofs
begin

text \<open>
  The kernel's VFS layer (\<open>src/vfs/mod.rs\<close>): box namespaces, routing of a path to a mounted
  filesystem, the file operations built on it, and the symlink table. A mounted
  \<open>Arc<dyn Filesystem>\<close> is a reference: an in-memory filesystem at an address of the heap, or
  the subdirectory filesystem of \<open>subdir_fs.rs\<close> around another reference. (The other two
  implementations of the trait, ext2 and procfs, are not mounted in this model.) An
  \<open>Arc<Namespace>\<close> is an address too, so that processes and the registry share it.
\<close>

section \<open>State\<close>

datatype fs_ref = MemFs nat | SubdirFs fs_ref string

record vfs =
  fs_heap :: "nat \<Rightarrow> memfs"
  ns_heap :: "nat \<Rightarrow> fs_ref mounts"
  ns_next :: nat
  MOUNT_TABLE :: "fs_ref mounts option"
  BOX_NAMESPACES :: "nat \<Rightarrow> nat option"
  SPAWN_NS_OVERRIDE :: "nat \<Rightarrow> nat option"
  SYMLINKS :: "(string \<Rightarrow> string option) option"
  FS_INITIALIZED :: bool

text \<open>The statics at boot.\<close>

definition vfs_start :: vfs where
  "vfs_start = \<lparr>fs_heap = (\<lambda>_. memfs_new), ns_heap = (\<lambda>_. []), ns_next = 0, MOUNT_TABLE = None,
     BOX_NAMESPACES = Map.empty, SPAWN_NS_OVERRIDE = Map.empty, SYMLINKS = None, FS_INITIALIZED = False\<rparr>"

text \<open>What the layer asks of the caller: the thread, and the current process's working directory
  and namespace, if there is a current process.\<close>

record proc_view =
  proc_cwd :: string
  proc_ns :: nat

record caller =
  caller_tid :: nat
  caller_proc :: "proc_view option"

text \<open>Dispatch through the trait object: \<open>SubdirFs\<close> prefixes the path and delegates.\<close>

fun on_fs :: "fs_ref \<Rightarrow> string \<Rightarrow> (string \<Rightarrow> memfs \<Rightarrow> (fs_error + 'a) \<times> memfs) \<Rightarrow> (nat \<Rightarrow> memfs)
    \<Rightarrow> (fs_error + 'a) \<times> (nat \<Rightarrow> memfs)" where
  "on_fs (MemFs a) path f h = (case f path (h a) of (r, m) \<Rightarrow> (r, h(a := m)))"
| "on_fs (SubdirFs inner pre) path f h = on_fs inner (full_path pre path) f h"

fun rename_fs :: "fs_ref \<Rightarrow> string \<Rightarrow> string \<Rightarrow> (nat \<Rightarrow> memfs) \<Rightarrow> (fs_error + unit) \<times> (nat \<Rightarrow> memfs)" where
  "rename_fs (MemFs a) old_path new_path h =
     (case rename old_path new_path (h a) of (r, m) \<Rightarrow> (r, h(a := m)))"
| "rename_fs (SubdirFs inner pre) old_path new_path h =
     rename_fs inner (full_path pre old_path) (full_path pre new_path) h"

fun fs_name :: "fs_ref \<Rightarrow> string" where
  "fs_name (MemFs a) = ''memfs''"
| "fs_name (SubdirFs inner pre) = ''subdirfs''"

section \<open>Namespaces\<close>

definition set_spawn_namespace :: "caller \<Rightarrow> nat \<Rightarrow> vfs \<Rightarrow> vfs" where
  "set_spawn_namespace c ns s = s\<lparr>SPAWN_NS_OVERRIDE := (SPAWN_NS_OVERRIDE s)(caller_tid c \<mapsto> ns)\<rparr>"

definition clear_spawn_namespace :: "caller \<Rightarrow> vfs \<Rightarrow> vfs" where
  "clear_spawn_namespace c s = s\<lparr>SPAWN_NS_OVERRIDE := (SPAWN_NS_OVERRIDE s)(caller_tid c := None)\<rparr>"

definition get_root_fs :: "vfs \<Rightarrow> fs_ref option" where
  "get_root_fs s = (case MOUNT_TABLE s of None \<Rightarrow> None | Some t \<Rightarrow> table_get_fs t [slash])"

definition create_box_namespace :: "nat \<Rightarrow> string \<Rightarrow> vfs \<Rightarrow> nat \<times> vfs" where
  "create_box_namespace box_id root_dir s =
     (case BOX_NAMESPACES s box_id of
        Some existing \<Rightarrow> (existing, s)
      | None \<Rightarrow>
          let ns = ns_next s;
              s1 = s\<lparr>ns_heap := (ns_heap s)(ns := []), ns_next := ns + 1\<rparr>;
              s2 = (if root_dir \<noteq> [slash]
                    then case get_root_fs s1 of
                           Some root_fs \<Rightarrow>
                             s1\<lparr>ns_heap := (ns_heap s1)(ns := snd (ns_mount [slash]
                                  (SubdirFs root_fs (subdir_new root_dir)) (ns_heap s1 ns)))\<rparr>
                         | None \<Rightarrow> s1
                    else s1)
          in (ns, s2\<lparr>BOX_NAMESPACES := (BOX_NAMESPACES s2)(box_id \<mapsto> ns)\<rparr>))"

definition remove_box_namespace :: "nat \<Rightarrow> vfs \<Rightarrow> vfs" where
  "remove_box_namespace box_id s = s\<lparr>BOX_NAMESPACES := (BOX_NAMESPACES s)(box_id := None)\<rparr>"

definition mount_in_namespace :: "nat \<Rightarrow> string \<Rightarrow> fs_ref \<Rightarrow> vfs \<Rightarrow> (fs_error + unit) \<times> vfs" where
  "mount_in_namespace box_id path fs s =
     (case BOX_NAMESPACES s box_id of
        None \<Rightarrow> (Inl NotFound, s)
      | Some ns \<Rightarrow> (case ns_mount path fs (ns_heap s ns) of
                     (r, ms) \<Rightarrow> (r, s\<lparr>ns_heap := (ns_heap s)(ns := ms)\<rparr>)))"

definition unmount_in_namespace :: "nat \<Rightarrow> string \<Rightarrow> vfs \<Rightarrow> (fs_error + unit) \<times> vfs" where
  "unmount_in_namespace box_id path s =
     (case BOX_NAMESPACES s box_id of
        None \<Rightarrow> (Inl NotFound, s)
      | Some ns \<Rightarrow> (case ns_unmount path (ns_heap s ns) of
                     (r, ms) \<Rightarrow> (r, s\<lparr>ns_heap := (ns_heap s)(ns := ms)\<rparr>)))"

section \<open>Routing\<close>

definition normalize_path_owned :: "string \<Rightarrow> string" where
  "normalize_path_owned path =
     (let trimmed = trim_end_matches slash path in
      if trimmed = [] then [slash]
      else if hd trimmed \<noteq> slash then slash # trimmed
      else trimmed)"

definition vfs_init :: "vfs \<Rightarrow> vfs" where
  "vfs_init s = (case MOUNT_TABLE s of None \<Rightarrow> s\<lparr>MOUNT_TABLE := Some []\<rparr> | Some _ \<Rightarrow> s)"

definition vfs_mount :: "string \<Rightarrow> fs_ref \<Rightarrow> vfs \<Rightarrow> (fs_error + unit) \<times> vfs" where
  "vfs_mount path fs s =
     (case MOUNT_TABLE s of
        None \<Rightarrow> (Inl NotInitialized, s)
      | Some t \<Rightarrow> (case table_mount path fs t of (r, t') \<Rightarrow> (r, s\<lparr>MOUNT_TABLE := Some t'\<rparr>)))"

definition route_global :: "string \<Rightarrow> vfs \<Rightarrow> fs_error + (fs_ref \<times> string)" where
  "route_global p s =
     (case MOUNT_TABLE s of
        None \<Rightarrow> Inl NotInitialized
      | Some t \<Rightarrow> (case table_resolve t p of None \<Rightarrow> Inl NotFound | Some x \<Rightarrow> Inr x))"

definition route_override :: "caller \<Rightarrow> string \<Rightarrow> vfs \<Rightarrow> (fs_ref \<times> string) option" where
  "route_override c path s =
     (case SPAWN_NS_OVERRIDE s (caller_tid c) of
        None \<Rightarrow> None
      | Some ns \<Rightarrow>
          let cwd = (case caller_proc c of None \<Rightarrow> [slash] | Some p \<Rightarrow> proc_cwd p)
          in ns_resolve (ns_heap s ns) (resolve_path cwd path))"

definition route :: "caller \<Rightarrow> string \<Rightarrow> vfs \<Rightarrow> fs_error + (fs_ref \<times> string)" where
  "route c path s =
     (case route_override c path s of
        Some x \<Rightarrow> Inr x
      | None \<Rightarrow>
          (case caller_proc c of
             Some p \<Rightarrow>
               (let absolute = resolve_path (proc_cwd p) path in
                case ns_resolve (ns_heap s (proc_ns p)) absolute of
                  Some x \<Rightarrow> Inr x
                | None \<Rightarrow> route_global absolute s)
           | None \<Rightarrow> route_global (normalize_path_owned path) s))"

definition with_fs :: "caller \<Rightarrow> string \<Rightarrow> (string \<Rightarrow> memfs \<Rightarrow> (fs_error + 'a) \<times> memfs) \<Rightarrow> vfs
    \<Rightarrow> (fs_error + 'a) \<times> vfs" where
  "with_fs c path f s =
     (case route c path s of
        Inl e \<Rightarrow> (Inl e, s)
      | Inr (fs, rel) \<Rightarrow> (case on_fs fs rel f (fs_heap s) of (r, h) \<Rightarrow> (r, s\<lparr>fs_heap := h\<rparr>)))"

text \<open>An operation that only reads the filesystem.\<close>

definition reading :: "(string \<Rightarrow> memfs \<Rightarrow> fs_error + 'a) \<Rightarrow> string \<Rightarrow> memfs \<Rightarrow> (fs_error + 'a) \<times> memfs" where
  "reading f path m = (f path m, m)"

section \<open>File operations\<close>

definition get_child_mount_points :: "caller \<Rightarrow> string \<Rightarrow> vfs \<Rightarrow> dir_entry list" where
  "get_child_mount_points c parent_path s =
     (let entries = (case caller_proc c of
                       Some p \<Rightarrow> ns_child_mount_points (ns_heap s (proc_ns p)) parent_path
                     | None \<Rightarrow> [])
      in case MOUNT_TABLE s of
           None \<Rightarrow> entries
         | Some t \<Rightarrow>
             fold (\<lambda>entry entries. if \<exists>e \<in> set entries. de_name e = de_name entry then entries else entries @ [entry])
               (table_child_mount_points t parent_path) entries)"

definition vfs_list_dir :: "caller \<Rightarrow> string \<Rightarrow> vfs \<Rightarrow> fs_error + dir_entry list" where
  "vfs_list_dir c path s =
     (case fst (with_fs c path (reading (\<lambda>rel m. read_dir m rel)) s) of
        Inl e \<Rightarrow> Inl e
      | Inr entries \<Rightarrow>
          Inr (fold (\<lambda>entry entries. if \<exists>e \<in> set entries. de_name e = de_name entry then entries else entries @ [entry])
            (get_child_mount_points c path s) entries))"

definition vfs_read_file :: "caller \<Rightarrow> string \<Rightarrow> vfs \<Rightarrow> fs_error + bytes" where
  "vfs_read_file c path s = fst (with_fs c path (reading (\<lambda>rel m. read_file m rel)) s)"

definition vfs_write_file :: "caller \<Rightarrow> string \<Rightarrow> bytes \<Rightarrow> vfs \<Rightarrow> (fs_error + unit) \<times> vfs" where
  "vfs_write_file c path data s = with_fs c path (\<lambda>rel. write_file rel data) s"

definition vfs_append_file :: "caller \<Rightarrow> string \<Rightarrow> bytes \<Rightarrow> vfs \<Rightarrow> (fs_error + unit) \<times> vfs" where
  "vfs_append_file c path data s = with_fs c path (\<lambda>rel. append_file rel data) s"

definition vfs_write_at :: "caller \<Rightarrow> string \<Rightarrow> nat \<Rightarrow> bytes \<Rightarrow> vfs \<Rightarrow> (fs_error + nat) \<times> vfs" where
  "vfs_write_at c path offset data s = with_fs c path (\<lambda>rel. write_at rel offset data) s"

definition vfs_create_dir :: "caller \<Rightarrow> string \<Rightarrow> vfs \<Rightarrow> (fs_error + unit) \<times> vfs" where
  "vfs_create_dir c path s = with_fs c path create_dir s"

definition vfs_remove_file :: "caller \<Rightarrow> string \<Rightarrow> vfs \<Rightarrow> (fs_error + unit) \<times> vfs" where
  "vfs_remove_file c path s = with_fs c path remove_file s"

definition vfs_remove_dir :: "caller \<Rightarrow> string \<Rightarrow> vfs \<Rightarrow> (fs_error + unit) \<times> vfs" where
  "vfs_remove_dir c path s = with_fs c path remove_dir s"

definition vfs_exists :: "caller \<Rightarrow> string \<Rightarrow> vfs \<Rightarrow> bool" where
  "vfs_exists c path s =
     (case fst (with_fs c path (reading (\<lambda>rel m. Inr (fs_exists m rel))) s) of Inl _ \<Rightarrow> False | Inr b \<Rightarrow> b)"

definition vfs_metadata :: "caller \<Rightarrow> string \<Rightarrow> vfs \<Rightarrow> fs_error + metadata" where
  "vfs_metadata c path s = fst (with_fs c path (reading (\<lambda>rel m. fs_metadata m rel)) s)"

definition vfs_file_size :: "caller \<Rightarrow> string \<Rightarrow> vfs \<Rightarrow> fs_error + nat" where
  "vfs_file_size c path s =
     (case vfs_metadata c path s of Inl e \<Rightarrow> Inl e | Inr m \<Rightarrow> Inr (md_size m))"

text \<open>Neither implementation of the model overrides \<open>truncate\<close> and \<open>fallocate\<close>, nor does the
  in-memory one override \<open>chmod\<close>: the trait's defaults answer.\<close>

definition vfs_unsupported :: "caller \<Rightarrow> string \<Rightarrow> vfs \<Rightarrow> fs_error + unit" where
  "vfs_unsupported c path s = (case route c path s of Inl e \<Rightarrow> Inl e | Inr _ \<Rightarrow> Inl NotSupported)"

definition resolve_absolute :: "caller \<Rightarrow> string \<Rightarrow> string" where
  "resolve_absolute c path =
     (case caller_proc c of Some p \<Rightarrow> resolve_path (proc_cwd p) path | None \<Rightarrow> normalize_path_owned path)"

definition vfs_rename :: "caller \<Rightarrow> string \<Rightarrow> string \<Rightarrow> vfs \<Rightarrow> (fs_error + unit) \<times> vfs" where
  "vfs_rename c old_path new_path s =
     (let old_abs = resolve_absolute c old_path;
          new_abs = resolve_absolute c new_path;
          ns_arcs = (case caller_proc c of
                       None \<Rightarrow> None
                     | Some p \<Rightarrow>
                         (case (ns_resolve (ns_heap s (proc_ns p)) old_abs, ns_resolve (ns_heap s (proc_ns p)) new_abs) of
                            (Some o', Some n) \<Rightarrow> Some (fst o', snd o', snd n)
                          | _ \<Rightarrow> None))
      in case ns_arcs of
           Some (old_fs, old_rel, new_rel) \<Rightarrow>
             (case rename_fs old_fs old_rel new_rel (fs_heap s) of (r, h) \<Rightarrow> (r, s\<lparr>fs_heap := h\<rparr>))
         | None \<Rightarrow>
             (case MOUNT_TABLE s of
                None \<Rightarrow> (Inl NotInitialized, s)
              | Some t \<Rightarrow>
                  (case table_resolve t old_abs of
                     None \<Rightarrow> (Inl NotFound, s)
                   | Some (old_fs, old_rel) \<Rightarrow>
                       (case table_resolve t new_abs of
                          None \<Rightarrow> (Inl NotFound, s)
                        | Some (new_fs, new_rel) \<Rightarrow>
                            if fs_name old_fs \<noteq> fs_name new_fs then (Inl NotSupported, s)
                            else (case rename_fs old_fs old_rel new_rel (fs_heap s) of
                                    (r, h) \<Rightarrow> (r, s\<lparr>fs_heap := h\<rparr>))))))"

section \<open>Symbolic links\<close>

text \<open>No filesystem of the model stores links, so \<open>create_symlink\<close> reaches the fallback table
  whenever the path is routed, and \<open>read_symlink\<close> and \<open>is_symlink\<close> always consult it.\<close>

definition create_symlink :: "caller \<Rightarrow> string \<Rightarrow> string \<Rightarrow> vfs \<Rightarrow> (fs_error + unit) \<times> vfs" where
  "create_symlink c link_path target s =
     (case vfs_unsupported c link_path s of
        Inl NotSupported \<Rightarrow>
          (let t = (case SYMLINKS s of None \<Rightarrow> Map.empty | Some t \<Rightarrow> t)
           in (Inr (), s\<lparr>SYMLINKS := Some (t(canonicalize_path link_path \<mapsto> target))\<rparr>))
      | r \<Rightarrow> (r, s))"

definition read_symlink :: "string \<Rightarrow> vfs \<Rightarrow> string option" where
  "read_symlink path s =
     (case SYMLINKS s of None \<Rightarrow> None | Some t \<Rightarrow> t (canonicalize_path path))"

definition is_symlink :: "string \<Rightarrow> vfs \<Rightarrow> bool" where
  "is_symlink path s =
     (case SYMLINKS s of None \<Rightarrow> False | Some t \<Rightarrow> t (canonicalize_path path) \<noteq> None)"

definition remove_symlink :: "string \<Rightarrow> vfs \<Rightarrow> bool \<times> vfs" where
  "remove_symlink path s =
     (case SYMLINKS s of
        None \<Rightarrow> (False, s)
      | Some t \<Rightarrow> (t (canonicalize_path path) \<noteq> None,
                   s\<lparr>SYMLINKS := Some (t(canonicalize_path path := None))\<rparr>))"

text \<open>\<open>crate::fs::exists\<close>, the gate of \<open>src/fs.rs\<close> in front of the layer.\<close>

definition api_exists :: "caller \<Rightarrow> string \<Rightarrow> vfs \<Rightarrow> bool" where
  "api_exists c path s = (if \<not> FS_INITIALIZED s then False else vfs_exists c path s)"

text \<open>The body of the eight-fold loop; \<open>Inl\<close> leaves it.\<close>

definition symlink_hop :: "caller \<Rightarrow> vfs \<Rightarrow> string \<Rightarrow> string + string" where
  "symlink_hop c s resolved =
     (case read_symlink resolved s of
        Some t \<Rightarrow>
          (if t \<noteq> [] \<and> hd t = slash then Inr (canonicalize_path t)
           else Inr (resolve_path (fst (split_path resolved)) t))
      | None \<Rightarrow>
          (if resolved = ''/bin/sh'' \<and> api_exists c ''/bin/dash'' s then Inr ''/bin/dash''
           else Inl resolved))"

fun resolve_symlinks_loop :: "nat \<Rightarrow> caller \<Rightarrow> vfs \<Rightarrow> string \<Rightarrow> string" where
  "resolve_symlinks_loop 0 c s resolved = resolved"
| "resolve_symlinks_loop (Suc n) c s resolved =
     (case symlink_hop c s resolved of
        Inl r \<Rightarrow> r
      | Inr r \<Rightarrow> resolve_symlinks_loop n c s r)"

definition resolve_symlinks :: "caller \<Rightarrow> string \<Rightarrow> vfs \<Rightarrow> string" where
  "resolve_symlinks c path s = resolve_symlinks_loop 8 c s (canonicalize_path path)"


section \<open>The gated interface of \<open>src/fs.rs\<close>\<close>

definition mark_initialized :: "vfs \<Rightarrow> vfs" where
  "mark_initialized s = s\<lparr>FS_INITIALIZED := True\<rparr>"

definition api_list_dir :: "caller \<Rightarrow> string \<Rightarrow> vfs \<Rightarrow> fs_error + dir_entry list" where
  "api_list_dir c path s = (if \<not> FS_INITIALIZED s then Inl NotInitialized else vfs_list_dir c path s)"

definition api_read_file :: "caller \<Rightarrow> string \<Rightarrow> vfs \<Rightarrow> fs_error + bytes" where
  "api_read_file c path s = (if \<not> FS_INITIALIZED s then Inl NotInitialized else vfs_read_file c path s)"

definition api_write_file :: "caller \<Rightarrow> string \<Rightarrow> bytes \<Rightarrow> vfs \<Rightarrow> (fs_error + unit) \<times> vfs" where
  "api_write_file c path data s =
     (if \<not> FS_INITIALIZED s then (Inl NotInitialized, s) else vfs_write_file c path data s)"

definition api_write_at :: "caller \<Rightarrow> string \<Rightarrow> nat \<Rightarrow> bytes \<Rightarrow> vfs \<Rightarrow> (fs_error + nat) \<times> vfs" where
  "api_write_at c path offset data s =
     (if \<not> FS_INITIALIZED s then (Inl NotInitialized, s) else vfs_write_at c path offset data s)"

definition api_append_file :: "caller \<Rightarrow> string \<Rightarrow> bytes \<Rightarrow> vfs \<Rightarrow> (fs_error + unit) \<times> vfs" where
  "api_append_file c path data s =
     (if \<not> FS_INITIALIZED s then (Inl NotInitialized, s) else vfs_append_file c path data s)"

definition api_create_dir :: "caller \<Rightarrow> string \<Rightarrow> vfs \<Rightarrow> (fs_error + unit) \<times> vfs" where
  "api_create_dir c path s =
     (if \<not> FS_INITIALIZED s then (Inl NotInitialized, s) else vfs_create_dir c path s)"

definition api_remove_file :: "caller \<Rightarrow> string \<Rightarrow> vfs \<Rightarrow> (fs_error + unit) \<times> vfs" where
  "api_remove_file c path s =
     (if \<not> FS_INITIALIZED s then (Inl NotInitialized, s) else vfs_remove_file c path s)"

definition api_remove_dir :: "caller \<Rightarrow> string \<Rightarrow> vfs \<Rightarrow> (fs_error + unit) \<times> vfs" where
  "api_remove_dir c path s =
     (if \<not> FS_INITIALIZED s then (Inl NotInitialized, s) else vfs_remove_dir c path s)"

definition api_rename :: "caller \<Rightarrow> string \<Rightarrow> string \<Rightarrow> vfs \<Rightarrow> (fs_error + unit) \<times> vfs" where
  "api_rename c old_path new_path s =
     (if \<not> FS_INITIALIZED s then (Inl NotInitialized, s) else vfs_rename c old_path new_path s)"

definition api_file_size :: "caller \<Rightarrow> string \<Rightarrow> vfs \<Rightarrow> fs_error + nat" where
  "api_file_size c path s = (if \<not> FS_INITIALIZED s then Inl NotInitialized else vfs_file_size c path s)"

text \<open>The operations that change a filesystem, as data.\<close>

datatype vfs_op =
    VWriteFile string bytes
  | VWriteAt string nat bytes
  | VAppendFile string bytes
  | VCreateDir string
  | VRemoveFile string
  | VRemoveDir string
  | VRename string string

fun vfs_apply :: "caller \<Rightarrow> vfs_op \<Rightarrow> vfs \<Rightarrow> vfs" where
  "vfs_apply c (VWriteFile p d) s = snd (api_write_file c p d s)"
| "vfs_apply c (VWriteAt p off d) s = snd (api_write_at c p off d s)"
| "vfs_apply c (VAppendFile p d) s = snd (api_append_file c p d s)"
| "vfs_apply c (VCreateDir p) s = snd (api_create_dir c p s)"
| "vfs_apply c (VRemoveFile p) s = snd (api_remove_file c p s)"
| "vfs_apply c (VRemoveDir p) s = snd (api_remove_dir c p s)"
| "vfs_apply c (VRename a b) s = snd (api_rename c a b s)"

section \<open>Operations are local to their path\<close>

definition below :: "string list \<Rightarrow> memfs \<Rightarrow> memfs \<Rightarrow> bool" where
  "below p m m' \<longleftrightarrow> memfs_wf m' \<and> (\<forall>q. \<not> prefix p q \<longrightarrow> view (mem_root m') q = view (mem_root m) q)"

definition local_op :: "(string \<Rightarrow> memfs \<Rightarrow> (fs_error + 'a) \<times> memfs) \<Rightarrow> bool" where
  "local_op f \<longleftrightarrow> (\<forall>path m. memfs_wf m \<longrightarrow> below (path_components path) m (snd (f path m)))"

lemma below_refl: "memfs_wf m \<Longrightarrow> below p m m"
  by (simp add: below_def)

lemma below_trans: "below p m m' \<Longrightarrow> below p m' m'' \<Longrightarrow> below p m m''"
  by (simp add: below_def)

lemma below_mono: "below (p @ q) m m' \<Longrightarrow> below p m m'"
  unfolding below_def by (meson append_prefixD)

lemma graft_outside: "\<not> prefix p q \<Longrightarrow> graft base p sub q = base q"
  by (simp add: graft_def)

lemma on_parent_local:
  assumes "on_root (navigate_parent path F) fs = (res, fs')"
    and "\<And>c ch r ch'. F c ch = Inr (r, ch') \<Longrightarrow> \<exists>X. map_of ch' = (map_of ch)(c := X)"
    and "\<not> prefix (path_components path) q"
  shows "view (mem_root fs') q = view (mem_root fs) q"
  using assms(1)
proof (cases rule: on_parent_cases)
  case (ok r cs c ch t ch')
  obtain X where "map_of ch' = (map_of ch)(c := X)" using assms(2) [OF ok(6)] by blast
  from ok(8) [OF this] assms(3) show ?thesis by (simp add: graft_outside)
qed simp

lemma local_opI:
  assumes "\<And>path m r m'. f path m = (r, m') \<Longrightarrow> memfs_wf m \<Longrightarrow> memfs_wf m'"
    and "\<And>path m r m' q. f path m = (r, m') \<Longrightarrow> \<not> prefix (path_components path) q \<Longrightarrow>
      view (mem_root m') q = view (mem_root m) q"
  shows "local_op f"
  unfolding local_op_def below_def using assms by (metis prod.collapse)

lemma local_write_file: "local_op (\<lambda>rel. write_file rel data)"
proof (rule local_opI)
  show "memfs_wf m'" if "write_file path data m = (r, m')" "memfs_wf m" for path m r m'
    using write_file_ok [OF that] by (simp add: op_ok_def)
  show "view (mem_root m') q = view (mem_root m) q"
    if "write_file path data m = (r, m')" "\<not> prefix (path_components path) q" for path m r m' q
    using write_file_spec [OF that(1)] that(2) by (cases r) (simp_all add: graft_outside)
qed

lemma local_append_file: "local_op (\<lambda>rel. append_file rel data)"
proof (rule local_opI)
  show "memfs_wf m'" if "append_file path data m = (r, m')" "memfs_wf m" for path m r m'
    using append_file_ok [OF that] by (simp add: op_ok_def)
  show "view (mem_root m') q = view (mem_root m) q"
    if "append_file path data m = (r, m')" "\<not> prefix (path_components path) q" for path m r m' q
    using append_file_spec [OF that(1)] that(2) by (cases r) (auto simp: graft_outside)
qed

lemma local_write_at: "local_op (\<lambda>rel. write_at rel offset data)"
proof (rule local_opI)
  show "memfs_wf m'" if "write_at path offset data m = (r, m')" "memfs_wf m" for path m r m'
    using write_at_ok [OF that] by simp
  show "view (mem_root m') q = view (mem_root m) q"
    if "write_at path offset data m = (r, m')" "\<not> prefix (path_components path) q" for path m r m' q
    using write_at_spec [OF that(1)] that(2) by (cases r) (auto simp: graft_outside split: if_splits)
qed

lemma local_create_dir: "local_op create_dir"
proof (rule local_opI)
  show "memfs_wf m'" if "create_dir path m = (r, m')" "memfs_wf m" for path m r m'
    using create_dir_ok [OF that] by (simp add: op_ok_def)
  show "view (mem_root m') q = view (mem_root m) q"
    if "create_dir path m = (r, m')" "\<not> prefix (path_components path) q" for path m r m' q
    by (rule on_parent_local [OF that(1) [unfolded create_dir_def] _ that(2)])
      (auto split: option.splits)
qed

lemma local_remove_file: "local_op remove_file"
proof (rule local_opI)
  show "memfs_wf m'" if "remove_file path m = (r, m')" "memfs_wf m" for path m r m'
    using remove_ok [OF disjI1 [OF that(1)] that(2)] by (simp add: op_ok_def)
  show "view (mem_root m') q = view (mem_root m) q"
    if "remove_file path m = (r, m')" "\<not> prefix (path_components path) q" for path m r m' q
    by (rule on_parent_local [OF that(1) [unfolded remove_file_def] _ that(2)])
      (auto split: option.splits fs_node.splits)
qed

lemma local_remove_dir: "local_op remove_dir"
proof (rule local_opI)
  show "memfs_wf m'" if "remove_dir path m = (r, m')" "memfs_wf m" for path m r m'
    using remove_ok [OF disjI2 [OF that(1)] that(2)] by (simp add: op_ok_def)
  show "view (mem_root m') q = view (mem_root m) q"
    if "remove_dir path m = (r, m')" "\<not> prefix (path_components path) q" for path m r m' q
    by (rule on_parent_local [OF that(1) [unfolded remove_dir_def] _ that(2)])
      (auto split: option.splits fs_node.splits if_splits)
qed

lemmas local_ops = local_write_file local_append_file local_write_at local_create_dir
  local_remove_file local_remove_dir

section \<open>References stay below their target\<close>

text \<open>The in-memory filesystem behind a reference and the directory it is scoped to.\<close>

fun target :: "fs_ref \<Rightarrow> nat \<times> string list" where
  "target (MemFs a) = (a, [])"
| "target (SubdirFs inner pre) = (fst (target inner), snd (target inner) @ path_components pre)"

definition sep_start :: "string \<Rightarrow> bool" where
  "sep_start p \<longleftrightarrow> p = [] \<or> hd p = slash"

fun ref_ok :: "fs_ref \<Rightarrow> bool" where
  "ref_ok (MemFs a) = True"
| "ref_ok (SubdirFs inner pre) = (ref_ok inner \<and> sep_start pre)"

lemma path_components_slash [simp]:
  "path_components [] = []" "path_components [slash] = []"
  "path_components (slash # p) = path_components p"
  by (simp_all add: path_components_eq)

lemma components_full_path:
  assumes "sep_start p"
  shows "path_components (full_path pre p) = path_components pre @ path_components p"
proof (cases "p = [] \<or> p = [slash]")
  case False
  then obtain b where "p = slash # b" using assms by (cases p) (auto simp: sep_start_def)
  then show ?thesis using False by (simp add: full_path_def path_components_append)
qed (auto simp: full_path_def)

lemma sep_start_full_path: "sep_start pre \<Longrightarrow> sep_start p \<Longrightarrow> sep_start (full_path pre p)"
  by (cases pre) (auto simp: full_path_def sep_start_def)

lemma trim_end_slashes:
  "path_components (trim_end_matches slash p) = path_components p"
  "sep_start p \<Longrightarrow> sep_start (trim_end_matches slash p)"
proof -
  show "path_components (trim_end_matches slash p) = path_components p"
    by (induction p rule: rev_induct)
      (simp_all add: trim_end_matches_def path_components_append [where b = "[]", simplified])
  show "sep_start (trim_end_matches slash p)" if "sep_start p"
    using that
  proof (induction p rule: rev_induct)
    case (snoc x xs)
    then show ?case by (cases xs) (auto simp: trim_end_matches_def sep_start_def)
  qed (simp add: trim_end_matches_def)
qed

lemma normalize_components:
  "path_components (normalize_path p) = path_components p"
  "path_components (normalize_path_owned p) = path_components p"
  using trim_end_slashes(1) [of p]
  by (auto simp: normalize_path_def normalize_path_owned_def Let_def)

definition heap_below :: "nat \<Rightarrow> string list \<Rightarrow> (nat \<Rightarrow> memfs) \<Rightarrow> (nat \<Rightarrow> memfs) \<Rightarrow> bool" where
  "heap_below a p h h' \<longleftrightarrow> (\<forall>b. b \<noteq> a \<longrightarrow> h' b = h b) \<and> below p (h a) (h' a)"

lemma heap_below_trans: "heap_below a p h h' \<Longrightarrow> heap_below a p h' h'' \<Longrightarrow> heap_below a p h h''"
  unfolding heap_below_def using below_trans by metis

lemma heap_below_wf: "heap_below a p h h' \<Longrightarrow> \<forall>b. memfs_wf (h b) \<Longrightarrow> \<forall>b. memfs_wf (h' b)"
  unfolding heap_below_def below_def by metis

text \<open>An operation on a reference is the operation on the filesystem behind it.\<close>

lemma on_fs_target:
  assumes "ref_ok ref" "sep_start rel"
  shows "\<exists>path. path_components path = snd (target ref) @ path_components rel
    \<and> fst (on_fs ref rel f h) = fst (f path (h (fst (target ref))))
    \<and> snd (on_fs ref rel f h) = h(fst (target ref) := snd (f path (h (fst (target ref)))))"
  using assms
proof (induction ref arbitrary: rel)
  case (MemFs a)
  show ?case by (rule exI [of _ rel], cases "f rel (h a)") simp
next
  case (SubdirFs inner pre)
  then have ss: "sep_start (full_path pre rel)" and ok: "ref_ok inner" by (simp_all add: sep_start_full_path)
  from SubdirFs.IH [OF ok ss] obtain path where
    "path_components path = snd (target inner) @ path_components (full_path pre rel)"
    "fst (on_fs inner (full_path pre rel) f h) = fst (f path (h (fst (target inner))))"
    "snd (on_fs inner (full_path pre rel) f h) = h(fst (target inner) := snd (f path (h (fst (target inner)))))"
    by blast
  with SubdirFs.prems(2) show ?case by (intro exI [of _ path]) (simp add: components_full_path)
qed

lemma on_fs_below:
  assumes "ref_ok ref" "sep_start rel" "local_op f" "\<forall>b. memfs_wf (h b)"
  shows "heap_below (fst (target ref)) (snd (target ref)) h (snd (on_fs ref rel f h))"
proof -
  let ?a = "fst (target ref)"
  obtain path where p: "path_components path = snd (target ref) @ path_components rel"
    and o: "snd (on_fs ref rel f h) = h(?a := snd (f path (h ?a)))"
    using on_fs_target [OF assms(1,2), of f h] by blast
  have "below (path_components path) (h ?a) (snd (f path (h ?a)))"
    using assms(3,4) unfolding local_op_def by blast
  then have "below (snd (target ref)) (h ?a) (snd (f path (h ?a)))" unfolding p by (rule below_mono)
  then show ?thesis unfolding o heap_below_def by simp
qed

lemma rename_fs_target:
  assumes "ref_ok ref" "sep_start x" "sep_start y"
  shows "\<exists>px py. path_components px = snd (target ref) @ path_components x
    \<and> path_components py = snd (target ref) @ path_components y
    \<and> snd (rename_fs ref x y h) = h(fst (target ref) := snd (rename px py (h (fst (target ref)))))"
  using assms
proof (induction ref arbitrary: x y)
  case (MemFs a)
  show ?case by (rule exI [of _ x], rule exI [of _ y], cases "rename x y (h a)") simp
next
  case (SubdirFs inner pre)
  then have ss: "sep_start (full_path pre x)" "sep_start (full_path pre y)" and ok: "ref_ok inner"
    by (simp_all add: sep_start_full_path)
  from SubdirFs.IH [OF ok ss] obtain px py where
    "path_components px = snd (target inner) @ path_components (full_path pre x)"
    "path_components py = snd (target inner) @ path_components (full_path pre y)"
    "snd (rename_fs inner (full_path pre x) (full_path pre y) h)
      = h(fst (target inner) := snd (rename px py (h (fst (target inner)))))"
    by blast
  with SubdirFs.prems(2,3) show ?case
    by (intro exI [of _ px] exI [of _ py]) (simp add: components_full_path)
qed

lemma rename_below:
  assumes "memfs_wf m" "path_components x = p @ xs" "path_components y = p @ ys"
  shows "below p m (snd (rename x y m))"
proof -
  obtain r m' where r: "rename x y m = (r, m')" by (cases "rename x y m")
  note sp = rename_spec [OF assms(1) r]
  have "view (mem_root m') q = view (mem_root m) q" if "\<not> prefix p q" for q
  proof -
    have "\<not> prefix (path_components x) q" "\<not> prefix (path_components y) q"
      using that unfolding assms(2,3) by (meson append_prefixD)+
    with sp show ?thesis by (cases r) (simp_all add: graft_outside)
  qed
  with sp r show ?thesis by (simp add: below_def)
qed

lemma rename_fs_below:
  assumes "ref_ok ref" "sep_start x" "sep_start y" "\<forall>b. memfs_wf (h b)"
  shows "heap_below (fst (target ref)) (snd (target ref)) h (snd (rename_fs ref x y h))"
proof -
  obtain px py where p: "path_components px = snd (target ref) @ path_components x"
      "path_components py = snd (target ref) @ path_components y"
    and o: "snd (rename_fs ref x y h) = h(fst (target ref) := snd (rename px py (h (fst (target ref)))))"
    using rename_fs_target [OF assms(1-3), of h] by blast
  from rename_below [OF _ p] assms(4) show ?thesis unfolding o heap_below_def by simp
qed

section \<open>Processes of a box\<close>

lemma resolve_path_absolute: "sep_start (resolve_path cwd p)" "normalize_path (resolve_path cwd p) = resolve_path cwd p"
proof -
  have c: "canonical (resolve_path cwd p)" by (rule canonical_resolve_path)
  then show "normalize_path (resolve_path cwd p) = resolve_path cwd p" by (rule normalize_canonical)
  obtain cs where cs: "resolve_path cwd p = abs_path cs" using canonical_components [OF c] by blast
  show "sep_start (resolve_path cwd p)" using join_hd [of cs] by (auto simp: cs abs_path_def sep_start_def)
qed

lemma ns_resolve_root: "ns_resolve [([slash], r)] p = Some (r, normalize_path p)"
  by (simp add: ns_resolve_def normalize_path_def Let_def)

text \<open>The caller runs in a namespace whose only mount is \<open>ref\<close> at the root.\<close>

definition boxed :: "nat \<Rightarrow> fs_ref \<Rightarrow> vfs \<Rightarrow> caller \<Rightarrow> bool" where
  "boxed ns ref s c \<longleftrightarrow> ns_heap s ns = [([slash], ref)]
     \<and> (\<exists>p. caller_proc c = Some p \<and> proc_ns p = ns) \<and> SPAWN_NS_OVERRIDE s (caller_tid c) \<in> {None, Some ns}"

lemma boxed_route:
  assumes "boxed ns ref s c"
  shows "route c path s = Inr (ref, resolve_absolute c path)"
proof -
  obtain p where p: "caller_proc c = Some p" "proc_ns p = ns" using assms by (auto simp: boxed_def)
  have r: "ns_resolve (ns_heap s ns) (resolve_path (proc_cwd p) path) = Some (ref, resolve_path (proc_cwd p) path)"
    using assms by (simp add: boxed_def ns_resolve_root resolve_path_absolute)
  have "SPAWN_NS_OVERRIDE s (caller_tid c) = None \<or> SPAWN_NS_OVERRIDE s (caller_tid c) = Some ns"
    using assms by (auto simp: boxed_def)
  then show ?thesis using p r by (auto simp: route_def route_override_def resolve_absolute_def)
qed

lemma resolve_absolute_boxed: "boxed ns ref s c \<Longrightarrow> sep_start (resolve_absolute c path)"
  by (auto simp: boxed_def resolve_absolute_def resolve_path_absolute)

lemma with_fs_boxed:
  assumes "boxed ns ref s c" "ref_ok ref" "local_op f" "\<forall>a. memfs_wf (fs_heap s a)"
  shows "\<exists>h. snd (with_fs c path f s) = s\<lparr>fs_heap := h\<rparr>
    \<and> heap_below (fst (target ref)) (snd (target ref)) (fs_heap s) h"
proof -
  have "snd (with_fs c path f s) = s\<lparr>fs_heap := snd (on_fs ref (resolve_absolute c path) f (fs_heap s))\<rparr>"
    by (simp add: with_fs_def boxed_route [OF assms(1)] split: prod.splits)
  with on_fs_below [OF assms(2) resolve_absolute_boxed [OF assms(1)] assms(3,4)] show ?thesis by blast
qed

lemma vfs_rename_boxed:
  assumes "boxed ns ref s c" "ref_ok ref" "\<forall>a. memfs_wf (fs_heap s a)"
  shows "\<exists>h. snd (vfs_rename c x y s) = s\<lparr>fs_heap := h\<rparr>
    \<and> heap_below (fst (target ref)) (snd (target ref)) (fs_heap s) h"
proof -
  obtain p where p: "caller_proc c = Some p" "proc_ns p = ns" using assms(1) by (auto simp: boxed_def)
  have r: "ns_resolve (ns_heap s ns) (resolve_absolute c q) = Some (ref, resolve_absolute c q)" for q
    using assms(1) p by (simp add: boxed_def ns_resolve_root resolve_path_absolute resolve_absolute_def)
  have "snd (vfs_rename c x y s)
      = s\<lparr>fs_heap := snd (rename_fs ref (resolve_absolute c x) (resolve_absolute c y) (fs_heap s))\<rparr>"
    using p r by (simp add: vfs_rename_def Let_def split: prod.splits)
  with rename_fs_below [OF assms(2) resolve_absolute_boxed [OF assms(1)] resolve_absolute_boxed [OF assms(1)] assms(3)]
  show ?thesis by blast
qed

lemma vfs_apply_boxed:
  assumes "boxed ns ref s c" "ref_ok ref" "\<forall>a. memfs_wf (fs_heap s a)"
  shows "\<exists>h. vfs_apply c op s = s\<lparr>fs_heap := h\<rparr> \<and> heap_below (fst (target ref)) (snd (target ref)) (fs_heap s) h"
proof (cases "FS_INITIALIZED s")
  case True
  note api_defs = api_write_file_def api_write_at_def api_append_file_def api_create_dir_def
    api_remove_file_def api_remove_dir_def api_rename_def vfs_write_file_def vfs_write_at_def
    vfs_append_file_def vfs_create_dir_def vfs_remove_file_def vfs_remove_dir_def
  show ?thesis
    by (cases op) (simp_all only: vfs_apply.simps api_defs True not_True_eq_False if_False,
      (rule with_fs_boxed [OF assms(1,2) _ assms(3)] vfs_rename_boxed [OF assms], (rule local_ops)?)+)
next
  case False
  then have "vfs_apply c op s = s\<lparr>fs_heap := fs_heap s\<rparr>"
    by (cases op) (simp_all add: api_write_file_def api_write_at_def api_append_file_def api_create_dir_def
      api_remove_file_def api_remove_dir_def api_rename_def)
  moreover have "heap_below (fst (target ref)) (snd (target ref)) (fs_heap s) (fs_heap s)"
    using assms(3) by (simp add: heap_below_def below_refl)
  ultimately show ?thesis by blast
qed

definition vfs_run :: "(caller \<times> vfs_op) list \<Rightarrow> vfs \<Rightarrow> vfs" where
  "vfs_run ops s = fold (\<lambda>(c, op). vfs_apply c op) ops s"

lemma vfs_run_boxed:
  assumes "\<forall>x \<in> set ops. boxed ns ref s (fst x)" "ref_ok ref" "\<forall>a. memfs_wf (fs_heap s a)"
  shows "\<exists>h. vfs_run ops s = s\<lparr>fs_heap := h\<rparr> \<and> heap_below (fst (target ref)) (snd (target ref)) (fs_heap s) h"
  using assms(1,3)
proof (induction ops arbitrary: s)
  case Nil
  have "heap_below (fst (target ref)) (snd (target ref)) (fs_heap s) (fs_heap s)"
    using Nil.prems(2) by (simp add: heap_below_def below_refl)
  moreover have "vfs_run [] s = s\<lparr>fs_heap := fs_heap s\<rparr>" by (simp add: vfs_run_def)
  ultimately show ?case by blast
next
  case (Cons x ops)
  obtain c op where x: "x = (c, op)" by (cases x)
  have b: "boxed ns ref s c" using Cons.prems(1) x by simp
  from vfs_apply_boxed [OF b assms(2) Cons.prems(2), of op] obtain h1 where
    h1: "vfs_apply c op s = s\<lparr>fs_heap := h1\<rparr>" "heap_below (fst (target ref)) (snd (target ref)) (fs_heap s) h1" by blast
  let ?s = "s\<lparr>fs_heap := h1\<rparr>"
  have "\<forall>y \<in> set ops. boxed ns ref ?s (fst y)" using Cons.prems(1) by (simp add: boxed_def)
  moreover have "\<forall>a. memfs_wf (fs_heap ?s a)" using heap_below_wf [OF h1(2) Cons.prems(2)] by simp
  ultimately obtain h2 where h2: "vfs_run ops ?s = ?s\<lparr>fs_heap := h2\<rparr>"
    "heap_below (fst (target ref)) (snd (target ref)) h1 h2" using Cons.IH [of ?s] by auto
  have "vfs_run (x # ops) s = s\<lparr>fs_heap := h2\<rparr>" using h1(1) h2(1) by (simp add: vfs_run_def x)
  with heap_below_trans [OF h1(2) h2(2)] show ?case by blast
qed

lemma created_box:
  assumes "BOX_NAMESPACES s box_id = None" "root_dir \<noteq> [slash]" "get_root_fs s = Some root_fs"
    and "create_box_namespace box_id root_dir s = (ns, s1)"
  shows "ns_heap s1 ns = [([slash], SubdirFs root_fs (subdir_new root_dir))]" "fs_heap s1 = fs_heap s"
    "SPAWN_NS_OVERRIDE s1 = SPAWN_NS_OVERRIDE s" "MOUNT_TABLE s1 = MOUNT_TABLE s"
    "FS_INITIALIZED s1 = FS_INITIALIZED s" "BOX_NAMESPACES s1 box_id = Some ns"
  using assms
  by (auto simp: create_box_namespace_def get_root_fs_def ns_mount_def MAX_NS_MOUNTS_def sort_mounts_def Let_def)

section \<open>Listing and links\<close>

lemma merge_entries:
  fixes new entries :: "dir_entry list"
  defines "merge \<equiv> fold (\<lambda>entry entries. if \<exists>e \<in> set entries. de_name e = de_name entry then entries else entries @ [entry]) new entries"
  shows "de_name ` set merge = de_name ` set entries \<union> de_name ` set new
    \<and> (distinct (map de_name entries) \<longrightarrow> distinct (map de_name merge)) \<and> prefix entries merge"
  unfolding merge_def
proof (induction new arbitrary: entries)
  case (Cons entry new)
  show ?case
  proof (cases "\<exists>e \<in> set entries. de_name e = de_name entry")
    case True
    then have "de_name entry \<in> de_name ` set entries" by (metis image_eqI)
    with True Cons.IH [of entries] show ?thesis by (auto simp del: fold_simps simp: fold_simps(2))
  next
    case False
    then have n: "de_name entry \<notin> de_name ` set entries" by (metis image_iff)
    let ?m = "fold (\<lambda>entry entries. if \<exists>e \<in> set entries. de_name e = de_name entry then entries else entries @ [entry])
        new (entries @ [entry])"
    have step: "fold (\<lambda>entry entries. if \<exists>e \<in> set entries. de_name e = de_name entry then entries else entries @ [entry])
        (entry # new) entries = ?m" using False by simp
    have "prefix entries ?m" using Cons.IH [of "entries @ [entry]"] append_prefixD by blast
    moreover have "de_name ` set ?m = de_name ` set entries \<union> de_name ` set (entry # new)"
      using Cons.IH [of "entries @ [entry]"] by auto
    moreover have "distinct (map de_name entries) \<longrightarrow> distinct (map de_name ?m)"
      using Cons.IH [of "entries @ [entry]"] n by auto
    ultimately show ?thesis unfolding step by blast
  qed
qed simp

lemma canonical_hop: "canonical p \<Longrightarrow> symlink_hop c s p = Inr q \<Longrightarrow> canonical q"
proof -
  have "''/bin/dash'' = abs_path [''bin'', ''dash'']" by (simp add: abs_path_def)
  then have d: "canonical ''/bin/dash''" using canonical_abs_path [of "[''bin'', ''dash'']"] by (simp add: component_def)
  assume "symlink_hop c s p = Inr q"
  then show "canonical q"
    by (auto simp: symlink_hop_def canonical_canonicalize canonical_resolve_path d split: option.splits if_splits)
qed

text \<open>\<open>hops c s p n q\<close>: following links from \<open>p\<close> reaches \<open>q\<close> in \<open>n\<close> steps.\<close>

inductive hops :: "caller \<Rightarrow> vfs \<Rightarrow> string \<Rightarrow> nat \<Rightarrow> string \<Rightarrow> bool" for c s where
  hop_none: "hops c s p 0 p"
| hop_more: "symlink_hop c s p = Inr q \<Longrightarrow> hops c s q n r \<Longrightarrow> hops c s p (Suc n) r"

lemma hop_end: "symlink_hop c s p = Inl r \<Longrightarrow> r = p"
  by (auto simp: symlink_hop_def split: option.splits if_splits)

lemma resolve_loop_hops:
  "\<exists>k. k \<le> n \<and> hops c s p k (resolve_symlinks_loop n c s p)
     \<and> (k < n \<longrightarrow> (\<exists>r. symlink_hop c s (resolve_symlinks_loop n c s p) = Inl r))"
proof (induction n arbitrary: p)
  case (Suc n)
  show ?case
  proof (cases "symlink_hop c s p")
    case (Inl r)
    then show ?thesis using hop_end [OF Inl] by (auto intro!: exI [of _ 0] hop_none)
  next
    case (Inr q)
    from Suc [of q] obtain k where k: "k \<le> n" "hops c s q k (resolve_symlinks_loop n c s q)"
      "k < n \<longrightarrow> (\<exists>r. symlink_hop c s (resolve_symlinks_loop n c s q) = Inl r)" by blast
    show ?thesis using k Inr hop_more [OF Inr k(2)] by (intro exI [of _ "Suc k"]) simp
  qed
qed (auto intro: hop_none)

lemma hops_canonical: "hops c s p n q \<Longrightarrow> canonical p \<Longrightarrow> canonical q"
  by (induction rule: hops.induct) (auto dest: canonical_hop)

lemma navigate_wf: "node_wf n \<Longrightarrow> navigate_comps n cs = Inr n' \<Longrightarrow> node_wf n'"
  by (induction n cs rule: navigate_comps.induct) (fastforce split: option.splits dest: map_of_SomeD)+

lemma read_dir_distinct:
  assumes "read_dir m path = Inr es" "memfs_wf m"
  shows "distinct (map de_name es)"
proof -
  obtain ch t where n: "navigate (mem_root m) path = Inr (Directory ch t)"
    and es: "map de_name es = map fst ch"
    using assms(1) by (auto simp: read_dir_def comp_def case_prod_beta split: sum.splits fs_node.splits)
  have "bt_wf ch" using navigate_wf [of "mem_root m" "path_components path"] n assms(2)
    by (auto simp: navigate_def memfs_wf_def)
  then have "sorted_wrt (<) (map fst ch)" by (simp add: bt_wf_def)
  then have "distinct (map fst ch)" by (metis strict_sorted_iff)
  then show ?thesis by (simp add: es)
qed

lemma on_fs_reading:
  "\<exists>a path. fst (on_fs ref rel (reading f) h) = f path (h a)"
proof (induction ref arbitrary: rel)
  case (MemFs a)
  show ?case by (rule exI [of _ a], rule exI [of _ rel]) (simp add: reading_def)
qed simp

section \<open>Properties\<close>


text \<open>
  What a process of a box writes under a path, the host reads back under the box's root
  directory followed by the resolved path, with the global table's root mount in between.
\<close>

theorem box_write_seen_by_host:
  assumes "BOX_NAMESPACES s box_id = None" "root_dir \<noteq> [slash]" "sep_start root_dir"
    and "MOUNT_TABLE s = Some [([slash], MemFs a)]"
    and "create_box_namespace box_id root_dir s = (ns, s1)"
    and "caller_proc c = Some p" "proc_ns p = ns" "SPAWN_NS_OVERRIDE s (caller_tid c) = None"
    and "vfs_write_file c path data s1 = (Inr (), s2)"
    and "caller_proc host = None" "SPAWN_NS_OVERRIDE s (caller_tid host) = None"
  shows "vfs_read_file host (full_path (subdir_new root_dir) (resolve_path (proc_cwd p) path)) s2 = Inr data"
proof -
  have "get_root_fs s = Some (MemFs a)"
    using assms(4) by (simp add: get_root_fs_def table_get_fs_def normalize_path_def trim_end_matches_def)
  note cb = created_box [OF assms(1,2) this assms(5)]
  let ?ref = "SubdirFs (MemFs a) (subdir_new root_dir)"
  let ?full = "full_path (subdir_new root_dir) (resolve_path (proc_cwd p) path)"
  have "boxed ns ?ref s1 c" using assms(6-8) cb(1,3) by (simp add: boxed_def)
  from boxed_route [OF this, of path] assms(6)
  have r: "route c path s1 = Inr (?ref, resolve_path (proc_cwd p) path)" by (simp add: resolve_absolute_def)
  obtain m where w: "write_file ?full data (fs_heap s1 a) = (Inr (), m)" and s2: "s2 = s1\<lparr>fs_heap := (fs_heap s1)(a := m)\<rparr>"
    using assms(9) by (auto simp: vfs_write_file_def with_fs_def r split: prod.splits)
  have v: "view (mem_root m) (path_components ?full) = Some (FileE data)"
    using write_file_spec [OF w] by (simp add: graft_here)
  have "path_components (normalize_path (normalize_path_owned ?full)) = path_components ?full"
    by (simp only: normalize_components)
  moreover have "route host ?full s2 = Inr (MemFs a, normalize_path (normalize_path_owned ?full))"
    using assms(4,10,11) cb(3,4)
    by (simp add: route_def route_override_def route_global_def table_resolve_def s2)
  ultimately show ?thesis using v
    by (simp add: vfs_read_file_def with_fs_def reading_def s2 read_file_view [symmetric])
      (simp add: read_file_view)
qed

text \<open>The host mounts an in-memory filesystem with a directory for the box.\<close>

definition host_state :: vfs where
  "host_state = snd (vfs_create_dir \<lparr>caller_tid = 1, caller_proc = None\<rparr> ''/box''
     (snd (vfs_mount [slash] (MemFs 0) (vfs_init (mark_initialized vfs_start)))))"

lemma host_state_eq:
  "host_state = vfs_start\<lparr>fs_heap := (fs_heap vfs_start)(0 := snd (create_dir ''/box'' memfs_new)),
     MOUNT_TABLE := Some [([slash], MemFs 0)], FS_INITIALIZED := True\<rparr>"
proof -
  have n: "normalize_path (normalize_path_owned ''/box'') = ''/box''"
    by (simp add: normalize_path_def normalize_path_owned_def trim_end_matches_def)
  show ?thesis
    by (simp add: host_state_def vfs_create_dir_def with_fs_def route_def route_override_def route_global_def
        vfs_mount_def vfs_init_def mark_initialized_def vfs_start_def table_mount_def MAX_MOUNTS_def sort_mounts_def
        table_resolve_def n split: prod.splits)
qed

lemma host_state_wf: "memfs_wf (fs_heap host_state a)"
proof -
  obtain r m where "create_dir ''/box'' memfs_new = (r, m)" by (cases "create_dir ''/box'' memfs_new")
  with create_dir_ok [OF this] show ?thesis by (simp add: host_state_eq vfs_start_def op_ok_def)
qed


theorem box_write_seen_by_host_witness:
  "vfs_read_file \<lparr>caller_tid = 1, caller_proc = None\<rparr> ''/box/f''
     (snd (vfs_write_file \<lparr>caller_tid = 2, caller_proc = Some \<lparr>proc_cwd = ''/home'', proc_ns = 0\<rparr>\<rparr> ''../f'' [1, 2]
        (snd (create_box_namespace 7 ''/box'' host_state)))) = Inr [1, 2]"
proof -
  let ?c = "\<lparr>caller_tid = 2, caller_proc = Some \<lparr>proc_cwd = ''/home'', proc_ns = 0\<rparr>\<rparr> :: caller"
  let ?s1 = "snd (create_box_namespace 7 ''/box'' host_state)"
  have "BOX_NAMESPACES host_state 7 = None" "SPAWN_NS_OVERRIDE host_state t = None"
    "MOUNT_TABLE host_state = Some [([slash], MemFs 0)]" for t
    by (simp_all add: host_state_eq vfs_start_def)
  moreover have "create_box_namespace 7 ''/box'' host_state = (0, ?s1)"
    by (simp add: create_box_namespace_def host_state_eq vfs_start_def Let_def)
  moreover have "fst (vfs_write_file ?c ''../f'' [1, 2] ?s1) = Inr ()" by code_simp
  then have "vfs_write_file ?c ''../f'' [1, 2] ?s1 = (Inr (), snd (vfs_write_file ?c ''../f'' [1, 2] ?s1))"
    by (metis prod.collapse)
  moreover have "full_path (subdir_new ''/box'') (resolve_path ''/home'' ''../f'') = ''/box/f''" by code_simp
  ultimately show ?thesis
    using box_write_seen_by_host [of host_state 7 "''/box''" 0 0 ?s1 ?c "\<lparr>proc_cwd = ''/home'', proc_ns = 0\<rparr>"
        "''../f''" "[1, 2]" "snd (vfs_write_file ?c ''../f'' [1, 2] ?s1)" "\<lparr>caller_tid = 1, caller_proc = None\<rparr>"]
    by (simp add: sep_start_def)
qed

text \<open>
  Mounting shadows exactly the paths below the mount point: after a successful mount the
  paths it covers, unless a deeper mount point covers them, are routed to the new filesystem
  with the mount point stripped, and every other path is routed as before.
\<close>

theorem vfs_mount_shadows:
  assumes "MOUNT_TABLE s = Some t" "mounts_wf t" "length t < MAX_MOUNTS"
    and "canonical p" "p \<notin> fst ` set t" "canonical path"
    and "caller_proc c = None" "SPAWN_NS_OVERRIDE s (caller_tid c) = None"
  shows "\<exists>s'. vfs_mount p fs s = (Inr (), s')
    \<and> route c path s' =
        (if covers p (path_components path)
            \<and> (\<forall>m \<in> set t. covers (fst m) (path_components path) \<longrightarrow>
                 length (path_components (fst m)) \<le> length (path_components p))
         then Inr (fs, abs_path (drop (length (path_components p)) (path_components path)))
         else route c path s)"
proof -
  have ns: "\<forall>x \<in> set (path_components path). component x" using path_components_ok by blast
  have path: "abs_path (path_components path) = path" using assms(6) by (rule canonicalD)
  obtain t' where t': "table_mount p fs t = (Inr (), t')"
    "table_resolve t' path =
        (if covers p (path_components path)
            \<and> (\<forall>m \<in> set t. covers (fst m) (path_components path) \<longrightarrow>
                 length (path_components (fst m)) \<le> length (path_components p))
         then Some (fs, abs_path (drop (length (path_components p)) (path_components path)))
         else table_resolve t path)"
    using table_points.mount_shadows [OF assms(2,4,3,5) ns] unfolding path by blast
  have r: "route c path s0 = route_global path s0" if "SPAWN_NS_OVERRIDE s0 (caller_tid c) = None" for s0
  proof -
    have "normalize_path_owned path = path"
    proof -
      have "hd path = slash" "path \<noteq> []"
        using join_hd [of "path_components path"] path by (auto simp: abs_path_def split: if_splits)
      then show ?thesis using normalize_canonical [OF assms(6)]
        by (auto simp: normalize_path_def normalize_path_owned_def Let_def split: if_splits)
    qed
    then show ?thesis using that assms(7) by (simp add: route_def route_override_def)
  qed
  have "vfs_mount p fs s = (Inr (), s\<lparr>MOUNT_TABLE := Some t'\<rparr>)" by (simp add: vfs_mount_def assms(1) t'(1))
  moreover have "route c path (s\<lparr>MOUNT_TABLE := Some t'\<rparr>)
      = (case table_resolve t' path of None \<Rightarrow> Inl NotFound | Some x \<Rightarrow> Inr x)"
    "route c path s = (case table_resolve t path of None \<Rightarrow> Inl NotFound | Some x \<Rightarrow> Inr x)"
    using assms(1,8) by (simp_all add: r route_global_def)
  ultimately show ?thesis unfolding t'(2) by auto
qed

theorem vfs_mount_shadows_witness:
  "route \<lparr>caller_tid = 1, caller_proc = None\<rparr> ''/proc/1''
     (snd (vfs_mount ''/proc'' (MemFs 1) host_state)) = Inr (MemFs 1, ''/1'')"
proof -
  let ?c = "\<lparr>caller_tid = 1, caller_proc = None\<rparr> :: caller"
  have m: "MOUNT_TABLE host_state = Some [([slash], MemFs 0)]" "SPAWN_NS_OVERRIDE host_state 1 = None"
    by (simp_all add: host_state_eq vfs_start_def)
  have wf: "mounts_wf [([slash], MemFs 0)]"
    using canonical_abs_path [of "[]"] by (simp add: mounts_wf_def abs_path_def)
  have p: "canonical ''/proc''" "canonical ''/proc/1''"
    using canonical_abs_path [of "[''proc'']"] canonical_abs_path [of "[''proc'', ''1'']"]
    by (simp_all add: abs_path_def component_def)
  have c: "path_components ''/proc'' = [''proc'']" "path_components ''/proc/1'' = [''proc'', ''1'']"
    by (simp_all add: path_components_eq)
  obtain s' where "vfs_mount ''/proc'' (MemFs 1) host_state = (Inr (), s')" "route ?c ''/proc/1'' s' = Inr (MemFs 1, ''/1'')"
    using vfs_mount_shadows [OF m(1) wf _ p(1) _ p(2), of ?c "MemFs 1"] m(2) c
    by (auto simp: MAX_MOUNTS_def covers_def abs_path_def)
  then show ?thesis by simp
qed

text \<open>
  A directory listing shows each name once: the filesystem's own entries in their order,
  and after them the mount points of the caller's namespace and of the global table directly
  below the directory whose name is not taken yet.
\<close>

theorem list_dir_merges_mounts:
  assumes "vfs_list_dir c path s = Inr entries" "\<forall>a. memfs_wf (fs_heap s a)"
  shows "\<exists>own. fst (with_fs c path (reading (\<lambda>rel m. read_dir m rel)) s) = Inr own
    \<and> prefix own entries \<and> distinct (map de_name entries)
    \<and> de_name ` set entries = de_name ` set own \<union> de_name ` set (get_child_mount_points c path s)"
proof -
  obtain own where own: "fst (with_fs c path (reading (\<lambda>rel m. read_dir m rel)) s) = Inr own"
    and e: "entries = fold (\<lambda>entry entries. if \<exists>e \<in> set entries. de_name e = de_name entry then entries else entries @ [entry])
            (get_child_mount_points c path s) own"
    using assms(1) by (auto simp: vfs_list_dir_def split: sum.splits)
  have "distinct (map de_name own)"
  proof -
    obtain ref rel where "route c path s = Inr (ref, rel)"
      using own by (cases "route c path s") (auto simp: with_fs_def)
    then have o: "fst (on_fs ref rel (reading (\<lambda>rel m. read_dir m rel)) (fs_heap s)) = Inr own"
      using own by (simp add: with_fs_def split: prod.splits)
    obtain a p where "read_dir (fs_heap s a) p = Inr own"
      using on_fs_reading [of ref rel "\<lambda>rel m. read_dir m rel" "fs_heap s"] o by auto
    then show ?thesis using read_dir_distinct assms(2) by blast
  qed
  with own merge_entries [of "get_child_mount_points c path s" own] show ?thesis unfolding e by blast
qed

theorem list_dir_merges_mounts_witness:
  "\<exists>own. prefix own [\<lparr>de_name = ''box'', de_is_dir = True, de_is_symlink = False, de_size = 0\<rparr>,
       \<lparr>de_name = ''proc'', de_is_dir = True, de_is_symlink = False, de_size = 0\<rparr>]
    \<and> fst (with_fs \<lparr>caller_tid = 1, caller_proc = None\<rparr> ''/'' (reading (\<lambda>rel m. read_dir m rel))
         (snd (vfs_mount ''/proc'' (MemFs 1) host_state))) = Inr own"
proof -
  let ?c = "\<lparr>caller_tid = 1, caller_proc = None\<rparr> :: caller"
  let ?s = "snd (vfs_mount ''/proc'' (MemFs 1) host_state)"
  have "vfs_list_dir ?c ''/'' ?s = Inr [\<lparr>de_name = ''box'', de_is_dir = True, de_is_symlink = False, de_size = 0\<rparr>,
       \<lparr>de_name = ''proc'', de_is_dir = True, de_is_symlink = False, de_size = 0\<rparr>]" by code_simp
  moreover have "\<forall>a. memfs_wf (fs_heap ?s a)"
    using host_state_wf by (auto simp: vfs_mount_def split: option.splits prod.splits)
  ultimately show ?thesis using list_dir_merges_mounts [of ?c "''/''" ?s] by blast
qed



text \<open>
  The fallback table is keyed by the path as given, not by the path resolved against the
  caller's working directory: a relative link is recorded at the root, for every box.
\<close>

lemma relative_link_lands_at_root:
  assumes "route c ''l'' s = Inr x"
  shows "read_symlink ''/l'' (snd (create_symlink c ''l'' t s)) = Some t"
proof -
  have "canonicalize_path ''l'' = canonicalize_path ''/l''" by code_simp
  with assms show ?thesis by (simp add: create_symlink_def vfs_unsupported_def read_symlink_def Let_def)
qed

end
