(* ===== verification/Thr_Sched.thy ===== *)
theory Thr_Sched
  imports Akuma_Prelude
begin

text \<open>
  Threads (\<open>crates/akuma-exec/src/threading/mod.rs\<close>): the state array, wake-ups and blocking,
  the round-robin scheduler, slot claiming and recycling, preemption counters and per-thread
  signals, on one core. The fixed arrays of length \<open>MAX_THREADS\<close> are functions of the slot
  number; every access of the source is below the bound. The clock is read through arguments.
  Stacks, saved contexts and the interrupt frame are not modelled.
\<close>

section \<open>State\<close>

definition MAX_THREADS :: nat where
  "MAX_THREADS = 64"

definition IDLE_THREAD_IDX :: nat where
  "IDLE_THREAD_IDX = 0"

definition COOPERATIVE_TIMEOUT_US :: u64 where
  "COOPERATIVE_TIMEOUT_US = 100000"

datatype thread_state = FREE | READY | RUNNING | TERMINATED | INITIALIZING | WAITING

record thread_slot =
  cooperative :: bool
  timeout_us :: u64
  start_time_us :: u64

record threads =
  THREAD_STATES :: "nat \<Rightarrow> thread_state"
  WAKE_TIMES :: "nat \<Rightarrow> u64"
  WOKEN_STATES :: "nat \<Rightarrow> bool"
  TOTAL_CPU_TIMES :: "nat \<Rightarrow> u64"
  TERMINATION_TIME :: "nat \<Rightarrow> u64"
  PREEMPTION_DISABLED :: "nat \<Rightarrow> nat"
  PREEMPTION_DISABLED_SINCE :: "nat \<Rightarrow> u64"
  PENDING_SIGNALS :: "nat \<Rightarrow> u64"
  THREAD_SIGNAL_MASK :: "nat \<Rightarrow> u64"
  THREAD_RESTORE_SIGMASK :: "nat \<Rightarrow> u64"
  THREAD_RESTORE_SIGMASK_PENDING :: "nat \<Rightarrow> bool"
  THREAD_SIGALTSTACK :: "nat \<Rightarrow> u64 \<times> u64 \<times> u32"
  slots :: "nat \<Rightarrow> thread_slot"
  current_idx :: nat
  network_boost_counter :: nat
  round_robin_idx :: nat
  NETWORK_THREAD_ID :: "nat option"
  PREEMPT_WAKE_TID :: nat

definition threads_new :: threads where
  "threads_new =
     \<lparr>THREAD_STATES = (\<lambda>_. FREE), WAKE_TIMES = (\<lambda>_. 0), WOKEN_STATES = (\<lambda>_. False),
      TOTAL_CPU_TIMES = (\<lambda>_. 0), TERMINATION_TIME = (\<lambda>_. 0), PREEMPTION_DISABLED = (\<lambda>_. 0),
      PREEMPTION_DISABLED_SINCE = (\<lambda>_. 0), PENDING_SIGNALS = (\<lambda>_. 0), THREAD_SIGNAL_MASK = (\<lambda>_. 0),
      THREAD_RESTORE_SIGMASK = (\<lambda>_. 0), THREAD_RESTORE_SIGMASK_PENDING = (\<lambda>_. False),
      THREAD_SIGALTSTACK = (\<lambda>_. (0, 0, 2)),
      slots = (\<lambda>_. \<lparr>cooperative = False, timeout_us = 0, start_time_us = 0\<rparr>), current_idx = 0,
      network_boost_counter = 0, round_robin_idx = 0, NETWORK_THREAD_ID = None,
      PREEMPT_WAKE_TID = MAX_THREADS\<rparr>"

text \<open>The part of \<open>ThreadPool::init\<close> that sets the boot thread's state.\<close>

definition pool_init :: "u64 \<Rightarrow> threads \<Rightarrow> threads" where
  "pool_init now p =
     p\<lparr>THREAD_STATES := (THREAD_STATES p)(IDLE_THREAD_IDX := RUNNING),
       slots := (slots p)(IDLE_THREAD_IDX :=
         \<lparr>cooperative = True, timeout_us = COOPERATIVE_TIMEOUT_US, start_time_us = now\<rparr>)\<rparr>"

definition set_network_thread_id :: "nat \<Rightarrow> threads \<Rightarrow> threads" where
  "set_network_thread_id tid p = p\<lparr>NETWORK_THREAD_ID := Some tid\<rparr>"

section \<open>State changes\<close>

definition set_state :: "nat \<Rightarrow> thread_state \<Rightarrow> threads \<Rightarrow> threads" where
  "set_state i st p = p\<lparr>THREAD_STATES := (THREAD_STATES p)(i := st)\<rparr>"

definition mark_thread_terminated :: "u64 \<Rightarrow> nat \<Rightarrow> threads \<Rightarrow> threads" where
  "mark_thread_terminated now idx p =
     (if idx \<noteq> IDLE_THREAD_IDX \<and> idx < MAX_THREADS
      then set_state idx TERMINATED (p\<lparr>TERMINATION_TIME := (TERMINATION_TIME p)(idx := now)\<rparr>)
      else p)"

definition mark_thread_ready :: "nat \<Rightarrow> threads \<Rightarrow> threads" where
  "mark_thread_ready idx p = (if idx < MAX_THREADS then set_state idx READY p else p)"

definition mark_thread_waiting :: "nat \<Rightarrow> u64 \<Rightarrow> threads \<Rightarrow> threads" where
  "mark_thread_waiting idx wake_time_us p =
     (if idx < MAX_THREADS
      then set_state idx WAITING (p\<lparr>WAKE_TIMES := (WAKE_TIMES p)(idx := wake_time_us)\<rparr>)
      else p)"

definition get_thread_state :: "threads \<Rightarrow> nat \<Rightarrow> thread_state" where
  "get_thread_state p idx = (if idx < MAX_THREADS then THREAD_STATES p idx else FREE)"

definition is_thread_terminated :: "threads \<Rightarrow> nat \<Rightarrow> bool" where
  "is_thread_terminated p idx \<longleftrightarrow> get_thread_state p idx = TERMINATED \<or> get_thread_state p idx = FREE"

text \<open>\<open>claim_free_slot\<close>: the first free slot of the range, with its signal mask reset.\<close>

definition claim_free_slot :: "nat \<Rightarrow> nat \<Rightarrow> threads \<Rightarrow> nat option \<times> threads" where
  "claim_free_slot start stop p =
     (case find (\<lambda>i. THREAD_STATES p i = FREE) [start..<stop] of
        None \<Rightarrow> (None, p)
      | Some i \<Rightarrow>
          (Some i, (set_state i INITIALIZING p)
             \<lparr>THREAD_SIGNAL_MASK := (THREAD_SIGNAL_MASK p)(i := 0),
              THREAD_RESTORE_SIGMASK_PENDING := (THREAD_RESTORE_SIGMASK_PENDING p)(i := False)\<rparr>))"

text \<open>One iteration of \<open>cleanup_terminated_internal\<close>: recycle slot \<open>i\<close> if it has been dead for
  the cooldown. Stack release and the registered callback are outside the model.\<close>

definition recycle_slot :: "bool \<Rightarrow> u64 \<Rightarrow> u64 \<Rightarrow> nat \<Rightarrow> threads \<Rightarrow> bool \<times> threads" where
  "recycle_slot check_cooldown cooldown_us now i p =
     (if THREAD_STATES p i \<noteq> TERMINATED then (False, p)
      else if check_cooldown \<and> 0 < TERMINATION_TIME p i \<and> sat_sub now (TERMINATION_TIME p i) < cooldown_us
      then (False, p)
      else (True, (set_state i FREE p)
        \<lparr>TERMINATION_TIME := (TERMINATION_TIME p)(i := 0),
         slots := (slots p)(i := \<lparr>cooperative = False, timeout_us = 0, start_time_us = 0\<rparr>),
         PENDING_SIGNALS := (PENDING_SIGNALS p)(i := 0),
         THREAD_SIGALTSTACK := (THREAD_SIGALTSTACK p)(i := (0, 0, 2))\<rparr>))"

fun recycle_slots :: "bool \<Rightarrow> u64 \<Rightarrow> u64 \<Rightarrow> nat list \<Rightarrow> threads \<Rightarrow> nat \<times> threads" where
  "recycle_slots check_cooldown cooldown_us now [] p = (0, p)"
| "recycle_slots check_cooldown cooldown_us now (i # is) p =
     (case recycle_slot check_cooldown cooldown_us now i p of
        (recycled, p1) \<Rightarrow>
          (case recycle_slots check_cooldown cooldown_us now is p1 of
             (count, p2) \<Rightarrow> (if recycled then count + 1 else count, p2)))"

definition cleanup_terminated_internal :: "bool \<Rightarrow> bool \<Rightarrow> u64 \<Rightarrow> u64 \<Rightarrow> threads \<Rightarrow> nat \<times> threads" where
  "cleanup_terminated_internal force deferred cooldown_us now p =
     (if \<not> force \<and> deferred \<and> current_idx p \<noteq> IDLE_THREAD_IDX then (0, p)
      else recycle_slots (\<not> force \<and> deferred) cooldown_us now [1..<MAX_THREADS] p)"

section \<open>Preemption counters\<close>

definition disable_preemption :: "u64 \<Rightarrow> threads \<Rightarrow> threads" where
  "disable_preemption now p =
     (let tid = current_idx p; prev = PREEMPTION_DISABLED p tid;
          p1 = p\<lparr>PREEMPTION_DISABLED := (PREEMPTION_DISABLED p)(tid := prev + 1)\<rparr>
      in if prev = 0
         then p1\<lparr>PREEMPTION_DISABLED_SINCE := (PREEMPTION_DISABLED_SINCE p1)(tid := now)\<rparr> else p1)"

definition enable_preemption :: "threads \<Rightarrow> threads" where
  "enable_preemption p =
     (let tid = current_idx p; prev = PREEMPTION_DISABLED p tid;
          p1 = p\<lparr>PREEMPTION_DISABLED := (PREEMPTION_DISABLED p)(tid := prev - 1)\<rparr>
      in if prev = 1
         then p1\<lparr>PREEMPTION_DISABLED_SINCE := (PREEMPTION_DISABLED_SINCE p1)(tid := 0)\<rparr> else p1)"

definition is_preemption_disabled :: "threads \<Rightarrow> bool" where
  "is_preemption_disabled p \<longleftrightarrow> 0 < PREEMPTION_DISABLED p (current_idx p)"

definition make_idle_preemptible :: "threads \<Rightarrow> threads" where
  "make_idle_preemptible p =
     p\<lparr>slots := (slots p)(IDLE_THREAD_IDX := (slots p IDLE_THREAD_IDX)\<lparr>cooperative := False, timeout_us := 0\<rparr>)\<rparr>"

section \<open>Waking and blocking\<close>

definition WAKEUP_LOCALITY_HINT :: bool where
  "WAKEUP_LOCALITY_HINT = False"

definition thread_wake :: "nat \<Rightarrow> threads \<Rightarrow> threads" where
  "thread_wake tid p =
     (if tid < MAX_THREADS
      then let p1 = p\<lparr>WOKEN_STATES := (WOKEN_STATES p)(tid := True)\<rparr> in
        if THREAD_STATES p1 tid = WAITING
        then let p2 = set_state tid READY (p1\<lparr>WAKE_TIMES := (WAKE_TIMES p1)(tid := 0)\<rparr>)
             in if WAKEUP_LOCALITY_HINT then p2\<lparr>PREEMPT_WAKE_TID := tid\<rparr> else p2
        else p1
      else p)"

text \<open>
  \<open>schedule_blocking\<close> in the pieces between which the thread can be preempted: the first look
  at the sticky flag (\<open>Some p\<close>: go on), marking itself waiting, and one round of the wait loop
  (\<open>True\<close>: leave it). The scheduler interrupt between them is \<open>schedule_indices\<close>.
\<close>

definition block_check :: "u64 \<Rightarrow> u64 \<Rightarrow> nat \<Rightarrow> threads \<Rightarrow> bool \<times> threads" where
  "block_check wake_time_us now tid p =
     (let p1 = p\<lparr>WOKEN_STATES := (WOKEN_STATES p)(tid := False)\<rparr>
      in if WOKEN_STATES p tid then (False, p1) else (\<not> wake_time_us \<le> now, p1))"

definition block_loop :: "bool \<Rightarrow> nat \<Rightarrow> threads \<Rightarrow> bool \<times> threads" where
  "block_loop interrupted tid p =
     (let p1 = p\<lparr>WOKEN_STATES := (WOKEN_STATES p)(tid := False)\<rparr> in
      if WOKEN_STATES p tid
      then let p2 = p1\<lparr>WAKE_TIMES := (WAKE_TIMES p1)(tid := 0)\<rparr>
           in (True, if THREAD_STATES p2 tid \<noteq> TERMINATED then set_state tid RUNNING p2 else p2)
      else if THREAD_STATES p1 tid \<noteq> WAITING then (True, p1)
      else if interrupted
      then (True, set_state tid RUNNING (p1\<lparr>WAKE_TIMES := (WAKE_TIMES p1)(tid := 0)\<rparr>))
      else (False, p1))"

section \<open>The scheduler\<close>

text \<open>The pass that readies waiting threads whose time has come.\<close>

definition wake_due :: "u64 \<Rightarrow> threads \<Rightarrow> threads" where
  "wake_due now p =
     fold (\<lambda>i p. if THREAD_STATES p i = WAITING \<and> 0 < WAKE_TIMES p i \<and> WAKE_TIMES p i \<le> now
                 then set_state i READY (p\<lparr>WAKE_TIMES := (WAKE_TIMES p)(i := 0)\<rparr>) else p)
       [0..<MAX_THREADS] p"

text \<open>The search of the round robin: once around the table from the slot after the last choice.\<close>

definition candidates :: "nat \<Rightarrow> nat list" where
  "candidates rr = map (\<lambda>k. (rr + 1 + k) mod MAX_THREADS) [0..<MAX_THREADS]"

definition find_next :: "threads \<Rightarrow> nat option" where
  "find_next p = find (\<lambda>i. THREAD_STATES p i = READY \<and> i \<noteq> current_idx p) (candidates (round_robin_idx p))"

definition switch_to :: "u64 \<Rightarrow> nat \<Rightarrow> threads \<Rightarrow> threads" where
  "switch_to now next_idx p =
     (let cur = current_idx p;
          st = THREAD_STATES p cur;
          p1 = (if st \<noteq> TERMINATED \<and> st \<noteq> WAITING then set_state cur READY p else p);
          p2 = set_state next_idx RUNNING p1
      in p2\<lparr>slots := (slots p2)(next_idx := (slots p2 next_idx)\<lparr>start_time_us := now\<rparr>), current_idx := next_idx\<rparr>)"

definition account :: "u64 \<Rightarrow> threads \<Rightarrow> threads" where
  "account now p =
     (let cur = current_idx p; start = start_time_us (slots p cur) in
      if 0 < start
      then p\<lparr>TOTAL_CPU_TIMES := (TOTAL_CPU_TIMES p)(cur := TOTAL_CPU_TIMES p cur + sat_sub now start)\<rparr>
      else p)"

text \<open>May the timer take the processor away from the running thread?\<close>

definition preemptible :: "u64 \<Rightarrow> threads \<Rightarrow> bool" where
  "preemptible now p \<longleftrightarrow>
     (let current = slots p (current_idx p) in
      if is_preemption_disabled p then False
      else if cooperative current \<and> THREAD_STATES p (current_idx p) = RUNNING
      then 0 < timeout_us current \<and> 0 < start_time_us current
           \<and> \<not> sat_sub now (start_time_us current) < timeout_us current
      else True)"

text \<open>The network thread's turn: \<open>Some\<close> the thread to boost, and the counter.\<close>

definition network_boost :: "nat \<Rightarrow> threads \<Rightarrow> nat option \<times> threads" where
  "network_boost ratio p =
     (case NETWORK_THREAD_ID p of
        None \<Rightarrow> (None, p)
      | Some net_tid \<Rightarrow>
          if current_idx p = net_tid then (None, p)
          else if ratio \<le> network_boost_counter p + 1
          then (if THREAD_STATES p net_tid = READY then Some net_tid else None, p\<lparr>network_boost_counter := 0\<rparr>)
          else (None, p\<lparr>network_boost_counter := network_boost_counter p + 1\<rparr>))"

definition round_robin :: "u64 \<Rightarrow> u64 \<Rightarrow> threads \<Rightarrow> (nat \<times> nat) option \<times> threads" where
  "round_robin now_wake now_switch p =
     (let p1 = wake_due now_wake p;
          hinted = PREEMPT_WAKE_TID p1;
          p2 = p1\<lparr>PREEMPT_WAKE_TID := MAX_THREADS\<rparr>;
          cur = current_idx p2
      in if hinted < MAX_THREADS \<and> hinted \<noteq> cur \<and> THREAD_STATES p2 hinted = READY
         then (Some (cur, hinted), switch_to now_switch hinted (account now_switch p2))
         else case find_next p2 of
                None \<Rightarrow> (None, p2)
              | Some next_idx \<Rightarrow>
                  (Some (cur, next_idx),
                   switch_to now_switch next_idx (account now_switch (p2\<lparr>round_robin_idx := next_idx\<rparr>))))"

definition schedule_indices :: "nat \<Rightarrow> bool \<Rightarrow> u64 \<Rightarrow> u64 \<Rightarrow> u64 \<Rightarrow> threads \<Rightarrow> (nat \<times> nat) option \<times> threads" where
  "schedule_indices ratio voluntary now_check now_wake now_switch p =
     (if \<not> voluntary \<and> \<not> preemptible now_check p then (None, p)
      else case network_boost ratio p of
             (Some net_tid, p1) \<Rightarrow> (Some (current_idx p1, net_tid), switch_to now_switch net_tid p1)
           | (None, p1) \<Rightarrow> round_robin now_wake now_switch p1)"

section \<open>Signals\<close>

definition pend_signal_for_thread :: "nat \<Rightarrow> nat \<Rightarrow> threads \<Rightarrow> threads" where
  "pend_signal_for_thread tid sig p =
     (if MAX_THREADS \<le> tid then p
      else if sig = 0 then p\<lparr>PENDING_SIGNALS := (PENDING_SIGNALS p)(tid := 0)\<rparr>
      else if sig \<le> 64
      then thread_wake tid
             (p\<lparr>PENDING_SIGNALS := (PENDING_SIGNALS p)(tid := PENDING_SIGNALS p tid OR push_bit (sig - 1) 1)\<rparr>)
      else p)"

definition peek_pending_signal :: "threads \<Rightarrow> nat \<Rightarrow> nat" where
  "peek_pending_signal p slot =
     (if slot < MAX_THREADS \<and> PENDING_SIGNALS p slot \<noteq> 0
      then trailing_zeros (PENDING_SIGNALS p slot) + 1 else 0)"

definition clear_pending_signal :: "nat \<Rightarrow> nat \<Rightarrow> threads \<Rightarrow> threads" where
  "clear_pending_signal slot sig p =
     (if slot < MAX_THREADS \<and> 0 < sig \<and> sig \<le> 64
      then p\<lparr>PENDING_SIGNALS := (PENDING_SIGNALS p)(slot := PENDING_SIGNALS p slot AND NOT (push_bit (sig - 1) 1))\<rparr>
      else p)"

text \<open>SIGKILL and SIGSTOP, which cannot be blocked.\<close>

definition unblockable :: u64 where
  "unblockable = push_bit 8 1 OR push_bit 18 1"

definition take_pending_signal :: "u64 \<Rightarrow> threads \<Rightarrow> nat option \<times> threads" where
  "take_pending_signal blocked p =
     (let tid = current_idx p in
      if MAX_THREADS \<le> tid then (None, p)
      else let pending = PENDING_SIGNALS p tid;
               deliverable = pending AND (NOT blocked OR unblockable)
           in if pending = 0 then (None, p)
              else if deliverable = 0 then (None, p)
              else let sig = trailing_zeros deliverable + 1
                   in (Some sig, p\<lparr>PENDING_SIGNALS :=
                         (PENDING_SIGNALS p)(tid := PENDING_SIGNALS p tid AND NOT (push_bit (sig - 1) 1))\<rparr>))"

definition thread_signal_mask :: "threads \<Rightarrow> u64" where
  "thread_signal_mask p =
     (if current_idx p < MAX_THREADS then THREAD_SIGNAL_MASK p (current_idx p) else 0)"

definition set_thread_signal_mask :: "u64 \<Rightarrow> threads \<Rightarrow> threads" where
  "set_thread_signal_mask new p =
     (if current_idx p < MAX_THREADS
      then p\<lparr>THREAD_SIGNAL_MASK := (THREAD_SIGNAL_MASK p)(current_idx p := new AND NOT unblockable)\<rparr> else p)"

definition or_thread_signal_mask :: "u64 \<Rightarrow> threads \<Rightarrow> u64 \<times> threads" where
  "or_thread_signal_mask bits p =
     (if current_idx p < MAX_THREADS
      then let prev = THREAD_SIGNAL_MASK p (current_idx p); new = prev OR (bits AND NOT unblockable)
           in (new, p\<lparr>THREAD_SIGNAL_MASK := (THREAD_SIGNAL_MASK p)(current_idx p := new)\<rparr>)
      else (0, p))"

definition seed_thread_signal_mask :: "nat \<Rightarrow> u64 \<Rightarrow> threads \<Rightarrow> threads" where
  "seed_thread_signal_mask tid new p =
     (if tid < MAX_THREADS then p\<lparr>THREAD_SIGNAL_MASK := (THREAD_SIGNAL_MASK p)(tid := new)\<rparr> else p)"

definition set_restore_sigmask :: "u64 \<Rightarrow> threads \<Rightarrow> threads" where
  "set_restore_sigmask saved p =
     (if current_idx p < MAX_THREADS
      then p\<lparr>THREAD_RESTORE_SIGMASK := (THREAD_RESTORE_SIGMASK p)(current_idx p := saved),
             THREAD_RESTORE_SIGMASK_PENDING := (THREAD_RESTORE_SIGMASK_PENDING p)(current_idx p := True)\<rparr>
      else p)"

definition take_restore_sigmask :: "threads \<Rightarrow> u64 option \<times> threads" where
  "take_restore_sigmask p =
     (let tid = current_idx p in
      if tid < MAX_THREADS \<and> THREAD_RESTORE_SIGMASK_PENDING p tid
      then (Some (THREAD_RESTORE_SIGMASK p tid),
            p\<lparr>THREAD_RESTORE_SIGMASK_PENDING := (THREAD_RESTORE_SIGMASK_PENDING p)(tid := False)\<rparr>)
      else (None, p))"

definition get_sigaltstack :: "threads \<Rightarrow> nat \<Rightarrow> u64 \<times> u64 \<times> u32" where
  "get_sigaltstack p slot = (if slot < MAX_THREADS then THREAD_SIGALTSTACK p slot else (0, 0, 2))"

definition set_sigaltstack :: "nat \<Rightarrow> u64 \<Rightarrow> u64 \<Rightarrow> u32 \<Rightarrow> threads \<Rightarrow> threads" where
  "set_sigaltstack slot sp sz flags p =
     (if slot < MAX_THREADS then p\<lparr>THREAD_SIGALTSTACK := (THREAD_SIGALTSTACK p)(slot := (sp, sz, flags))\<rparr> else p)"

section \<open>What the scheduler's passes change\<close>

lemma set_state_simps [simp]:
  "THREAD_STATES (set_state i st p) = (THREAD_STATES p)(i := st)"
  "current_idx (set_state i st p) = current_idx p" "round_robin_idx (set_state i st p) = round_robin_idx p"
  "WAKE_TIMES (set_state i st p) = WAKE_TIMES p" "WOKEN_STATES (set_state i st p) = WOKEN_STATES p"
  "NETWORK_THREAD_ID (set_state i st p) = NETWORK_THREAD_ID p"
  "PREEMPT_WAKE_TID (set_state i st p) = PREEMPT_WAKE_TID p"
  "PENDING_SIGNALS (set_state i st p) = PENDING_SIGNALS p"
  "network_boost_counter (set_state i st p) = network_boost_counter p"
  "slots (set_state i st p) = slots p"
  by (simp_all add: set_state_def)

text \<open>Threads whose wake time has come.\<close>

definition due :: "u64 \<Rightarrow> threads \<Rightarrow> nat \<Rightarrow> bool" where
  "due now p i \<longleftrightarrow> THREAD_STATES p i = WAITING \<and> 0 < WAKE_TIMES p i \<and> WAKE_TIMES p i \<le> now"

lemma wake_due_fold:
  assumes "distinct is"
  shows "fold (\<lambda>i p. if THREAD_STATES p i = WAITING \<and> 0 < WAKE_TIMES p i \<and> WAKE_TIMES p i \<le> now
                 then set_state i READY (p\<lparr>WAKE_TIMES := (WAKE_TIMES p)(i := 0)\<rparr>) else p) is p
    = p\<lparr>THREAD_STATES := (\<lambda>i. if i \<in> set is \<and> due now p i then READY else THREAD_STATES p i),
        WAKE_TIMES := (\<lambda>i. if i \<in> set is \<and> due now p i then 0 else WAKE_TIMES p i)\<rparr>"
  using assms
proof (induction "is" arbitrary: p)
  case (Cons i "is")
  let ?p = "if due now p i then set_state i READY (p\<lparr>WAKE_TIMES := (WAKE_TIMES p)(i := 0)\<rparr>) else p"
  have d: "due now ?p j = due now p j" if "j \<noteq> i" for j using that by (simp add: due_def)
  have i: "i \<notin> set is" using Cons.prems by simp
  have "fold (\<lambda>i p. if THREAD_STATES p i = WAITING \<and> 0 < WAKE_TIMES p i \<and> WAKE_TIMES p i \<le> now
                 then set_state i READY (p\<lparr>WAKE_TIMES := (WAKE_TIMES p)(i := 0)\<rparr>) else p) (i # is) p
      = ?p\<lparr>THREAD_STATES := (\<lambda>j. if j \<in> set is \<and> due now ?p j then READY else THREAD_STATES ?p j),
        WAKE_TIMES := (\<lambda>j. if j \<in> set is \<and> due now ?p j then 0 else WAKE_TIMES ?p j)\<rparr>"
    using Cons.IH [of ?p] Cons.prems by (simp add: due_def)
  also have "\<dots> = p\<lparr>THREAD_STATES := (\<lambda>j. if j \<in> set (i # is) \<and> due now p j then READY else THREAD_STATES p j),
        WAKE_TIMES := (\<lambda>j. if j \<in> set (i # is) \<and> due now p j then 0 else WAKE_TIMES p j)\<rparr>"
  proof -
    have "(\<lambda>j. if j \<in> set is \<and> due now ?p j then READY else THREAD_STATES ?p j)
        = (\<lambda>j. if j \<in> set (i # is) \<and> due now p j then READY else THREAD_STATES p j)"
      using d i by (intro ext) auto
    moreover have "(\<lambda>j. if j \<in> set is \<and> due now ?p j then 0 else WAKE_TIMES ?p j)
        = (\<lambda>j. if j \<in> set (i # is) \<and> due now p j then 0 else WAKE_TIMES p j)"
      using d i by (intro ext) auto
    ultimately show ?thesis by (simp add: set_state_def)
  qed
  finally show ?case .
qed simp

lemma wake_due_eq:
  "wake_due now p = p\<lparr>THREAD_STATES := (\<lambda>i. if i < MAX_THREADS \<and> due now p i then READY else THREAD_STATES p i),
      WAKE_TIMES := (\<lambda>i. if i < MAX_THREADS \<and> due now p i then 0 else WAKE_TIMES p i)\<rparr>"
  unfolding wake_due_def using wake_due_fold [of "[0..<MAX_THREADS]" now p] by simp

lemma account_simps [simp]:
  "THREAD_STATES (account now p) = THREAD_STATES p" "current_idx (account now p) = current_idx p"
  "round_robin_idx (account now p) = round_robin_idx p" "WAKE_TIMES (account now p) = WAKE_TIMES p"
  "WOKEN_STATES (account now p) = WOKEN_STATES p" "NETWORK_THREAD_ID (account now p) = NETWORK_THREAD_ID p"
  "PREEMPT_WAKE_TID (account now p) = PREEMPT_WAKE_TID p"
  by (simp_all add: account_def Let_def)

lemma switch_to_simps [simp]:
  "current_idx (switch_to now n p) = n" "round_robin_idx (switch_to now n p) = round_robin_idx p"
  "WAKE_TIMES (switch_to now n p) = WAKE_TIMES p" "WOKEN_STATES (switch_to now n p) = WOKEN_STATES p"
  "NETWORK_THREAD_ID (switch_to now n p) = NETWORK_THREAD_ID p"
  "PREEMPT_WAKE_TID (switch_to now n p) = PREEMPT_WAKE_TID p"
  "THREAD_STATES (switch_to now n p) =
     (THREAD_STATES p)(current_idx p := if THREAD_STATES p (current_idx p) \<in> {TERMINATED, WAITING}
        then THREAD_STATES p (current_idx p) else READY, n := RUNNING)"
  by (auto simp: switch_to_def Let_def)

text \<open>The candidates are all slots, ordered by their distance from the last choice.\<close>

definition dist :: "nat \<Rightarrow> nat \<Rightarrow> nat" where
  "dist rr t = (t + MAX_THREADS - 1 - rr) mod MAX_THREADS"

lemma candidate_dist:
  assumes "rr < MAX_THREADS" "t < MAX_THREADS"
  shows "candidates rr ! dist rr t = t" "dist rr t < MAX_THREADS"
proof -
  show d: "dist rr t < MAX_THREADS" by (simp add: dist_def MAX_THREADS_def)
  have "(rr + 1 + (t + MAX_THREADS - 1 - rr) mod MAX_THREADS) mod MAX_THREADS
      = (rr + 1 + (t + MAX_THREADS - 1 - rr)) mod MAX_THREADS" by (simp only: mod_add_right_eq)
  also have "rr + 1 + (t + MAX_THREADS - 1 - rr) = t + MAX_THREADS" using assms by (simp add: MAX_THREADS_def)
  finally show "candidates rr ! dist rr t = t" using assms d by (simp add: candidates_def dist_def)
qed

lemma find_next_Some:
  assumes "find_next p = Some n" "round_robin_idx p < MAX_THREADS"
  shows "THREAD_STATES p n = READY" "n \<noteq> current_idx p" "n < MAX_THREADS"
    "\<And>t. t < MAX_THREADS \<Longrightarrow> THREAD_STATES p t = READY \<Longrightarrow> t \<noteq> current_idx p \<Longrightarrow>
       dist (round_robin_idx p) n \<le> dist (round_robin_idx p) t"
proof -
  obtain k where k: "k < MAX_THREADS" "candidates (round_robin_idx p) ! k = n"
    "THREAD_STATES p n = READY \<and> n \<noteq> current_idx p"
    "\<forall>j<k. \<not> (THREAD_STATES p (candidates (round_robin_idx p) ! j) = READY \<and> candidates (round_robin_idx p) ! j \<noteq> current_idx p)"
    using assms(1) by (auto simp: find_next_def find_Some_iff candidates_def)
  show "THREAD_STATES p n = READY" "n \<noteq> current_idx p" using k(3) by auto
  have n: "n = (round_robin_idx p + 1 + k) mod MAX_THREADS" using k(1,2) by (simp add: candidates_def)
  then show nN: "n < MAX_THREADS" by (simp add: MAX_THREADS_def)
  have "dist (round_robin_idx p) n = k"
  proof -
    have "dist (round_robin_idx p) n = ((round_robin_idx p + 1 + k) mod MAX_THREADS + (MAX_THREADS - 1 - round_robin_idx p)) mod MAX_THREADS"
      unfolding dist_def n using assms(2) by (simp add: MAX_THREADS_def add.commute)
    also have "\<dots> = (round_robin_idx p + 1 + k + (MAX_THREADS - 1 - round_robin_idx p)) mod MAX_THREADS"
      by (simp only: mod_add_left_eq)
    also have "round_robin_idx p + 1 + k + (MAX_THREADS - 1 - round_robin_idx p) = k + MAX_THREADS"
      using assms(2) by (simp add: MAX_THREADS_def)
    finally show ?thesis using k(1) by simp
  qed
  moreover fix t assume t: "t < MAX_THREADS" "THREAD_STATES p t = READY" "t \<noteq> current_idx p"
  ultimately show "dist (round_robin_idx p) n \<le> dist (round_robin_idx p) t"
    using k(4) candidate_dist [OF assms(2) t(1)] t(2,3) by (metis not_le)
qed

lemma find_next_None:
  assumes "find_next p = None" "round_robin_idx p < MAX_THREADS" "t < MAX_THREADS" "t \<noteq> current_idx p"
  shows "THREAD_STATES p t \<noteq> READY"
proof -
  have "t \<in> set (candidates (round_robin_idx p))"
    using candidate_dist [OF assms(2,3)] by (metis candidates_def diff_zero length_map length_upt nth_mem)
  then show ?thesis using assms(1,4) by (auto simp: find_next_def find_None_iff)
qed

lemma dist_if:
  assumes "rr < MAX_THREADS" "t < MAX_THREADS"
  shows "dist rr t = (if rr < t then t - rr - 1 else t + MAX_THREADS - 1 - rr)"
proof (cases "rr < t")
  case True
  then have "t + MAX_THREADS - 1 - rr = (t - rr - 1) + MAX_THREADS" using assms by (simp add: MAX_THREADS_def)
  moreover have "t - rr - 1 < MAX_THREADS" using assms by simp
  ultimately show ?thesis using True unfolding dist_def by (metis mod_add_self2 mod_less)
next
  case False
  then have "t + MAX_THREADS - 1 - rr < MAX_THREADS" using assms by (simp add: MAX_THREADS_def)
  then show ?thesis using False by (simp add: dist_def)
qed

lemma dist_decreases:
  assumes "rr < MAX_THREADS" "n < MAX_THREADS" "t < MAX_THREADS" "n \<noteq> t" "dist rr n \<le> dist rr t"
  shows "dist n t < dist rr t"
  using assms(4,5) dist_if [OF assms(1,2)] dist_if [OF assms(1,3)] dist_if [OF assms(2,3)] assms(1-3)
  by (auto split: if_splits)

section \<open>Steps of the kernel on one core\<close>

text \<open>Everything but the scheduler: wake-ups from anywhere, the running thread's own steps, and
  the life cycle of slots.\<close>

inductive other_step :: "threads \<Rightarrow> threads \<Rightarrow> bool" where
  o_wake: "other_step p (thread_wake t p)"
| o_check: "other_step p (snd (block_check w now (current_idx p) p))"
| o_wait: "other_step p (mark_thread_waiting (current_idx p) w p)"
| o_loop: "other_step p (snd (block_loop b (current_idx p) p))"
| o_terminate: "other_step p (mark_thread_terminated now i p)"
| o_claim: "stop \<le> MAX_THREADS \<Longrightarrow> other_step p (snd (claim_free_slot start stop p))"
| o_ready: "THREAD_STATES p i = INITIALIZING \<Longrightarrow> other_step p (mark_thread_ready i p)"
| o_cleanup: "other_step p (snd (cleanup_terminated_internal force deferred cd now p))"
| o_pend: "other_step p (pend_signal_for_thread t sig p)"
| o_take: "other_step p (snd (take_pending_signal m p))"
| o_mask: "other_step p (set_thread_signal_mask m p)"
| o_disable: "other_step p (disable_preemption now p)"
| o_enable: "other_step p (enable_preemption p)"

inductive thread_step :: "nat \<Rightarrow> threads \<Rightarrow> threads \<Rightarrow> bool" for ratio where
  t_other: "other_step p p' \<Longrightarrow> thread_step ratio p p'"
| t_network: "tid < MAX_THREADS \<Longrightarrow> thread_step ratio p (set_network_thread_id tid p)"
| t_idle: "thread_step ratio p (make_idle_preemptible p)"
| t_sched: "schedule_indices ratio voluntary a b c p = (r, p') \<Longrightarrow> thread_step ratio p p'"

definition threads_ok :: "threads \<Rightarrow> bool" where
  "threads_ok p \<longleftrightarrow> current_idx p < MAX_THREADS \<and> round_robin_idx p < MAX_THREADS
     \<and> PREEMPT_WAKE_TID p = MAX_THREADS \<and> (\<forall>n. NETWORK_THREAD_ID p = Some n \<longrightarrow> n < MAX_THREADS)
     \<and> (\<forall>i < MAX_THREADS. i \<noteq> current_idx p \<longrightarrow> THREAD_STATES p i \<noteq> RUNNING)
     \<and> THREAD_STATES p IDLE_THREAD_IDX \<in> {READY, RUNNING, WAITING}"

text \<open>No step but the scheduler's touches what the choice of the next thread depends on, or makes
  a thread other than the running one run.\<close>

definition quiet_step :: "threads \<Rightarrow> threads \<Rightarrow> bool" where
  "quiet_step p p' \<longleftrightarrow> current_idx p' = current_idx p \<and> round_robin_idx p' = round_robin_idx p
     \<and> PREEMPT_WAKE_TID p' = PREEMPT_WAKE_TID p \<and> NETWORK_THREAD_ID p' = NETWORK_THREAD_ID p
     \<and> (\<forall>i. i \<noteq> current_idx p \<and> THREAD_STATES p' i = RUNNING \<longrightarrow> THREAD_STATES p i = RUNNING)
     \<and> (THREAD_STATES p IDLE_THREAD_IDX \<in> {READY, RUNNING, WAITING} \<longrightarrow>
          THREAD_STATES p' IDLE_THREAD_IDX \<in> {READY, RUNNING, WAITING})"

lemma quiet_refl: "quiet_step p p"
  by (simp add: quiet_step_def)

lemma quiet_wake: "quiet_step p (thread_wake t p)"
  by (auto simp: quiet_step_def thread_wake_def WAKEUP_LOCALITY_HINT_def Let_def)

lemma recycle_slot_quiet: "i \<noteq> IDLE_THREAD_IDX \<Longrightarrow> quiet_step p (snd (recycle_slot ck cd now i p))"
  by (auto simp: recycle_slot_def quiet_step_def)

lemma quiet_trans: "quiet_step p q \<Longrightarrow> quiet_step q r \<Longrightarrow> quiet_step p r"
  by (auto simp: quiet_step_def)

lemma recycle_slots_quiet:
  "IDLE_THREAD_IDX \<notin> set is \<Longrightarrow> quiet_step p (snd (recycle_slots ck cd now is p))"
proof (induction "is" arbitrary: p)
  case (Cons i "is")
  let ?p = "snd (recycle_slot ck cd now i p)"
  have "quiet_step p ?p" using recycle_slot_quiet [of i p ck cd now] Cons.prems by auto
  moreover have "quiet_step ?p (snd (recycle_slots ck cd now is ?p))" using Cons by auto
  ultimately have "quiet_step p (snd (recycle_slots ck cd now is ?p))" by (rule quiet_trans)
  then show ?case by (simp add: case_prod_beta)
qed (simp add: quiet_refl)

lemma cleanup_quiet: "quiet_step p (snd (cleanup_terminated_internal force deferred cd now p))"
proof -
  have "IDLE_THREAD_IDX \<notin> set [1..<MAX_THREADS]" by (simp add: IDLE_THREAD_IDX_def)
  from recycle_slots_quiet [OF this] show ?thesis
    unfolding cleanup_terminated_internal_def by (simp add: quiet_refl)
qed

lemma other_step_quiet: "other_step p p' \<Longrightarrow> quiet_step p p'"
proof (induction rule: other_step.induct)
  case (o_wake p t)
  show ?case by (rule quiet_wake)
next
  case (o_check p w now)
  show ?case by (simp add: quiet_step_def block_check_def Let_def)
next
  case (o_wait p w)
  show ?case by (simp add: quiet_step_def mark_thread_waiting_def)
next
  case (o_loop p b)
  show ?case by (simp add: quiet_step_def block_loop_def Let_def)
next
  case (o_terminate p now i)
  show ?case by (simp add: quiet_step_def mark_thread_terminated_def)
next
  case (o_claim stop p start)
  show ?case
  proof (cases "find (\<lambda>i. THREAD_STATES p i = FREE) [start..<stop]")
    case (Some i)
    then have "THREAD_STATES p i = FREE" by (auto simp: find_Some_iff)
    with Some show ?thesis by (auto simp: claim_free_slot_def quiet_step_def)
  qed (simp add: claim_free_slot_def quiet_refl)
next
  case (o_ready p i)
  then show ?case by (simp add: quiet_step_def mark_thread_ready_def)
next
  case (o_cleanup p force deferred cd now)
  show ?case by (rule cleanup_quiet)
next
  case (o_pend p t sig)
  have q: "quiet_step p (p\<lparr>PENDING_SIGNALS := x\<rparr>)" for x by (simp add: quiet_step_def)
  show ?case using quiet_trans [OF q quiet_wake] q quiet_refl by (simp add: pend_signal_for_thread_def)
next
  case (o_take p m)
  show ?case by (simp add: quiet_step_def take_pending_signal_def Let_def)
next
  case (o_mask p m)
  show ?case by (simp add: quiet_step_def set_thread_signal_mask_def)
next
  case (o_disable p now)
  show ?case by (simp add: quiet_step_def disable_preemption_def Let_def)
next
  case (o_enable p)
  show ?case by (simp add: quiet_step_def enable_preemption_def Let_def)
qed

lemma quiet_ok: "quiet_step p p' \<Longrightarrow> threads_ok p \<Longrightarrow> threads_ok p'"
  unfolding quiet_step_def threads_ok_def by auto

lemma network_boost_cases:
  assumes "network_boost ratio p = (r, p1)"
  shows "THREAD_STATES p1 = THREAD_STATES p" "current_idx p1 = current_idx p" "round_robin_idx p1 = round_robin_idx p"
    "WAKE_TIMES p1 = WAKE_TIMES p" "WOKEN_STATES p1 = WOKEN_STATES p"
    "NETWORK_THREAD_ID p1 = NETWORK_THREAD_ID p" "PREEMPT_WAKE_TID p1 = PREEMPT_WAKE_TID p"
    "\<And>n. r = Some n \<Longrightarrow> NETWORK_THREAD_ID p = Some n \<and> n \<noteq> current_idx p \<and> THREAD_STATES p n = READY"
  using assms by (auto simp: network_boost_def split: option.splits if_splits)

text \<open>The scheduler's decision in one statement: who runs next, and what becomes of the array.\<close>

lemma schedule_cases:
  assumes "schedule_indices ratio voluntary a b c p = (r, p')" "threads_ok p"
  obtains (unchanged) "r = None" "p' = p" "\<not> voluntary"
  | (boost) n where "r = Some (current_idx p, n)" "NETWORK_THREAD_ID p = Some n" "n \<noteq> current_idx p"
      "THREAD_STATES p n = READY" "current_idx p' = n" "round_robin_idx p' = round_robin_idx p"
      "THREAD_STATES p' = (THREAD_STATES p)(current_idx p := if THREAD_STATES p (current_idx p) \<in> {TERMINATED, WAITING}
        then THREAD_STATES p (current_idx p) else READY, n := RUNNING)"
      "NETWORK_THREAD_ID p' = NETWORK_THREAD_ID p" "PREEMPT_WAKE_TID p' = MAX_THREADS"
      "WAKE_TIMES p' = WAKE_TIMES p" "WOKEN_STATES p' = WOKEN_STATES p"
  | (idle) "r = None" "current_idx p' = current_idx p" "round_robin_idx p' = round_robin_idx p"
      "THREAD_STATES p' = THREAD_STATES (wake_due b p)" "\<forall>t < MAX_THREADS. t \<noteq> current_idx p \<longrightarrow> THREAD_STATES (wake_due b p) t \<noteq> READY"
      "NETWORK_THREAD_ID p' = NETWORK_THREAD_ID p" "PREEMPT_WAKE_TID p' = MAX_THREADS"
      "WAKE_TIMES p' = WAKE_TIMES (wake_due b p)" "WOKEN_STATES p' = WOKEN_STATES p"
  | (turn) n where "r = Some (current_idx p, n)" "n < MAX_THREADS" "n \<noteq> current_idx p"
      "THREAD_STATES (wake_due b p) n = READY" "current_idx p' = n" "round_robin_idx p' = n"
      "\<forall>t < MAX_THREADS. THREAD_STATES (wake_due b p) t = READY \<and> t \<noteq> current_idx p \<longrightarrow>
         dist (round_robin_idx p) n \<le> dist (round_robin_idx p) t"
      "THREAD_STATES p' = (THREAD_STATES (wake_due b p))(current_idx p :=
        if THREAD_STATES (wake_due b p) (current_idx p) \<in> {TERMINATED, WAITING}
        then THREAD_STATES (wake_due b p) (current_idx p) else READY, n := RUNNING)"
      "NETWORK_THREAD_ID p' = NETWORK_THREAD_ID p" "PREEMPT_WAKE_TID p' = MAX_THREADS"
      "WAKE_TIMES p' = WAKE_TIMES (wake_due b p)" "WOKEN_STATES p' = WOKEN_STATES p"
proof (cases "\<not> voluntary \<and> \<not> preemptible a p")
  case True
  then show thesis using assms(1) unchanged by (auto simp: schedule_indices_def)
next
  case False
  obtain bo p1 where nb: "network_boost ratio p = (bo, p1)" by (cases "network_boost ratio p")
  note nbc = network_boost_cases [OF nb]
  have ok: "PREEMPT_WAKE_TID p = MAX_THREADS" "round_robin_idx p < MAX_THREADS" using assms(2) by (auto simp: threads_ok_def)
  show thesis
  proof (cases bo)
    case (Some n)
    have "r = Some (current_idx p, n)" "p' = switch_to c n p1"
      using assms(1) False nb Some nbc(2) by (auto simp: schedule_indices_def)
    then show thesis using boost [of n] nbc Some ok(1) by simp
  next
    case None
    let ?p2 = "(wake_due b p1)\<lparr>PREEMPT_WAKE_TID := MAX_THREADS\<rparr>"
    have hint: "PREEMPT_WAKE_TID (wake_due b p1) = MAX_THREADS" using nbc(7) ok(1) by (simp add: wake_due_eq)
    have rr: "round_robin b c p1 = (r, p')" using assms(1) False nb None by (auto simp: schedule_indices_def)
    have w: "THREAD_STATES (wake_due b p1) = THREAD_STATES (wake_due b p)" "WAKE_TIMES (wake_due b p1) = WAKE_TIMES (wake_due b p)"
      "current_idx (wake_due b p1) = current_idx p" "round_robin_idx (wake_due b p1) = round_robin_idx p"
      "NETWORK_THREAD_ID (wake_due b p1) = NETWORK_THREAD_ID p" "WOKEN_STATES (wake_due b p1) = WOKEN_STATES p"
      using nbc(1-7) by (simp_all add: wake_due_eq due_def cong: if_cong)
    show thesis
    proof (cases "find_next ?p2")
      case fn: None
      have "\<forall>t < MAX_THREADS. t \<noteq> current_idx p \<longrightarrow> THREAD_STATES (wake_due b p) t \<noteq> READY"
        using find_next_None [OF fn] w ok(2) by simp
      moreover have "r = None" "p' = ?p2" using rr fn hint by (simp_all add: round_robin_def Let_def)
      ultimately show thesis using idle w by simp
    next
      case fn: (Some n)
      have "r = Some (current_idx p, n)" "p' = switch_to c n (account c (?p2\<lparr>round_robin_idx := n\<rparr>))"
        using rr fn hint w by (simp_all add: round_robin_def Let_def)
      moreover have "THREAD_STATES (wake_due b p) n = READY" "n \<noteq> current_idx p" "n < MAX_THREADS"
        "\<forall>t < MAX_THREADS. THREAD_STATES (wake_due b p) t = READY \<and> t \<noteq> current_idx p \<longrightarrow>
         dist (round_robin_idx p) n \<le> dist (round_robin_idx p) t"
        using find_next_Some [OF fn] w ok(2) by simp_all
      ultimately show thesis using turn [of n] w by simp
    qed
  qed
qed

lemma wake_due_states:
  "THREAD_STATES (wake_due b p) i = READY \<or> THREAD_STATES (wake_due b p) i = THREAD_STATES p i"
  "THREAD_STATES p i \<noteq> WAITING \<Longrightarrow> THREAD_STATES (wake_due b p) i = THREAD_STATES p i"
  by (auto simp: wake_due_eq due_def)

lemma schedule_ok:
  assumes "schedule_indices ratio voluntary a b c p = (r, p')" "threads_ok p"
  shows "threads_ok p'"
  using assms
proof (cases rule: schedule_cases)
  case unchanged
  with assms(2) show ?thesis by simp
next
  case (boost n)
  then show ?thesis using assms(2) by (auto simp: threads_ok_def)
next
  case idle
  have "THREAD_STATES (wake_due b p) i \<noteq> RUNNING" if "THREAD_STATES p i \<noteq> RUNNING" for i
    using wake_due_states(1) [of b p i] that by auto
  moreover have "THREAD_STATES (wake_due b p) IDLE_THREAD_IDX \<in> {READY, RUNNING, WAITING}"
    using wake_due_states(1) [of b p IDLE_THREAD_IDX] assms(2) by (auto simp: threads_ok_def)
  ultimately show ?thesis using assms(2) idle by (auto simp: threads_ok_def)
next
  case (turn n)
  have "THREAD_STATES (wake_due b p) i \<noteq> RUNNING" if "THREAD_STATES p i \<noteq> RUNNING" for i
    using wake_due_states(1) [of b p i] that by auto
  moreover have "THREAD_STATES (wake_due b p) IDLE_THREAD_IDX \<in> {READY, RUNNING, WAITING}"
    using wake_due_states(1) [of b p IDLE_THREAD_IDX] assms(2) by (auto simp: threads_ok_def)
  ultimately show ?thesis using assms(2) turn by (auto simp: threads_ok_def)
qed

section \<open>Waiting for the processor\<close>

text \<open>\<open>passed_over ratio t n p p'\<close>: from \<open>p\<close> to \<open>p'\<close> the scheduler switched threads \<open>n\<close> times while
  thread \<open>t\<close> was ready and off the processor, never to \<open>t\<close>; between the decisions anything else
  may happen.\<close>

inductive passed_over :: "nat \<Rightarrow> nat \<Rightarrow> nat \<Rightarrow> threads \<Rightarrow> threads \<Rightarrow> bool" for ratio t where
  po_start: "passed_over ratio t 0 p p"
| po_other: "passed_over ratio t n p p' \<Longrightarrow> other_step p' p'' \<Longrightarrow> passed_over ratio t n p p''"
| po_idle: "passed_over ratio t n p p' \<Longrightarrow> schedule_indices ratio v a b c p' = (None, p'') \<Longrightarrow>
    passed_over ratio t n p p''"
| po_turn: "passed_over ratio t n p p' \<Longrightarrow> THREAD_STATES p' t = READY \<Longrightarrow> current_idx p' \<noteq> t \<Longrightarrow>
    schedule_indices ratio v a b c p' = (Some (x, y), p'') \<Longrightarrow> y \<noteq> t \<Longrightarrow>
    passed_over ratio t (Suc n) p p''"

text \<open>How many decisions can still go past \<open>t\<close>: twice its distance, plus one for a boost of the
  network thread, which is never chosen twice in a row that way.\<close>

definition patience :: "nat \<Rightarrow> threads \<Rightarrow> nat" where
  "patience t p = 2 * dist (round_robin_idx p) t + (if NETWORK_THREAD_ID p = Some (current_idx p) then 0 else 1)"

lemma patience_turn:
  assumes "schedule_indices ratio v a b c p = (Some (x, y), p')" "threads_ok p" "t < MAX_THREADS"
    and "THREAD_STATES p t = READY" "current_idx p \<noteq> t" "y \<noteq> t"
  shows "patience t p' < patience t p"
  using assms(1,2)
proof (cases rule: schedule_cases)
  case (boost n)
  then have "NETWORK_THREAD_ID p' = Some (current_idx p')" "NETWORK_THREAD_ID p \<noteq> Some (current_idx p)" by auto
  with boost(6) show ?thesis by (simp add: patience_def)
next
  case (turn n)
  have "THREAD_STATES (wake_due b p) t = READY" using wake_due_states(2) [of p t b] assms(4) by simp
  then have "dist (round_robin_idx p) n \<le> dist (round_robin_idx p) t" using turn(7) assms(3,5) by auto
  moreover have "n \<noteq> t" using turn(1) assms(6) by simp
  moreover have "round_robin_idx p < MAX_THREADS" using assms(2) by (simp add: threads_ok_def)
  ultimately have "dist n t < dist (round_robin_idx p) t" using dist_decreases turn(2) assms(3) by blast
  with turn(6) show ?thesis by (simp add: patience_def)
qed auto

lemma patience_quiet: "quiet_step p p' \<Longrightarrow> patience t p' = patience t p"
  by (simp add: patience_def quiet_step_def)

lemma patience_idle:
  assumes "schedule_indices ratio v a b c p = (None, p')" "threads_ok p"
  shows "patience t p' = patience t p"
  using assms by (cases rule: schedule_cases) (auto simp: patience_def)

lemma passed_over_patience:
  assumes "passed_over ratio t n p p'" "threads_ok p" "t < MAX_THREADS"
  shows "threads_ok p' \<and> n + patience t p' \<le> patience t p"
  using assms
proof (induction rule: passed_over.induct)
  case (po_other n p p' p'')
  then show ?case using other_step_quiet quiet_ok patience_quiet by metis
next
  case (po_idle n p p' v a b c p'')
  then show ?case using schedule_ok [OF po_idle(2)] patience_idle [OF po_idle(2)] by auto
next
  case (po_turn n p p' v a b c x y p'')
  then have "threads_ok p'" "n + patience t p' \<le> patience t p" by auto
  with schedule_ok [OF po_turn(4)] patience_turn [OF po_turn(4) _ po_turn.prems(2) po_turn(2,3,5)] show ?case by auto
qed simp

lemma thread_step_ok: "thread_step ratio p p' \<Longrightarrow> threads_ok p \<Longrightarrow> threads_ok p'"
proof (induction rule: thread_step.induct)
  case (t_other p p')
  then show ?case using other_step_quiet quiet_ok by blast
next
  case (t_sched voluntary a b c p r p')
  then show ?case using schedule_ok by blast
qed (auto simp: threads_ok_def set_network_thread_id_def make_idle_preemptible_def)

lemma boot_ok: "threads_ok (pool_init now threads_new)"
  by (auto simp: threads_ok_def pool_init_def threads_new_def IDLE_THREAD_IDX_def MAX_THREADS_def)

section \<open>Pending signals\<close>

lemma bit_push_one:
  "bit (push_bit n 1 :: u64) i \<longleftrightarrow> i = n \<and> n < 64" "bit (2 ^ n :: u64) i \<longleftrightarrow> i = n \<and> n < 64"
  by (auto simp: bit_simps)

lemma trailing_zeros_least: "bit w j \<Longrightarrow> trailing_zeros w \<le> j"
proof -
  assume b: "bit w j"
  then have "j < 64" using bit_imp_le_length [OF b] by simp
  obtain k where k: "find (bit w) [0..<64] = Some k" using b \<open>j < 64\<close>
    by (cases "find (bit w) [0..<64]") (auto simp: find_None_iff)
  have "k \<le> j"
  proof (rule ccontr)
    assume "\<not> k \<le> j"
    with k b show False by (auto simp: find_Some_iff)
  qed
  with k show ?thesis by (simp add: trailing_zeros_def)
qed

text \<open>The signals a thread has pending, by number.\<close>

definition pending_set :: "threads \<Rightarrow> nat \<Rightarrow> nat set" where
  "pending_set p tid = {sig. 0 < sig \<and> bit (PENDING_SIGNALS p tid) (sig - 1)}"

definition deliverable_set :: "u64 \<Rightarrow> threads \<Rightarrow> nat \<Rightarrow> nat set" where
  "deliverable_set blocked p tid = {sig \<in> pending_set p tid. sig = 9 \<or> sig = 19 \<or> \<not> bit blocked (sig - 1)}"

lemma bit_unblockable: "bit unblockable i \<longleftrightarrow> i = 8 \<or> i = 18"
  unfolding unblockable_def bit_or_iff bit_push_one by auto

lemma bit_deliverable:
  "bit (PENDING_SIGNALS p tid AND (NOT blocked OR unblockable)) i \<longleftrightarrow> Suc i \<in> deliverable_set blocked p tid"
proof (cases "i < 64")
  case True
  then show ?thesis
    by (auto simp: deliverable_set_def pending_set_def bit_and_iff bit_or_iff bit_not_iff bit_unblockable)
next
  case False
  then have "\<not> bit (w :: u64) i" for w using bit_imp_le_length [of w i] by auto
  then show ?thesis by (simp add: deliverable_set_def pending_set_def)
qed

lemma deliverable_empty:
  "PENDING_SIGNALS p tid AND (NOT blocked OR unblockable) = 0 \<longleftrightarrow> deliverable_set blocked p tid = {}"
  (is "?d = 0 \<longleftrightarrow> _")
proof
  assume "?d = 0"
  then have none: "Suc i \<notin> deliverable_set blocked p tid" for i using bit_deliverable [of p tid blocked i] by simp
  have "sig \<notin> deliverable_set blocked p tid" for sig
    using none [of "sig - 1"] by (cases sig) (auto simp: deliverable_set_def pending_set_def)
  then show "deliverable_set blocked p tid = {}" by blast
next
  assume "deliverable_set blocked p tid = {}"
  then have "\<not> bit ?d i" for i using bit_deliverable by blast
  then show "?d = 0" by (simp add: bit_eq_iff)
qed

lemma take_pending_signal_spec:
  assumes "take_pending_signal blocked p = (r, p')" "current_idx p < MAX_THREADS"
  shows "case r of
      None \<Rightarrow> p' = p \<and> deliverable_set blocked p (current_idx p) = {}
    | Some sig \<Rightarrow> sig \<in> deliverable_set blocked p (current_idx p)
        \<and> (\<forall>x \<in> deliverable_set blocked p (current_idx p). sig \<le> x)
        \<and> pending_set p' (current_idx p) = pending_set p (current_idx p) - {sig}"
proof -
  let ?t = "current_idx p"
  let ?d = "PENDING_SIGNALS p ?t AND (NOT blocked OR unblockable)"
  have empty: "?d = 0 \<longleftrightarrow> deliverable_set blocked p ?t = {}" by (rule deliverable_empty)
  show ?thesis
  proof (cases "?d = 0")
    case True
    then show ?thesis using assms empty by (auto simp: take_pending_signal_def Let_def split: if_splits)
  next
    case False
    let ?sig = "trailing_zeros ?d + 1"
    have tz: "trailing_zeros ?d < 64" "bit ?d (trailing_zeros ?d)" using trailing_zeros_bit [OF False] by auto
    have "PENDING_SIGNALS p ?t \<noteq> 0" using False by auto
    then have r: "r = Some ?sig" "PENDING_SIGNALS p' ?t = PENDING_SIGNALS p ?t AND NOT (push_bit (trailing_zeros ?d) 1)"
      using assms False by (auto simp: take_pending_signal_def Let_def split: if_splits)
    have "?sig \<in> deliverable_set blocked p ?t" using bit_deliverable tz(2) by auto
    moreover have "\<forall>x \<in> deliverable_set blocked p ?t. ?sig \<le> x"
    proof
      fix x assume x: "x \<in> deliverable_set blocked p ?t"
      then obtain j where j: "x = Suc j" by (cases x) (auto simp: deliverable_set_def pending_set_def)
      with x have "bit ?d j" using bit_deliverable by blast
      then show "?sig \<le> x" using trailing_zeros_least j by auto
    qed
    moreover have "pending_set p' ?t = pending_set p ?t - {?sig}"
      by (auto simp: pending_set_def r(2) bit_and_iff bit_not_iff bit_push_one dest: bit_imp_le_length)
    ultimately show ?thesis by (simp add: r(1))
  qed
qed

lemma pend_signal_spec:
  assumes "tid < MAX_THREADS" "0 < sig" "sig \<le> 64"
  shows "pending_set (pend_signal_for_thread tid sig p) tid = insert sig (pending_set p tid)"
proof -
  have "PENDING_SIGNALS (pend_signal_for_thread tid sig p) tid = PENDING_SIGNALS p tid OR push_bit (sig - 1) 1"
    using assms by (simp add: pend_signal_for_thread_def thread_wake_def WAKEUP_LOCALITY_HINT_def Let_def)
  then show ?thesis using assms(2,3) by (auto simp: pending_set_def bit_or_iff bit_push_one)
qed

section \<open>Properties\<close>

text \<open>
  C16: In every state a core reaches from boot, whatever wake-ups, blocking calls, spawns,
  terminations, clean-ups and scheduling decisions happen and in whatever order, at most the
  thread on the processor is marked running, and the idle thread is never freed or terminated.
\<close>

theorem one_thread_runs:
  assumes "(thread_step ratio)\<^sup>*\<^sup>* (pool_init now threads_new) p"
  shows "current_idx p < MAX_THREADS
    \<and> {i. i < MAX_THREADS \<and> THREAD_STATES p i = RUNNING} \<subseteq> {current_idx p}
    \<and> THREAD_STATES p IDLE_THREAD_IDX \<in> {READY, RUNNING, WAITING}"
proof -
  have "threads_ok p" using assms
    by (induction rule: rtranclp_induct) (simp_all add: boot_ok thread_step_ok)
  then show ?thesis by (auto simp: threads_ok_def)
qed

text \<open>Boot, spawn two threads, and let the idle thread yield.\<close>

definition two_threads :: threads where
  "two_threads = mark_thread_ready 2 (mark_thread_ready 1 (snd (claim_free_slot 1 3 (snd (claim_free_slot 1 3
     (pool_init 5 threads_new))))))"

lemma two_threads_states:
  "THREAD_STATES two_threads = (\<lambda>_. FREE)(0 := RUNNING, 1 := READY, 2 := READY)" "current_idx two_threads = 0"
  "round_robin_idx two_threads = 0" "NETWORK_THREAD_ID two_threads = None" "PREEMPT_WAKE_TID two_threads = MAX_THREADS"
  "PENDING_SIGNALS two_threads = (\<lambda>_. 0)"
  by (simp_all add: two_threads_def mark_thread_ready_def claim_free_slot_def pool_init_def threads_new_def
      set_state_def upt_rec IDLE_THREAD_IDX_def MAX_THREADS_def numeral_2_eq_2)

lemma two_threads_turn: "\<exists>q. schedule_indices 4 True 6 7 8 two_threads = (Some (0, 1), q)"
proof -
  have d: "\<not> due 7 two_threads i" for i by (simp add: due_def two_threads_states)
  have c: "candidates 0 = 1 # map (\<lambda>k. (0 + 1 + k) mod MAX_THREADS) [1..<MAX_THREADS]"
    by (simp add: candidates_def upt_conv_Cons MAX_THREADS_def del: upt_conv_Cons_Cons)
  have "find_next ((wake_due 7 two_threads)\<lparr>PREEMPT_WAKE_TID := MAX_THREADS\<rparr>) = Some 1"
    by (simp add: find_next_def wake_due_eq d two_threads_states c)
  then show ?thesis
    by (simp add: schedule_indices_def network_boost_def round_robin_def Let_def two_threads_states wake_due_eq d)
qed

lemma two_threads_reached: "(thread_step ratio)\<^sup>*\<^sup>* (pool_init 5 threads_new) two_threads"
proof -
  let ?p1 = "snd (claim_free_slot 1 3 (pool_init 5 threads_new))"
  let ?p2 = "snd (claim_free_slot 1 3 ?p1)"
  have i: "THREAD_STATES ?p2 1 = INITIALIZING" "THREAD_STATES (mark_thread_ready 1 ?p2) 2 = INITIALIZING"
    by (simp_all add: mark_thread_ready_def claim_free_slot_def pool_init_def threads_new_def set_state_def upt_rec
      IDLE_THREAD_IDX_def)
  have "thread_step ratio (pool_init 5 threads_new) ?p1" "thread_step ratio ?p1 ?p2"
    by (intro t_other o_claim, simp add: MAX_THREADS_def)+
  moreover have "thread_step ratio ?p2 (mark_thread_ready 1 ?p2)"
    "thread_step ratio (mark_thread_ready 1 ?p2) two_threads"
    unfolding two_threads_def by (intro t_other o_ready i)+
  ultimately show ?thesis by (meson converse_rtranclp_into_rtranclp rtranclp.rtrancl_refl)
qed

lemma two_threads_ok: "threads_ok two_threads"
  using two_threads_reached [of 4] by (induction rule: rtranclp_induct) (simp_all add: boot_ok thread_step_ok)

theorem one_thread_runs_witness:
  "{i. i < MAX_THREADS \<and> THREAD_STATES (snd (schedule_indices 4 True 6 7 8 two_threads)) i = RUNNING}
     \<subseteq> {current_idx (snd (schedule_indices 4 True 6 7 8 two_threads))}"
proof -
  have "thread_step 4 two_threads (snd (schedule_indices 4 True 6 7 8 two_threads))"
    by (rule t_sched [of 4 True 6 7 8 _ "fst (schedule_indices 4 True 6 7 8 two_threads)"]) simp
  with two_threads_reached [of 4]
  have "(thread_step 4)\<^sup>*\<^sup>* (pool_init 5 threads_new) (snd (schedule_indices 4 True 6 7 8 two_threads))"
    by (rule rtranclp.rtrancl_into_rtrancl)
  from one_thread_runs [OF this] show ?thesis by blast
qed

text \<open>
  C17: A voluntary scheduling decision is sound and complete: it switches to a ready thread
  other than the current one, which is put back among the ready ones unless it waits or is
  dead, and it declines to switch only when, with all due sleepers woken, no other thread is
  ready. Threads that are neither the old nor the new one keep their state, but for due sleepers.
\<close>

theorem schedule_sound_complete:
  assumes "threads_ok p" "schedule_indices ratio True now_check now_wake now_switch p = (r, p')"
  shows "case r of
      None \<Rightarrow> current_idx p' = current_idx p
        \<and> (\<forall>t < MAX_THREADS. t \<noteq> current_idx p \<longrightarrow> THREAD_STATES p t \<noteq> READY \<and> \<not> due now_wake p t)
    | Some (old, new) \<Rightarrow> old = current_idx p \<and> current_idx p' = new \<and> new \<noteq> old \<and> new < MAX_THREADS
        \<and> (THREAD_STATES p new = READY \<or> due now_wake p new) \<and> THREAD_STATES p' new = RUNNING
        \<and> THREAD_STATES p' old \<noteq> RUNNING
        \<and> (\<forall>t. t \<noteq> old \<and> t \<noteq> new \<longrightarrow>
             THREAD_STATES p' t = THREAD_STATES p t \<or> due now_wake p t \<and> THREAD_STATES p' t = READY)"
  using assms(2,1)
proof (cases rule: schedule_cases)
  case (boost n)
  then show ?thesis using assms(1) by (auto simp: threads_ok_def)
next
  case idle
  then have "THREAD_STATES p t \<noteq> READY \<and> \<not> due now_wake p t" if "t < MAX_THREADS" "t \<noteq> current_idx p" for t
    using that by (auto simp: wake_due_eq split: if_splits)
  with idle show ?thesis by simp
next
  case (turn n)
  then show ?thesis by (auto simp: wake_due_eq split: if_splits)
qed simp

theorem schedule_sound_complete_witness:
  "\<exists>q. schedule_indices 4 True 6 7 8 two_threads = (Some (0, 1), q)
     \<and> THREAD_STATES q 1 = RUNNING \<and> THREAD_STATES q 0 \<noteq> RUNNING"
proof -
  obtain q where q: "schedule_indices 4 True 6 7 8 two_threads = (Some (0, 1), q)" using two_threads_turn by blast
  show ?thesis using schedule_sound_complete [OF two_threads_ok q] q by auto
qed

text \<open>
  C18: No ready thread is starved: while a thread is ready and off the processor, the scheduler
  switches between other threads at most 127 times before it runs it, whatever the other threads
  do and although the network thread is boosted ahead of the round robin.
\<close>

theorem scheduler_fair:
  assumes "passed_over ratio t n p p'" "threads_ok p" "t < MAX_THREADS"
  shows "n < 2 * MAX_THREADS"
proof -
  have "n \<le> patience t p" using passed_over_patience [OF assms] by linarith
  moreover have "dist (round_robin_idx p) t < MAX_THREADS" by (simp add: dist_def MAX_THREADS_def)
  ultimately show ?thesis by (auto simp: patience_def MAX_THREADS_def split: if_splits)
qed

theorem scheduler_fair_witness:
  "\<exists>q. passed_over 4 2 (Suc 0) two_threads q \<and> Suc 0 < 2 * MAX_THREADS"
proof -
  obtain q where q: "schedule_indices 4 True 6 7 8 two_threads = (Some (0, 1), q)" using two_threads_turn by blast
  have "passed_over 4 2 (Suc 0) two_threads q"
    by (rule po_turn [OF po_start _ _ q]) (simp_all add: two_threads_states)
  with scheduler_fair [OF this two_threads_ok] show ?thesis by (auto simp: MAX_THREADS_def)
qed

text \<open>
  Taking a pending signal delivers the lowest-numbered signal that is pending and not
  blocked, with SIGKILL and SIGSTOP never blocked, and clears exactly that one; it delivers
  nothing only when nothing is deliverable.
\<close>

theorem take_signal_lowest:
  assumes "current_idx p < MAX_THREADS"
  shows "case take_pending_signal blocked p of
      (None, p') \<Rightarrow> p' = p \<and> deliverable_set blocked p (current_idx p) = {}
    | (Some sig, p') \<Rightarrow> sig \<in> deliverable_set blocked p (current_idx p)
        \<and> (\<forall>x \<in> deliverable_set blocked p (current_idx p). sig \<le> x)
        \<and> pending_set p' (current_idx p) = pending_set p (current_idx p) - {sig}"
  using take_pending_signal_spec [of blocked p] assms by (cases "take_pending_signal blocked p") (auto split: option.splits)

theorem take_signal_lowest_witness:
  "fst (take_pending_signal (- 1) (pend_signal_for_thread 0 9 (pend_signal_for_thread 0 2 two_threads))) = Some 9
   \<and> 9 \<in> deliverable_set (- 1) (pend_signal_for_thread 0 9 (pend_signal_for_thread 0 2 two_threads)) 0"
proof -
  let ?p = "pend_signal_for_thread 0 9 (pend_signal_for_thread 0 2 two_threads)"
  have f: "fst (take_pending_signal (- 1) ?p) = Some 9" "current_idx ?p = 0" by code_simp+
  moreover obtain q where "take_pending_signal (- 1) ?p = (Some 9, q)"
    using f(1) by (cases "take_pending_signal (- 1) ?p") auto
  ultimately show ?thesis using take_signal_lowest [of ?p "- 1"] by (simp add: MAX_THREADS_def)
qed

section \<open>A wake-up that arrives between the check and the wait\<close>

text \<open>
  The sticky flag closes the window before \<open>schedule_blocking\<close> looks at it, and a waiting thread
  is readied by the wake-up itself. Between the look and \<open>mark_thread_waiting\<close> the thread can be
  preempted, and a wake-up then only sets the flag: the thread goes on to wait with the flag set,
  and the scheduler never looks at the flag.
\<close>

lemma wakeup_lost:
  assumes "threads_ok p" "current_idx p = t" "THREAD_STATES p t = RUNNING" "\<not> WOKEN_STATES p t"
    and "block_check (- 1) now t p = (go_on, p1)" "now < - 1"
    and "schedule_indices ratio False a b c p1 = (Some (t, n), p2)"
    and "schedule_indices ratio v a' b' c' (thread_wake t p2) = (Some (n, t), p3)"
    and "schedule_indices ratio True a'' b'' c'' (mark_thread_waiting t (- 1) p3) = (Some (t, m), p4)" "b'' < - 1"
  shows "go_on \<and> THREAD_STATES p4 t = WAITING \<and> WOKEN_STATES p4 t \<and> WAKE_TIMES p4 t = - 1 \<and> current_idx p4 \<noteq> t"
proof -
  have t: "t < MAX_THREADS" using assms(1,2) by (auto simp: threads_ok_def)
  have go: "go_on" "p1 = p\<lparr>WOKEN_STATES := (WOKEN_STATES p)(t := False)\<rparr>"
    using assms(4-6) by (auto simp: block_check_def Let_def)
  have ok1: "threads_ok p1" using assms(1) by (simp add: go(2) threads_ok_def)
  have c1: "current_idx p1 = t" "THREAD_STATES p1 t = RUNNING" using assms(2,3) go(2) by simp_all
  have ok2: "threads_ok p2" using schedule_ok [OF assms(7) ok1] .
  have w: "WOKEN_STATES (thread_wake t p2) t" "threads_ok (thread_wake t p2)"
    using t by (simp add: thread_wake_def WAKEUP_LOCALITY_HINT_def Let_def) (rule quiet_ok [OF quiet_wake ok2])
  from assms(8) w(2) have "WOKEN_STATES p3 t \<and> current_idx p3 = t"
    by (cases rule: schedule_cases) (use w(1) in auto)
  then have p3: "WOKEN_STATES p3 t" "current_idx p3 = t" by auto
  let ?p = "mark_thread_waiting t (- 1) p3"
  have "threads_ok p3" using schedule_ok [OF assms(8) w(2)] .
  then have ok: "threads_ok ?p" using quiet_ok [OF other_step_quiet [OF o_wait]] p3(2) by metis
  have s: "THREAD_STATES ?p t = WAITING" "WAKE_TIMES ?p t = - 1" "WOKEN_STATES ?p t" "current_idx ?p = t"
    using t p3 by (simp_all add: mark_thread_waiting_def)
  have "\<not> due b'' ?p t" using s(2) assms(10) by (auto simp: due_def)
  then have wd: "THREAD_STATES (wake_due b'' ?p) t = WAITING" "WAKE_TIMES (wake_due b'' ?p) t = - 1"
    using s by (simp_all add: wake_due_eq)
  from assms(9) ok have "THREAD_STATES p4 t = WAITING \<and> WOKEN_STATES p4 t \<and> WAKE_TIMES p4 t = - 1 \<and> current_idx p4 \<noteq> t"
    by (cases rule: schedule_cases) (use s wd in auto)
  with go(1) show ?thesis by simp
qed

text \<open>From there the scheduler alone never runs the thread again before the end of time.\<close>

lemma lost_thread_stays_off:
  assumes "schedule_indices ratio v a b c p = (r, p')" "threads_ok p"
    and "THREAD_STATES p t = WAITING" "WAKE_TIMES p t = - 1" "current_idx p \<noteq> t" "b < - 1"
  shows "THREAD_STATES p' t = WAITING \<and> WAKE_TIMES p' t = - 1 \<and> current_idx p' \<noteq> t"
proof -
  have "\<not> due b p t" using assms(4,6) by (auto simp: due_def)
  then have w: "THREAD_STATES (wake_due b p) t = WAITING" "WAKE_TIMES (wake_due b p) t = - 1"
    using assms(3,4) by (simp_all add: wake_due_eq)
  from assms(1,2) show ?thesis
    by (cases rule: schedule_cases) (use assms(3-5) w in auto)
qed

end
