(* ===== verification/Sys_Call.thy ===== *)
theory Sys_Call
  imports Akuma_Prelude
begin

text \<open>
  What the system-call handlers of \<open>src/syscall\<close> share: the error numbers of \<open>mod.rs\<close> and the
  checked access to the memory of the calling process. User memory is a partial function from
  addresses to bytes; an address is in its domain when the page is resident or can be made so
  on demand and may be written. Copying is the byte loop of \<open>mmu/user_access.rs\<close>, which stops
  at the first fault and leaves what it had copied.
\<close>

section \<open>Error numbers\<close>

text \<open>The negated \<open>errno\<close> values a handler returns.\<close>

definition EPERM :: u64 where "EPERM = - 1"
definition ENOENT :: u64 where "ENOENT = - 2"
definition ESRCH :: u64 where "ESRCH = - 3"
definition EINTR :: u64 where "EINTR = - 4"
definition E2BIG :: u64 where "E2BIG = - 7"
definition EBADF :: u64 where "EBADF = - 9"
definition EAGAIN :: u64 where "EAGAIN = - 11"
definition ENOMEM :: u64 where "ENOMEM = - 12"
definition EFAULT :: u64 where "EFAULT = - 14"
definition EEXIST :: u64 where "EEXIST = - 17"
definition EINVAL :: u64 where "EINVAL = - 22"
definition EPIPE :: u64 where "EPIPE = - 32"
definition ENOSYS :: u64 where "ENOSYS = - 38"
definition ENOMSG :: u64 where "ENOMSG = - 42"
definition EAFNOSUPPORT :: u64 where "EAFNOSUPPORT = - 97"
definition ETIMEDOUT :: u64 where "ETIMEDOUT = - 110"

lemmas errno_defs = EPERM_def ENOENT_def ESRCH_def EINTR_def E2BIG_def EBADF_def EAGAIN_def
  ENOMEM_def EFAULT_def EEXIST_def EINVAL_def EPIPE_def ENOSYS_def ENOMSG_def
  EAFNOSUPPORT_def ETIMEDOUT_def

section \<open>User memory\<close>

type_synonym user_mem = "u64 \<Rightarrow> u8 option"

definition user_va_limit :: u64 where
  "user_va_limit = 0xFFFFFFFFFFFF"

definition validate_user_ptr :: "user_mem \<Rightarrow> u64 \<Rightarrow> nat \<Rightarrow> bool" where
  "validate_user_ptr m ptr len \<longleftrightarrow>
     0x1000 \<le> ptr \<and> unat ptr + len < 2 ^ 64 \<and> unat ptr + len \<le> unat user_va_limit
     \<and> (\<forall>i \<in> {0..<len}. m (ptr + of_nat i) \<noteq> None)"

fun copy_from_user_safe :: "user_mem \<Rightarrow> u64 \<Rightarrow> nat \<Rightarrow> bytes option" where
  "copy_from_user_safe m src 0 = Some []"
| "copy_from_user_safe m src (Suc n) =
     (case m src of None \<Rightarrow> None
      | Some b \<Rightarrow> map_option ((#) b) (copy_from_user_safe m (src + 1) n))"

fun copy_to_user_safe :: "u64 \<Rightarrow> bytes \<Rightarrow> user_mem \<Rightarrow> bool \<times> user_mem" where
  "copy_to_user_safe dst [] m = (True, m)"
| "copy_to_user_safe dst (b # bs) m =
     (case m dst of None \<Rightarrow> (False, m) | Some _ \<Rightarrow> copy_to_user_safe (dst + 1) bs (m(dst \<mapsto> b)))"

text \<open>Integers in memory, in the little-endian order of the machine (\<open>to_ne_bytes\<close>).\<close>

primrec to_ne_bytes :: "nat \<Rightarrow> 'a::len word \<Rightarrow> bytes" where
  "to_ne_bytes 0 w = []"
| "to_ne_bytes (Suc n) w = ucast w # to_ne_bytes n (drop_bit 8 w)"

primrec from_ne_bytes :: "bytes \<Rightarrow> 'a::len word" where
  "from_ne_bytes [] = 0"
| "from_ne_bytes (b # bs) = ucast b OR push_bit 8 (from_ne_bytes bs)"

section \<open>Facts\<close>

lemma length_to_ne_bytes [simp]: "length (to_ne_bytes n w) = n"
  by (induction n arbitrary: w) simp_all

lemma to_ne_bytes_cong:
  "take_bit k w = take_bit k v \<Longrightarrow> 8 * n \<le> k \<Longrightarrow> to_ne_bytes n w = to_ne_bytes n (v :: 'a::len word)"
proof (induction n arbitrary: k w v)
  case (Suc n)
  have bits: "i < k \<Longrightarrow> bit w i = bit v i" for i
    using arg_cong [OF Suc.prems(1), of "\<lambda>x. bit x i"] by (simp add: bit_take_bit_iff)
  have "ucast w = (ucast v :: u8)"
    using bits Suc.prems(2) by (intro bit_word_eqI) (auto simp: bit_ucast_iff)
  moreover have "take_bit (k - 8) (drop_bit 8 w) = take_bit (k - 8) (drop_bit 8 v)"
    using bits by (intro bit_word_eqI) (auto simp: bit_take_bit_iff bit_drop_bit_eq)
  ultimately show ?case using Suc by simp
qed simp

lemma from_to_ne_bytes: "from_ne_bytes (to_ne_bytes n w) = take_bit (8 * n) (w :: 'a::len word)"
proof (induction n arbitrary: w)
  case (Suc n)
  show ?case
  proof (rule bit_word_eqI)
    fix i assume "i < LENGTH('a)"
    then show "bit (from_ne_bytes (to_ne_bytes (Suc n) w) :: 'a word) i = bit (take_bit (8 * Suc n) w) i"
      by (auto simp: Suc.IH bit_or_iff bit_ucast_iff bit_push_bit_iff bit_take_bit_iff bit_drop_bit_eq
        dest: bit_imp_le_length)
  qed
qed simp

lemma ne_bytes_u64 [simp]: "from_ne_bytes (to_ne_bytes 8 w) = (w :: u64)"
  by (simp add: from_to_ne_bytes take_bit_word_eq_self)

lemma ne_bytes_u32 [simp]: "from_ne_bytes (to_ne_bytes 4 w) = (w :: u32)"
  by (simp add: from_to_ne_bytes take_bit_word_eq_self)

lemma ne_bytes_split:
  assumes "length bs = 8"
  shows "to_ne_bytes 8 (from_ne_bytes bs :: u64) = bs"
proof -
  have "to_ne_bytes (length bs) (from_ne_bytes bs :: u64) = bs" if "length bs \<le> 8" for bs
    using that
  proof (induction bs)
    case (Cons b bs)
    let ?w = "from_ne_bytes bs :: u64"
    have "ucast (ucast b OR push_bit 8 ?w) = b"
      by (rule bit_word_eqI) (auto simp: bit_ucast_iff bit_or_iff bit_push_bit_iff)
    moreover have "to_ne_bytes (length bs) (drop_bit 8 (ucast b OR push_bit 8 ?w)) = to_ne_bytes (length bs) ?w"
    proof -
      have eq: "take_bit 56 (drop_bit 8 (ucast b OR push_bit 8 ?w)) = take_bit 56 ?w"
        by (rule bit_word_eqI)
          (auto simp: bit_take_bit_iff bit_drop_bit_eq bit_or_iff bit_push_bit_iff bit_ucast_iff dest: bit_imp_le_length)
      show ?thesis using Cons.prems by (intro to_ne_bytes_cong [OF eq]) simp
    qed
    ultimately show ?case using Cons by simp
  qed simp
  from this [of bs] assms show ?thesis by simp
qed

text \<open>Copying to a mapped range succeeds and reads back; other addresses keep their bytes.\<close>

lemma copy_to_user_mapped:
  "(\<forall>i < length bs. m (dst + of_nat i) \<noteq> None) \<Longrightarrow> fst (copy_to_user_safe dst bs m)"
proof (induction bs arbitrary: dst m)
  case (Cons b bs)
  from Cons.prems obtain y where y: "m dst = Some y" by force
  have "(m(dst \<mapsto> b)) (dst + 1 + of_nat i) \<noteq> None" if "i < length bs" for i
    using Cons.prems [rule_format, of "Suc i"] that by (simp add: add.assoc)
  then have "fst (copy_to_user_safe (dst + 1) bs (m(dst \<mapsto> b)))" by (blast intro: Cons.IH)
  with y show ?case by (simp del: fun_upd_apply)
qed simp

lemma copy_to_user_outside:
  "(\<forall>i < length bs. a \<noteq> dst + of_nat i) \<Longrightarrow> snd (copy_to_user_safe dst bs m) a = m a"
proof (induction bs arbitrary: dst m)
  case (Cons b bs)
  have "a \<noteq> dst" using Cons.prems [rule_format, of 0] by simp
  moreover have "a \<noteq> dst + 1 + of_nat i" if "i < length bs" for i
    using Cons.prems [rule_format, of "Suc i"] that by (simp add: add.assoc)
  then have "snd (copy_to_user_safe (dst + 1) bs (m(dst \<mapsto> b))) a = (m(dst \<mapsto> b)) a"
    by (blast intro: Cons.IH)
  ultimately show ?case by (cases "m dst") (simp_all del: fun_upd_apply, simp)
qed simp

lemma copy_to_from_user:
  assumes "fst (copy_to_user_safe dst bs m)" "length bs < 2 ^ 64"
  shows "copy_from_user_safe (snd (copy_to_user_safe dst bs m)) dst (length bs) = Some bs"
  using assms
proof (induction bs arbitrary: dst m)
  case (Cons b bs)
  from Cons.prems(1) obtain y where y: "m dst = Some y" by (cases "m dst") auto
  let ?m = "snd (copy_to_user_safe (dst + 1) bs (m(dst \<mapsto> b)))"
  have "dst \<noteq> dst + 1 + of_nat i" if "i < length bs" for i
  proof
    assume "dst = dst + 1 + of_nat i"
    then have "of_nat (Suc i) = (0 :: u64)" by (simp add: add.assoc)
    moreover have "Suc i < 2 ^ 64" using that Cons.prems(2) by simp
    ultimately show False using unat_of_nat_small [where 'a = 64, of "Suc i"] by simp
  qed
  then have "?m dst = Some b" using copy_to_user_outside [of bs dst "dst + 1" "m(dst \<mapsto> b)"] by simp
  moreover have "copy_from_user_safe ?m (dst + 1) (length bs) = Some bs"
    using Cons.prems y by (intro Cons.IH) (simp_all del: fun_upd_apply)
  ultimately show ?case using y by (simp del: fun_upd_apply)
qed simp

lemma copy_from_user_length: "copy_from_user_safe m src n = Some bs \<Longrightarrow> length bs = n"
  by (induction m src n arbitrary: bs rule: copy_from_user_safe.induct) (auto split: option.splits)

lemma validated_copy_to_user:
  assumes "validate_user_ptr m ptr n" "length bs = n"
  shows "fst (copy_to_user_safe ptr bs m)"
    and "copy_from_user_safe (snd (copy_to_user_safe ptr bs m)) ptr n = Some bs"
proof -
  show ok: "fst (copy_to_user_safe ptr bs m)"
    using assms by (intro copy_to_user_mapped) (auto simp: validate_user_ptr_def)
  show "copy_from_user_safe (snd (copy_to_user_safe ptr bs m)) ptr n = Some bs"
    using copy_to_from_user [OF ok] assms by (auto simp: validate_user_ptr_def)
qed

lemma copy_from_user_mapped:
  "(\<forall>i < n. m (src + of_nat i) \<noteq> None) \<Longrightarrow> \<exists>bs. copy_from_user_safe m src n = Some bs"
proof (induction n arbitrary: src)
  case (Suc n)
  from Suc.prems obtain b where "m src = Some b" by force
  moreover have "m (src + 1 + of_nat i) \<noteq> None" if "i < n" for i
    using Suc.prems [rule_format, of "Suc i"] that by (simp add: add.assoc)
  then obtain bs where "copy_from_user_safe m (src + 1) n = Some bs" using Suc.IH by blast
  ultimately show ?case by simp
qed simp

lemma validated_copy_from_user:
  "validate_user_ptr m ptr n \<Longrightarrow> \<exists>bs. copy_from_user_safe m ptr n = Some bs"
  by (rule copy_from_user_mapped) (simp add: validate_user_ptr_def)

lemma copy_from_user_append:
  "copy_from_user_safe m src (a + b) =
     (case copy_from_user_safe m src a of None \<Rightarrow> None
      | Some xs \<Rightarrow> map_option ((@) xs) (copy_from_user_safe m (src + of_nat a) b))"
proof (induction m src a rule: copy_from_user_safe.induct)
  case (2 m src n)
  then show ?case by (auto simp: algebra_simps option.map_comp comp_def split: option.splits
      intro!: option.map_cong)
next
  case (1 m src)
  show ?case by (cases "copy_from_user_safe m src b") auto
qed

lemma copy_to_user_append:
  "copy_to_user_safe dst (xs @ ys) m =
     (case copy_to_user_safe dst xs m of
        (ok, m1) \<Rightarrow> if ok then copy_to_user_safe (dst + of_nat (length xs)) ys m1 else (False, m1))"
proof (induction dst xs m rule: copy_to_user_safe.induct)
  case (2 dst b bs m)
  show ?case
  proof (cases "m dst")
    case (Some y)
    from "2.IH" [OF Some] Some show ?thesis
      by (simp add: add.assoc case_prod_beta del: fun_upd_apply)
  qed simp
qed simp

section \<open>A small address space\<close>

text \<open>One zeroed page, for examples.\<close>

definition one_page :: user_mem where
  "one_page = (\<lambda>a. if 0x2000 \<le> unat a \<and> unat a < 0x3000 then Some 0 else None)"

lemma one_page_valid:
  assumes "0x2000 \<le> k" "k + n \<le> 0x3000"
  shows "validate_user_ptr one_page (of_nat k) n"
proof -
  have k: "unat (of_nat k :: u64) = k" using assms by (intro unat_of_nat_small) simp
  have "one_page (of_nat k + of_nat i) \<noteq> None" if "i < n" for i
  proof -
    have "of_nat k + of_nat i = (of_nat (k + i) :: u64)" by simp
    moreover have "unat (of_nat (k + i) :: u64) = k + i" using assms that by (intro unat_of_nat_small) simp
    ultimately have "unat (of_nat k + of_nat i :: u64) = k + i" by metis
    with assms that show ?thesis by (simp add: one_page_def)
  qed
  moreover have "(0x1000 :: u64) \<le> of_nat k" unfolding word_le_nat_alt k using assms by simp
  ultimately show ?thesis using assms k by (simp add: validate_user_ptr_def user_va_limit_def)
qed

end
