(* ===== verification/Sig_Syscall.thy ===== *)
theory Sig_Syscall
  imports Thr_Sched Sys_Call
begin

text \<open>
  The signal system calls of \<open>src/syscall/signal.rs\<close> over the per-thread signal state of
  \<open>Thr_Sched\<close>: actions, masks, alternate stacks, waiting for signals and sending them. Handlers
  that need the calling process take its action table as an option (\<open>None\<close>: no process). A
  handler that waits is split into what it does before its loop and one round of the loop,
  which returns \<open>None\<close> when it goes on to sleep.
\<close>

section \<open>Actions\<close>

definition MAX_SIGNALS :: nat where
  "MAX_SIGNALS = 64"

datatype signal_handler = Default | Ignore | UserFn u64

record signal_action =
  handler :: signal_handler
  sig_flags :: u64
  sig_mask :: u64
  restorer :: u64

definition SignalAction_default :: signal_action where
  "SignalAction_default = \<lparr>handler = Default, sig_flags = 0, sig_mask = 0, restorer = 0\<rparr>"

type_synonym signal_table = "nat \<Rightarrow> signal_action"

definition SharedSignalTable_new :: signal_table where
  "SharedSignalTable_new = (\<lambda>_. SignalAction_default)"

record kernel_sigaction =
  sa_handler :: u64
  sa_flags :: u64
  sa_restorer :: u64
  sa_mask :: u64

definition SIG_DFL :: u64 where "SIG_DFL = 0"
definition SIG_IGN :: u64 where "SIG_IGN = 1"

text \<open>The 32 bytes of the structure in user memory.\<close>

definition sigaction_bytes :: "kernel_sigaction \<Rightarrow> bytes" where
  "sigaction_bytes sa =
     to_ne_bytes 8 (sa_handler sa) @ to_ne_bytes 8 (sa_flags sa)
     @ to_ne_bytes 8 (sa_restorer sa) @ to_ne_bytes 8 (sa_mask sa)"

definition bytes_sigaction :: "bytes \<Rightarrow> kernel_sigaction" where
  "bytes_sigaction bs =
     \<lparr>sa_handler = from_ne_bytes (take 8 bs), sa_flags = from_ne_bytes (take 8 (drop 8 bs)),
      sa_restorer = from_ne_bytes (take 8 (drop 16 bs)), sa_mask = from_ne_bytes (take 8 (drop 24 bs))\<rparr>"

definition sigaction_out :: "bool \<Rightarrow> signal_action \<Rightarrow> kernel_sigaction" where
  "sigaction_out sigset_ok old =
     \<lparr>sa_handler = (case handler old of Default \<Rightarrow> SIG_DFL | Ignore \<Rightarrow> SIG_IGN | UserFn addr \<Rightarrow> addr),
      sa_flags = sig_flags old, sa_restorer = restorer old,
      sa_mask = (if sigset_ok then sig_mask old else 0)\<rparr>"

definition sigaction_in :: "bool \<Rightarrow> kernel_sigaction \<Rightarrow> signal_action" where
  "sigaction_in sigset_ok sa =
     \<lparr>handler = (if sa_handler sa = SIG_DFL then Default
                 else if sa_handler sa = SIG_IGN then Ignore else UserFn (sa_handler sa)),
      sig_flags = sa_flags sa, sig_mask = (if sigset_ok then sa_mask sa else 0),
      restorer = sa_restorer sa\<rparr>"

definition sys_rt_sigaction ::
    "nat \<Rightarrow> u64 \<Rightarrow> u64 \<Rightarrow> nat \<Rightarrow> user_mem \<Rightarrow> signal_table option
     \<Rightarrow> u64 \<times> user_mem \<times> signal_table option" where
  "sys_rt_sigaction sig act_ptr oldact_ptr sigsetsize m proc =
     (if sig = 0 \<or> MAX_SIGNALS < sig then (EINVAL, m, proc)
      else if sig = 9 \<or> sig = 19 then (EINVAL, m, proc)
      else case proc of None \<Rightarrow> (ENOSYS, m, None)
      | Some actions \<Rightarrow>
          let sigset_ok = (sigsetsize = 8);
              (ok, m1) =
                (if oldact_ptr \<noteq> 0 \<and> validate_user_ptr m oldact_ptr 32
                 then copy_to_user_safe oldact_ptr (sigaction_bytes (sigaction_out sigset_ok (actions (sig - 1)))) m
                 else (True, m))
          in if \<not> ok then (EFAULT, m1, proc)
             else if act_ptr \<noteq> 0 \<and> validate_user_ptr m1 act_ptr 32
             then (case copy_from_user_safe m1 act_ptr 32 of
                     None \<Rightarrow> (EFAULT, m1, proc)
                   | Some bs \<Rightarrow>
                       (0, m1, Some (actions(sig - 1 := sigaction_in sigset_ok (bytes_sigaction bs)))))
             else (0, m1, proc))"

text \<open>The signals whose default action ends the process.\<close>

definition signal_is_fatal_default :: "nat \<Rightarrow> bool" where
  "signal_is_fatal_default sig \<longleftrightarrow>
     sig \<in> {1, 2, 3, 4, 5, 6, 7, 8, 9, 11, 13, 14, 15, 24, 25, 26, 27, 31}"

section \<open>Masks\<close>

definition SIG_BLOCK :: u32 where "SIG_BLOCK = 0"
definition SIG_UNBLOCK :: u32 where "SIG_UNBLOCK = 1"
definition SIG_SETMASK :: u32 where "SIG_SETMASK = 2"

definition updated_mask :: "u32 \<Rightarrow> u64 \<Rightarrow> u64 \<Rightarrow> u64 option" where
  "updated_mask how cur new_mask =
     (if how = SIG_BLOCK then Some (cur OR (new_mask AND NOT unblockable))
      else if how = SIG_UNBLOCK then Some (cur AND NOT new_mask)
      else if how = SIG_SETMASK then Some (new_mask AND NOT unblockable)
      else None)"

definition sys_rt_sigprocmask ::
    "u32 \<Rightarrow> u64 \<Rightarrow> u64 \<Rightarrow> nat \<Rightarrow> user_mem \<Rightarrow> threads \<Rightarrow> u64 \<times> user_mem \<times> threads" where
  "sys_rt_sigprocmask how set_ptr oldset_ptr sigsetsize m t =
     (if sigsetsize \<noteq> 8 then (EINVAL, m, t)
      else let cur = thread_signal_mask t;
               (ok, m1) =
                 (if oldset_ptr = 0 then (True, m)
                  else if \<not> validate_user_ptr m oldset_ptr 8 then (False, m)
                  else copy_to_user_safe oldset_ptr (to_ne_bytes 8 cur) m)
           in if \<not> ok then (EFAULT, m1, t)
              else if set_ptr = 0 then (0, m1, t)
              else if \<not> validate_user_ptr m1 set_ptr 8 then (EFAULT, m1, t)
              else case copy_from_user_safe m1 set_ptr 8 of None \<Rightarrow> (EFAULT, m1, t)
                   | Some bs \<Rightarrow>
                       (case updated_mask how cur (from_ne_bytes bs) of None \<Rightarrow> (EINVAL, m1, t)
                        | Some updated \<Rightarrow> (0, m1, set_thread_signal_mask updated t)))"

definition thread_signal_mask_of :: "threads \<Rightarrow> nat \<Rightarrow> u64" where
  "thread_signal_mask_of t tid = (if tid < MAX_THREADS then THREAD_SIGNAL_MASK t tid else 0)"

definition pending_signals_raw :: "threads \<Rightarrow> nat \<Rightarrow> u64" where
  "pending_signals_raw t slot = (if slot < MAX_THREADS then PENDING_SIGNALS t slot else 0)"

section \<open>Waiting for a signal\<close>

text \<open>\<open>rt_sigsuspend\<close> up to its loop: an error, or the mask it waits under.\<close>

definition sigsuspend_enter :: "u64 \<Rightarrow> nat \<Rightarrow> user_mem \<Rightarrow> threads \<Rightarrow> (u64 + u64) \<times> threads" where
  "sigsuspend_enter mask_ptr sigsetsize m t =
     (if sigsetsize \<noteq> 8 then (Inl EINVAL, t)
      else if \<not> validate_user_ptr m mask_ptr 8 then (Inl EFAULT, t)
      else case copy_from_user_safe m mask_ptr 8 of None \<Rightarrow> (Inl EFAULT, t)
           | Some bs \<Rightarrow>
               let suspend_mask = from_ne_bytes bs AND NOT unblockable;
                   saved_mask = thread_signal_mask t
               in (Inr suspend_mask, set_thread_signal_mask suspend_mask (set_restore_sigmask saved_mask t)))"

definition sigsuspend_round :: "bool \<Rightarrow> u64 \<Rightarrow> threads \<Rightarrow> u64 option \<times> threads" where
  "sigsuspend_round interrupted suspend_mask t =
     (if pending_signals_raw t (current_idx t) AND (NOT suspend_mask OR unblockable) \<noteq> 0
      then (Some EINTR, t)
      else if interrupted
      then (Some EINTR,
            case take_restore_sigmask t of
              (Some saved, t1) \<Rightarrow> set_thread_signal_mask saved t1
            | (None, t1) \<Rightarrow> t1)
      else (None, t))"

text \<open>\<open>rt_sigtimedwait\<close>: the set of signals and the time limit, then one round at time \<open>now\<close>.\<close>

definition timespec_us :: "bytes \<Rightarrow> u64" where
  "timespec_us bs = from_ne_bytes (take 8 bs) * 1000000 + from_ne_bytes (take 8 (drop 8 bs)) div 1000"

definition sigtimedwait_enter ::
    "u64 \<Rightarrow> u64 \<Rightarrow> nat \<Rightarrow> user_mem \<Rightarrow> signal_table option \<Rightarrow> u64 + (u64 \<times> u64 option)" where
  "sigtimedwait_enter set_ptr timeout_ptr sigsetsize m proc =
     (if sigsetsize \<noteq> 8 then Inl EINVAL
      else if proc = None then Inl ENOSYS
      else if \<not> validate_user_ptr m set_ptr 8 then Inl EFAULT
      else case copy_from_user_safe m set_ptr 8 of None \<Rightarrow> Inl EFAULT
           | Some bs \<Rightarrow>
               if timeout_ptr = 0 then Inr (from_ne_bytes bs, None)
               else if \<not> validate_user_ptr m timeout_ptr 16 then Inl EFAULT
               else case copy_from_user_safe m timeout_ptr 16 of None \<Rightarrow> Inl EFAULT
                    | Some ts \<Rightarrow> Inr (from_ne_bytes bs, Some (timespec_us ts)))"

definition siginfo_bytes :: "nat \<Rightarrow> bytes" where
  "siginfo_bytes sig = to_ne_bytes 4 (of_nat sig :: u32) @ replicate 124 0"

definition sigtimedwait_round ::
    "bool \<Rightarrow> u64 \<Rightarrow> u64 \<Rightarrow> u64 \<Rightarrow> u64 \<Rightarrow> u64 option \<Rightarrow> user_mem \<Rightarrow> threads
     \<Rightarrow> u64 option \<times> user_mem \<times> threads" where
  "sigtimedwait_round interrupted now start_time info_ptr wait_mask timeout m t =
     (case take_pending_signal (NOT wait_mask) t of
        (Some sig, t1) \<Rightarrow>
          (Some (of_nat sig),
           if info_ptr \<noteq> 0 \<and> validate_user_ptr m info_ptr 128
           then snd (copy_to_user_safe info_ptr (siginfo_bytes sig) m) else m, t1)
      | (None, t1) \<Rightarrow>
          ((case timeout of
              Some limit \<Rightarrow>
                if limit \<le> sat_sub now start_time then Some EAGAIN
                else if interrupted then Some EINTR else None
            | None \<Rightarrow> if interrupted then Some EINTR else None), m, t1))"

section \<open>The alternate stack\<close>

definition SS_DISABLE :: u32 where "SS_DISABLE = 2"

definition stack_bytes :: "u64 \<times> u64 \<times> u32 \<Rightarrow> bytes" where
  "stack_bytes st =
     (case st of (sp, sz, flags) \<Rightarrow> to_ne_bytes 8 sp @ to_ne_bytes 4 flags @ [0, 0, 0, 0] @ to_ne_bytes 8 sz)"

definition sys_sigaltstack ::
    "u64 \<Rightarrow> u64 \<Rightarrow> user_mem \<Rightarrow> threads \<Rightarrow> u64 \<times> user_mem \<times> threads" where
  "sys_sigaltstack ss_ptr old_ss_ptr m t =
     (let slot = current_idx t;
          (ok, m1) =
            (if old_ss_ptr = 0 then (True, m)
             else if \<not> validate_user_ptr m old_ss_ptr 24 then (False, m)
             else copy_to_user_safe old_ss_ptr (stack_bytes (get_sigaltstack t slot)) m)
      in if \<not> ok then (EFAULT, m1, t)
         else if ss_ptr = 0 then (0, m1, t)
         else if \<not> validate_user_ptr m1 ss_ptr 24 then (EFAULT, m1, t)
         else case copy_from_user_safe m1 ss_ptr 24 of None \<Rightarrow> (EFAULT, m1, t)
              | Some bs \<Rightarrow>
                  let sp = from_ne_bytes (take 8 bs); flags = from_ne_bytes (take 4 (drop 8 bs));
                      sz = from_ne_bytes (take 8 (drop 16 bs))
                  in if flags AND SS_DISABLE \<noteq> 0
                     then (0, m1, set_sigaltstack slot 0 0 SS_DISABLE t)
                     else if sz < 2048 then (ENOMEM, m1, t)
                     else (0, m1, set_sigaltstack slot sp sz flags t))"

section \<open>Sending a signal\<close>

text \<open>
  \<open>tkill\<close> either returns or calls \<open>sys_exit_group\<close>, which ends the calling thread group. The
  handler is the one the target thread's process has installed, \<open>Default\<close> when the thread
  belongs to no process.
\<close>

datatype tkill_result = Returns u64 | ExitGroup int

definition sys_tkill :: "(nat \<Rightarrow> signal_table option) \<Rightarrow> nat \<Rightarrow> nat \<Rightarrow> threads \<Rightarrow> tkill_result \<times> threads" where
  "sys_tkill table_of tid sig t =
     (if sig = 0 then (Returns 0, t)
      else if MAX_SIGNALS < sig then (Returns EINVAL, t)
      else
        let target_mask = thread_signal_mask_of t tid;
            target_handler = (case table_of tid of Some actions \<Rightarrow> handler (actions (sig - 1)) | None \<Rightarrow> Default)
        in if sig = 9 then (ExitGroup (- int sig), t)
           else case target_handler of
             Ignore \<Rightarrow> (Returns 0, t)
           | Default \<Rightarrow>
               let blocked = (target_mask AND push_bit (sig - 1) 1 \<noteq> 0)
               in if signal_is_fatal_default sig \<and> \<not> blocked then (ExitGroup (- int sig), t)
                  else if signal_is_fatal_default sig \<and> blocked
                  then (Returns 0, pend_signal_for_thread tid sig t)
                  else (Returns 0, t)
           | UserFn _ \<Rightarrow> (Returns 0, pend_signal_for_thread tid sig t))"

definition sys_tgkill ::
    "(nat \<Rightarrow> u32 option) \<Rightarrow> (nat \<Rightarrow> signal_table option) \<Rightarrow> u32 \<Rightarrow> nat \<Rightarrow> nat \<Rightarrow> threads
     \<Rightarrow> tkill_result \<times> threads" where
  "sys_tgkill tgid_of table_of tgid tid sig t =
     (if (case tgid_of tid of Some g \<Rightarrow> g \<noteq> tgid | None \<Rightarrow> False) then (Returns ESRCH, t)
      else sys_tkill table_of tid sig t)"

definition send_sigpipe :: "(nat \<Rightarrow> signal_table option) \<Rightarrow> threads \<Rightarrow> tkill_result \<times> threads" where
  "send_sigpipe table_of t = sys_tkill table_of (current_idx t) 13 t"

section \<open>Facts on signals\<close>

lemma length_sigaction_bytes [simp]: "length (sigaction_bytes sa) = 32"
  by (simp add: sigaction_bytes_def)

lemma bytes_sigaction_roundtrip [simp]: "bytes_sigaction (sigaction_bytes sa) = sa"
  by (simp add: bytes_sigaction_def sigaction_bytes_def)

lemma sigaction_bytes_roundtrip:
  assumes "length bs = 32"
  shows "sigaction_bytes (bytes_sigaction bs) = bs"
proof -
  have "bs = take 8 bs @ take 8 (drop 8 bs) @ take 8 (drop 16 bs) @ take 8 (drop 24 bs)"
    using assms append_take_drop_id [of 8 bs] append_take_drop_id [of 8 "drop 8 bs"]
      append_take_drop_id [of 8 "drop 16 bs"] by simp
  with assms show ?thesis by (simp add: sigaction_bytes_def bytes_sigaction_def ne_bytes_split)
qed

lemma sigaction_out_in [simp]: "sigaction_out True (sigaction_in True sa) = sa"
  by (auto simp: sigaction_out_def sigaction_in_def SIG_DFL_def SIG_IGN_def)

text \<open>No mask ever blocks SIGKILL or SIGSTOP.\<close>

definition masks_ok :: "threads \<Rightarrow> bool" where
  "masks_ok t \<longleftrightarrow> (\<forall>tid. THREAD_SIGNAL_MASK t tid AND unblockable = 0)"

lemma mask_and_unblockable [simp]:
  "(x AND NOT unblockable) AND unblockable = 0" "y AND unblockable = 0 \<Longrightarrow> (x AND y) AND unblockable = 0"
  "y AND unblockable = 0 \<Longrightarrow> y AND NOT unblockable = y"
  "y AND unblockable = 0 \<Longrightarrow> z AND unblockable = 0 \<Longrightarrow> (y OR z) AND unblockable = 0"
  by (auto simp: bit_eq_iff bit_simps)

lemma masks_ok_set [wf_intros]: "masks_ok t \<Longrightarrow> masks_ok (set_thread_signal_mask new t)"
  by (simp add: masks_ok_def set_thread_signal_mask_def)

lemma masks_ok_or [wf_intros]: "masks_ok t \<Longrightarrow> masks_ok (snd (or_thread_signal_mask bits t))"
  by (simp add: masks_ok_def or_thread_signal_mask_def Let_def)

lemma masks_ok_seed [wf_intros]:
  "masks_ok t \<Longrightarrow> new AND unblockable = 0 \<Longrightarrow> masks_ok (seed_thread_signal_mask tid new t)"
  by (simp add: masks_ok_def seed_thread_signal_mask_def)

lemma masks_ok_sigprocmask [wf_intros]:
  "masks_ok t \<Longrightarrow> masks_ok (snd (snd (sys_rt_sigprocmask how set_ptr oldset_ptr n m t)))"
  by (auto simp: sys_rt_sigprocmask_def Let_def case_prod_beta split: option.splits intro: wf_intros)

section \<open>Properties\<close>

text \<open>
  an action installed with \<open>sigaction\<close> is reported back byte for byte by a later query,
  and the query changes nothing else.
\<close>

theorem sigaction_roundtrip:
  assumes "1 \<le> sig" "sig \<le> MAX_SIGNALS" "sig \<noteq> 9" "sig \<noteq> 19"
    and act: "act_ptr \<noteq> 0" "validate_user_ptr m act_ptr 32" "copy_from_user_safe m act_ptr 32 = Some bs"
    and old: "old_ptr \<noteq> 0" "validate_user_ptr m' old_ptr 32"
    and set: "sys_rt_sigaction sig act_ptr 0 8 m (Some actions) = (r, m', proc)"
    and get: "sys_rt_sigaction sig 0 old_ptr 8 m' proc = (r', m'', proc')"
  shows "r = 0 \<and> r' = 0 \<and> m' = m \<and> proc' = proc \<and> copy_from_user_safe m'' old_ptr 32 = Some bs
    \<and> (\<exists>new. proc = Some (actions(sig - 1 := new)))"
proof -
  have len: "length bs = 32" by (rule copy_from_user_length [OF act(3)])
  let ?new = "actions(sig - 1 := sigaction_in True (bytes_sigaction bs))"
  from set assms(1-4) act have s: "r = 0" "m' = m" "proc = Some ?new"
    by (auto simp: sys_rt_sigaction_def)
  note out = validated_copy_to_user [OF old(2), of bs, OF len]
  from get assms(1-4) old(1,2) s out(1) have "r' = 0 \<and> proc' = proc \<and> m'' = snd (copy_to_user_safe old_ptr bs m')"
    by (auto simp: sys_rt_sigaction_def sigaction_bytes_roundtrip [OF len] Let_def case_prod_beta)
  with s out(2) show ?thesis by auto
qed

theorem sigaction_roundtrip_witness:
  "\<exists>r m' proc r' m'' proc'.
     sys_rt_sigaction 10 0x2000 0 8 one_page (Some SharedSignalTable_new) = (r, m', proc)
     \<and> sys_rt_sigaction 10 0 0x2040 8 m' proc = (r', m'', proc')
     \<and> r = 0 \<and> r' = 0 \<and> copy_from_user_safe m'' 0x2040 32 = copy_from_user_safe one_page 0x2000 32"
proof -
  have valid: "validate_user_ptr one_page 0x2000 32" "validate_user_ptr one_page 0x2040 32"
    using one_page_valid [of "0x2000" 32] one_page_valid [of "0x2040" 32] by simp_all
  obtain bs where bs: "copy_from_user_safe one_page 0x2000 32 = Some bs"
    using validated_copy_from_user [OF valid(1)] by blast
  obtain r m' proc where set: "sys_rt_sigaction 10 0x2000 0 8 one_page (Some SharedSignalTable_new) = (r, m', proc)"
    by (metis prod_cases3)
  then have m': "m' = one_page" using valid bs by (auto simp: sys_rt_sigaction_def MAX_SIGNALS_def)
  obtain r' m'' proc' where get: "sys_rt_sigaction 10 0 0x2040 8 m' proc = (r', m'', proc')"
    by (metis prod_cases3)
  have "validate_user_ptr m' 0x2040 32" using m' valid by simp
  from sigaction_roundtrip [OF _ _ _ _ _ valid(1) bs _ this set get] set get bs
  show ?thesis by (simp add: MAX_SIGNALS_def)
qed

text \<open>
  C22: \<open>rt_sigsuspend\<close> returns only with EINTR, when a signal its mask lets through is pending or
  the thread was interrupted. In the first case the caller's mask is stashed for the handler's
  return to restore, in the second it is back in force.
\<close>

theorem sigsuspend_restores_mask:
  assumes "masks_ok t" "current_idx t < MAX_THREADS"
    and "sigsuspend_enter mask_ptr n m t = (Inr suspend_mask, t1)"
    and "current_idx t2 = current_idx t1"
    and "THREAD_SIGNAL_MASK t2 (current_idx t1) = THREAD_SIGNAL_MASK t1 (current_idx t1)"
    and "THREAD_RESTORE_SIGMASK t2 (current_idx t1) = THREAD_RESTORE_SIGMASK t1 (current_idx t1)"
    and "THREAD_RESTORE_SIGMASK_PENDING t2 (current_idx t1) = THREAD_RESTORE_SIGMASK_PENDING t1 (current_idx t1)"
    and "sigsuspend_round interrupted suspend_mask t2 = (Some r, t3)"
  shows "r = EINTR \<and> thread_signal_mask t1 = suspend_mask \<and>
    (if deliverable_set suspend_mask t2 (current_idx t2) \<noteq> {}
     then t3 = t2 \<and> fst (take_restore_sigmask t3) = Some (thread_signal_mask t)
     else interrupted \<and> thread_signal_mask t3 = thread_signal_mask t \<and> fst (take_restore_sigmask t3) = None)"
proof -
  let ?c = "current_idx t"
  from assms(3) obtain bs where t1: "suspend_mask = from_ne_bytes bs AND NOT unblockable"
    "t1 = set_thread_signal_mask suspend_mask (set_restore_sigmask (thread_signal_mask t) t)"
    by (auto simp: sigsuspend_enter_def Let_def split: if_splits option.splits)
  have c: "current_idx t1 = ?c" "current_idx t2 = ?c"
    using t1 assms(4) by (auto simp: set_thread_signal_mask_def set_restore_sigmask_def)
  have saved: "thread_signal_mask t AND unblockable = 0" using assms(1) by (simp add: thread_signal_mask_def masks_ok_def)
  have own: "THREAD_SIGNAL_MASK t2 ?c = suspend_mask" "THREAD_RESTORE_SIGMASK t2 ?c = thread_signal_mask t"
    "THREAD_RESTORE_SIGMASK_PENDING t2 ?c" "thread_signal_mask t1 = suspend_mask"
    using assms(2,5-7) t1 c by (auto simp: set_thread_signal_mask_def set_restore_sigmask_def thread_signal_mask_def)
  have pend: "pending_signals_raw t2 ?c AND (NOT suspend_mask OR unblockable) = 0
      \<longleftrightarrow> deliverable_set suspend_mask t2 ?c = {}"
    using assms(2) by (simp add: pending_signals_raw_def deliverable_empty)
  show ?thesis
  proof (cases "deliverable_set suspend_mask t2 ?c = {}")
    case False
    with assms(8) pend c have "r = EINTR" "t3 = t2" by (auto simp: sigsuspend_round_def)
    with False own c assms(2) show ?thesis by (simp add: take_restore_sigmask_def)
  next
    case True
    with assms(8) pend c own assms(2)
    have "r = EINTR" "interrupted"
      "t3 = set_thread_signal_mask (thread_signal_mask t)
         (t2\<lparr>THREAD_RESTORE_SIGMASK_PENDING := (THREAD_RESTORE_SIGMASK_PENDING t2)(?c := False)\<rparr>)"
      by (auto simp: sigsuspend_round_def take_restore_sigmask_def Let_def split: if_splits)
    with True own c assms(2) saved show ?thesis
      by (simp add: take_restore_sigmask_def set_thread_signal_mask_def thread_signal_mask_def Let_def)
  qed
qed

theorem sigsuspend_restores_mask_witness:
  "\<exists>sm t1 t3. sigsuspend_enter 0x2000 8 one_page threads_new = (Inr sm, t1)
    \<and> sigsuspend_round True sm t1 = (Some EINTR, t3) \<and> thread_signal_mask t3 = thread_signal_mask threads_new"
proof -
  let ?t = "threads_new"
  have valid: "validate_user_ptr one_page 0x2000 8" using one_page_valid [of "0x2000" 8] by simp
  then obtain bs where "copy_from_user_safe one_page 0x2000 8 = Some bs"
    using validated_copy_from_user by blast
  with valid obtain sm t1 where t1: "sigsuspend_enter 0x2000 8 one_page ?t = (Inr sm, t1)"
    by (simp add: sigsuspend_enter_def Let_def)
  have ok: "masks_ok ?t" "current_idx ?t < MAX_THREADS" by (simp_all add: masks_ok_def threads_new_def MAX_THREADS_def)
  have none: "deliverable_set sm t1 (current_idx t1) = {}"
    using t1 by (auto simp: deliverable_set_def pending_set_def sigsuspend_enter_def set_thread_signal_mask_def
      set_restore_sigmask_def threads_new_def Let_def split: if_splits option.splits)
  have "fst (sigsuspend_round True sm t1) = Some EINTR" by (simp add: sigsuspend_round_def)
  then obtain r t3 where r: "sigsuspend_round True sm t1 = (Some r, t3)"
    by (cases "sigsuspend_round True sm t1") auto
  from sigsuspend_restores_mask [OF ok t1 refl refl refl refl r] none t1 r show ?thesis by auto
qed

text \<open>
  \<open>rt_sigtimedwait\<close> hands a pending SIGKILL to its caller as if it had been waited for, whatever
  the set: the forced bits of \<open>take_pending_signal\<close> apply to the wait as they do to delivery.
\<close>

lemma sigtimedwait_takes_sigkill:
  assumes "current_idx t < MAX_THREADS" "pending_set t (current_idx t) = {9}"
    and "sigtimedwait_round interrupted now start 0 wait_mask limit m t = (r, m', t')"
  shows "r = Some 9 \<and> pending_set t' (current_idx t) = {}"
proof -
  obtain x t1 where x: "take_pending_signal (NOT wait_mask) t = (x, t1)" by fastforce
  have d: "deliverable_set (NOT wait_mask) t (current_idx t) = {9}"
    using assms(2) by (auto simp: deliverable_set_def)
  from take_pending_signal_spec [OF x assms(1)] d have "x = Some 9" "pending_set t1 (current_idx t) = {}"
    using assms(2) by (auto split: option.splits)
  with assms(3) x show ?thesis by (simp add: sigtimedwait_round_def)
qed

text \<open>SIGKILL sent to any thread ends the sender's own thread group, and leaves the target untouched.\<close>

lemma tkill_ends_sender: "sys_tkill table_of tid 9 t = (ExitGroup (- 9), t)"
  by (simp add: sys_tkill_def MAX_SIGNALS_def)

text \<open>A handled signal is recorded on the target, which is woken when it was waiting.\<close>

lemma tkill_pends:
  assumes "1 \<le> sig" "sig \<le> MAX_SIGNALS" "sig \<noteq> 9" "tid < MAX_THREADS"
    and "table_of tid = Some actions" "handler (actions (sig - 1)) = UserFn f"
    and "sys_tkill table_of tid sig t = (r, t')"
  shows "r = Returns 0 \<and> pending_set t' tid = insert sig (pending_set t tid)
    \<and> (THREAD_STATES t tid = WAITING \<longrightarrow> THREAD_STATES t' tid = READY)"
proof -
  have "r = Returns 0" "t' = pend_signal_for_thread tid sig t"
    using assms by (auto simp: sys_tkill_def)
  moreover have "sig \<le> 64" using assms(2) by (simp add: MAX_SIGNALS_def)
  moreover have "THREAD_STATES t tid = WAITING \<longrightarrow> THREAD_STATES (pend_signal_for_thread tid sig t) tid = READY"
    using assms(1,4) \<open>sig \<le> 64\<close>
    by (simp add: pend_signal_for_thread_def thread_wake_def WAKEUP_LOCALITY_HINT_def Let_def)
  ultimately show ?thesis using assms(1,4) pend_signal_spec [of tid sig t] by auto
qed

end
