(* ===== verification/Ipc_Wait.thy ===== *)
theory Ipc_Wait
  imports Sig_Syscall Ordered_Map
begin

text \<open>
  Blocking on a kernel object. The objects of \<open>src/syscall\<close> that a thread can sleep on (pipes,
  event counters, message queues, futexes) keep the identifiers of the sleepers and wake them
  through \<open>ThreadWaker::wake\<close>. The locale states what such an object promises and derives that
  no wake-up is lost over any sequence of operations.
\<close>

section \<open>Waking a set of threads\<close>

text \<open>The loop that takes the registered threads one by one, in ascending order, and wakes them.\<close>

definition wake_all :: "nat list \<Rightarrow> threads \<Rightarrow> threads" where
  "wake_all tids t = fold thread_wake tids t"

text \<open>A woken thread has its sticky flag set and is not asleep.\<close>

definition woken :: "nat \<Rightarrow> threads \<Rightarrow> bool" where
  "woken tid t \<longleftrightarrow> WOKEN_STATES t tid \<and> THREAD_STATES t tid \<noteq> WAITING"

lemma woken_by_wake: "tid < MAX_THREADS \<Longrightarrow> woken tid (thread_wake tid t)"
  by (simp add: woken_def thread_wake_def WAKEUP_LOCALITY_HINT_def Let_def)

lemma woken_stays: "woken tid t \<Longrightarrow> woken tid (thread_wake x t)"
  by (simp add: woken_def thread_wake_def WAKEUP_LOCALITY_HINT_def Let_def)

lemma woken_wake_all: "woken tid t \<Longrightarrow> woken tid (wake_all tids t)"
  unfolding wake_all_def by (rule fold_invariant) (auto intro: woken_stays)

lemma wake_all_wakes: "tid \<in> set tids \<Longrightarrow> tid < MAX_THREADS \<Longrightarrow> woken tid (wake_all tids t)"
proof (induction tids arbitrary: t)
  case (Cons x tids)
  then show ?case
    using woken_wake_all [OF woken_by_wake] by (cases "tid = x") (auto simp: wake_all_def)
qed simp

lemma woken_pend_signal: "woken tid t \<Longrightarrow> woken tid (pend_signal_for_thread x sig t)"
proof -
  assume w: "woken tid t"
  have "woken tid (t\<lparr>PENDING_SIGNALS := p\<rparr>)" for p using w by (simp add: woken_def)
  then show ?thesis using w woken_stays by (simp add: pend_signal_for_thread_def)
qed

lemma woken_tkill: "woken tid t \<Longrightarrow> woken tid (snd (sys_tkill table_of x sig t))"
  using woken_pend_signal by (auto simp: sys_tkill_def Let_def split: signal_handler.splits)

lemma woken_sigpipe: "woken tid t \<Longrightarrow> woken tid (snd (send_sigpipe table_of t))"
  unfolding send_sigpipe_def by (rule woken_tkill)

lemma wake_all_current [simp]: "current_idx (wake_all tids t) = current_idx t"
  unfolding wake_all_def
  by (rule fold_invariant) (simp_all add: thread_wake_def WAKEUP_LOCALITY_HINT_def Let_def)

lemma wake_all_Nil [simp]: "wake_all [] t = t"
  by (simp add: wake_all_def)

section \<open>The interface\<close>

text \<open>
  \<open>waits tid s\<close>: the thread is registered on the object and what it waits for has not
  happened. An operation either leaves it so or wakes the thread, and never undoes a wake-up.
\<close>

locale wait_object =
  fixes step :: "'op \<Rightarrow> 's \<times> threads \<Rightarrow> 's \<times> threads"
    and waits :: "nat \<Rightarrow> 's \<Rightarrow> bool"
  assumes keeps_or_wakes:
      "tid < MAX_THREADS \<Longrightarrow> waits tid s \<Longrightarrow> step op (s, t) = (s', t') \<Longrightarrow> waits tid s' \<or> woken tid t'"
    and stays_woken: "woken tid t \<Longrightarrow> step op (s, t) = (s', t') \<Longrightarrow> woken tid t'"
begin

lemma run_stays_woken: "woken tid t \<Longrightarrow> fold step ops (s, t) = (s', t') \<Longrightarrow> woken tid t'"
proof (induction ops arbitrary: s t)
  case (Cons op ops)
  obtain s1 t1 where step: "step op (s, t) = (s1, t1)" by fastforce
  from Cons.IH [OF stays_woken [OF Cons.prems(1) step]] Cons.prems(2) step show ?case by simp
qed simp

lemma no_lost_wakeup:
  assumes "tid < MAX_THREADS" "waits tid s" "fold step ops (s, t) = (s', t')"
  shows "waits tid s' \<or> woken tid t'"
  using assms(2,3)
proof (induction ops arbitrary: s t)
  case (Cons op ops)
  obtain s1 t1 where step: "step op (s, t) = (s1, t1)" by fastforce
  from keeps_or_wakes [OF assms(1) Cons.prems(1) step] show ?case
  proof
    assume "waits tid s1"
    with Cons.IH Cons.prems(2) step show ?thesis by simp
  next
    assume "woken tid t1"
    with run_stays_woken Cons.prems(2) step show ?thesis by simp
  qed
qed simp

text \<open>The form a caller uses: if after the run what it waited for has happened, it was woken.\<close>

lemma ready_implies_woken:
  "tid < MAX_THREADS \<Longrightarrow> waits tid s \<Longrightarrow> fold step ops (s, t) = (s', t') \<Longrightarrow> \<not> waits tid s' \<Longrightarrow> woken tid t'"
  using no_lost_wakeup by blast

end

end
