(* ===== verification/Ipc_Futex.thy ===== *)
theory Ipc_Futex
  imports Ipc_Wait
begin

text \<open>
  Futexes, \<open>src/syscall/sync.rs\<close>: the table of waiter queues and the system call. A queue exists
  in the table exactly while it has waiters. \<open>FUTEX_WAIT\<close> is split into its entry, which compares
  the futex word and enqueues under one lock, and one round of the loop it runs after each
  return of \<open>schedule_blocking\<close>; times are 64-bit microseconds and wrap as in the code.
\<close>

section \<open>The waiter table\<close>

type_synonym futex_key = "u32 \<times> u64"
type_synonym futexes = "futex_key \<Rightarrow> nat list option"

definition futex_key_tgid :: "u32 option \<Rightarrow> bool \<Rightarrow> u32" where
  "futex_key_tgid current_pid is_private =
     (if is_private then (case current_pid of Some p \<Rightarrow> p | None \<Rightarrow> 0) else 0)"

text \<open>Putting a queue back, or dropping its entry when it is empty; appending a waiter; removing one.\<close>

definition put_queue :: "futex_key \<Rightarrow> nat list \<Rightarrow> futexes \<Rightarrow> futexes" where
  "put_queue key queue w = w(key := if queue = [] then None else Some queue)"

definition push_waiter :: "futex_key \<Rightarrow> nat \<Rightarrow> futexes \<Rightarrow> futexes" where
  "push_waiter key tid w = w(key \<mapsto> (case w key of Some queue \<Rightarrow> queue | None \<Rightarrow> []) @ [tid])"

definition retain_others :: "futex_key \<Rightarrow> nat \<Rightarrow> futexes \<Rightarrow> futexes" where
  "retain_others key tid w =
     (case w key of
        None \<Rightarrow> w
      | Some queue \<Rightarrow> put_queue key (filter (\<lambda>x. x \<noteq> tid) queue) w)"

definition futex_do_wake :: "u32 \<Rightarrow> u64 \<Rightarrow> nat \<Rightarrow> futexes \<Rightarrow> threads \<Rightarrow> nat \<times> futexes \<times> threads" where
  "futex_do_wake tgid uaddr max_wake w t =
     (case w (tgid, uaddr) of
        None \<Rightarrow> (0, w, t)
      | Some queue \<Rightarrow>
          let count = min max_wake (length queue);
              to_wake = take count queue
          in (length to_wake, put_queue (tgid, uaddr) (drop count queue) w, wake_all to_wake t))"

definition futex_wake :: "u32 \<Rightarrow> u64 \<Rightarrow> u32 \<Rightarrow> futexes \<Rightarrow> threads \<Rightarrow> futexes \<times> threads" where
  "futex_wake tgid uaddr max_wake w t =
     (case futex_do_wake 0 uaddr (unat max_wake) w t of
        (_, w1, t1) \<Rightarrow>
          if tgid \<noteq> 0 then snd (futex_do_wake tgid uaddr (unat max_wake) w1 t1) else (w1, t1))"

text \<open>
  The locked part of \<open>FUTEX_REQUEUE\<close> and \<open>FUTEX_CMP_REQUEUE\<close>: wake the first \<open>max_wake\<close>
  waiters, move the next \<open>max_requeue\<close> to the second address, put the rest back.
\<close>

definition requeue ::
    "futex_key \<Rightarrow> futex_key \<Rightarrow> nat \<Rightarrow> nat \<Rightarrow> futexes \<Rightarrow> threads \<Rightarrow> nat \<times> futexes \<times> threads" where
  "requeue key1 key2 max_wake max_requeue w t =
     (let (to_wake, to_requeue, w1) =
            (case w key1 of
               None \<Rightarrow> ([], [], w)
             | Some queue \<Rightarrow>
                 let wake_count = min max_wake (length queue);
                     remaining = drop wake_count queue;
                     requeue_count = (if snd key2 \<noteq> 0 then min max_requeue (length remaining) else 0)
                 in (take wake_count queue, take requeue_count remaining,
                     put_queue key1 (drop requeue_count remaining) w));
          w2 = (if to_requeue \<noteq> [] \<and> snd key2 \<noteq> 0
                then w1(key2 \<mapsto> (case w1 key2 of Some queue2 \<Rightarrow> queue2 | None \<Rightarrow> []) @ to_requeue)
                else w1)
      in (length to_wake + length to_requeue, w2, wake_all to_wake t))"

section \<open>The system call\<close>

definition FUTEX_WAIT :: u32 where "FUTEX_WAIT = 0"
definition FUTEX_WAKE :: u32 where "FUTEX_WAKE = 1"
definition FUTEX_REQUEUE :: u32 where "FUTEX_REQUEUE = 3"
definition FUTEX_CMP_REQUEUE :: u32 where "FUTEX_CMP_REQUEUE = 4"
definition FUTEX_WAKE_OP :: u32 where "FUTEX_WAKE_OP = 5"
definition FUTEX_WAIT_BITSET :: u32 where "FUTEX_WAIT_BITSET = 9"
definition FUTEX_WAKE_BITSET :: u32 where "FUTEX_WAKE_BITSET = 10"
definition FUTEX_PRIVATE_FLAG :: u32 where "FUTEX_PRIVATE_FLAG = 128"
definition FUTEX_CLOCK_REALTIME :: u32 where "FUTEX_CLOCK_REALTIME = 256"

lemmas futex_op_defs = FUTEX_WAIT_def FUTEX_WAKE_def FUTEX_REQUEUE_def FUTEX_CMP_REQUEUE_def
  FUTEX_WAKE_OP_def FUTEX_WAIT_BITSET_def FUTEX_WAKE_BITSET_def

definition read_u32 :: "user_mem \<Rightarrow> u64 \<Rightarrow> u32 option" where
  "read_u32 m a = map_option from_ne_bytes (copy_from_user_safe m a 4)"

text \<open>
  The deadline of a wait: none without a timeout; \<open>now\<close> is the uptime and \<open>utc_now\<close> the wall
  clock, when there is one, both in microseconds.
\<close>

definition wait_deadline :: "bool \<Rightarrow> bool \<Rightarrow> u64 \<Rightarrow> u64 option \<Rightarrow> u64 \<Rightarrow> u64" where
  "wait_deadline bitset is_realtime now utc_now timeout =
     (if bitset
      then if is_realtime
           then case utc_now of
                  Some utc \<Rightarrow> if utc < timeout then now + (timeout - utc) else now
                | None \<Rightarrow> timeout
           else timeout
      else now + timeout)"

datatype futex_result = Returned u64 | Blocked futex_key u64

definition futex_wait_enter ::
    "nat \<Rightarrow> u32 \<Rightarrow> u64 \<Rightarrow> u64 option \<Rightarrow> u64 \<Rightarrow> u32 \<Rightarrow> u32 \<Rightarrow> u64 \<Rightarrow> u32 \<Rightarrow> user_mem \<Rightarrow> futexes
     \<Rightarrow> futex_result \<times> futexes" where
  "futex_wait_enter tid tgid now utc_now uaddr op val timeout_ptr val3 m w =
     (let cmd = op AND NOT (FUTEX_PRIVATE_FLAG OR FUTEX_CLOCK_REALTIME);
          key = (tgid, uaddr) in
      if cmd = FUTEX_WAIT_BITSET \<and> val3 = 0 then (Returned EINVAL, w)
      else case read_u32 m uaddr of
        None \<Rightarrow> (Returned EFAULT, w)
      | Some current_val \<Rightarrow>
          if current_val \<noteq> val then (Returned EAGAIN, w)
          else let w1 = push_waiter key tid w in
            if timeout_ptr \<noteq> 0 \<and> validate_user_ptr m timeout_ptr 16
            then case copy_from_user_safe m timeout_ptr 16 of
                   None \<Rightarrow> (Returned EFAULT, retain_others key tid w1)
                 | Some ts \<Rightarrow>
                     (Blocked key (wait_deadline (cmd = FUTEX_WAIT_BITSET) (op AND FUTEX_CLOCK_REALTIME \<noteq> 0)
                        now utc_now (timespec_us ts)), w1)
            else (Blocked key (- 1), w1))"

text \<open>
  One round after \<open>schedule_blocking\<close> has returned: \<open>signalled\<close> says whether a signal is pending,
  \<open>None\<close> that the thread is queued again and blocks once more.
\<close>

definition futex_wait_round ::
    "nat \<Rightarrow> futex_key \<Rightarrow> u64 \<Rightarrow> u32 \<Rightarrow> bool \<Rightarrow> u64 \<Rightarrow> user_mem \<Rightarrow> futexes \<Rightarrow> u64 option \<times> futexes" where
  "futex_wait_round tid key deadline val signalled now m w =
     (let in_queue = (case w key of Some queue \<Rightarrow> tid \<in> set queue | None \<Rightarrow> False);
          w1 = (if in_queue then retain_others key tid w else w)
      in if signalled then (Some EINTR, w1)
         else if \<not> in_queue then (Some 0, w1)
         else if deadline \<noteq> - 1 \<and> deadline \<le> now then (Some ETIMEDOUT, w1)
         else case read_u32 m (snd key) of
           None \<Rightarrow> (Some EFAULT, w1)
         | Some current_val \<Rightarrow>
             if current_val \<noteq> val then (Some EAGAIN, w1)
             else (None, push_waiter key tid w1))"

definition sys_futex ::
    "nat \<Rightarrow> u32 option \<Rightarrow> u64 \<Rightarrow> u64 option \<Rightarrow> u64 \<Rightarrow> u32 \<Rightarrow> u32 \<Rightarrow> u64 \<Rightarrow> u64 \<Rightarrow> u32 \<Rightarrow> user_mem \<Rightarrow> futexes \<Rightarrow> threads
     \<Rightarrow> futex_result \<times> futexes \<times> threads" where
  "sys_futex tid current_pid now utc_now uaddr op val timeout_ptr uaddr2 val3 m w t =
     (let is_private = (op AND FUTEX_PRIVATE_FLAG \<noteq> 0);
          cmd = op AND NOT (FUTEX_PRIVATE_FLAG OR FUTEX_CLOCK_REALTIME);
          tgid = futex_key_tgid current_pid is_private
      in
      if uaddr = 0 \<or> uaddr AND 3 \<noteq> 0 then (Returned EINVAL, w, t)
      else if \<not> validate_user_ptr m uaddr 4
      then if cmd = FUTEX_WAKE \<or> cmd = FUTEX_WAKE_BITSET \<or> cmd = FUTEX_WAKE_OP then (Returned 0, w, t)
           else if cmd = FUTEX_WAIT \<or> cmd = FUTEX_WAIT_BITSET then (Returned EAGAIN, w, t)
           else (Returned EFAULT, w, t)
      else if cmd = FUTEX_WAIT \<or> cmd = FUTEX_WAIT_BITSET
      then (case futex_wait_enter tid tgid now utc_now uaddr op val timeout_ptr val3 m w of (r, w1) \<Rightarrow> (r, w1, t))
      else if cmd = FUTEX_WAKE \<or> cmd = FUTEX_WAKE_BITSET \<or> cmd = FUTEX_WAKE_OP
      then (case futex_do_wake tgid uaddr (unat val) w t of (n, w1, t1) \<Rightarrow> (Returned (of_nat n), w1, t1))
      else if cmd = FUTEX_REQUEUE
      then if uaddr2 \<noteq> 0 \<and> \<not> validate_user_ptr m uaddr2 4 then (Returned EFAULT, w, t)
           else (case requeue (tgid, uaddr) (tgid, uaddr2) (unat val) (unat (ucast timeout_ptr :: u32)) w t of
                   (n, w1, t1) \<Rightarrow> (Returned (of_nat n), w1, t1))
      else if cmd = FUTEX_CMP_REQUEUE
      then case read_u32 m uaddr of
             None \<Rightarrow> (Returned EFAULT, w, t)
           | Some current_val \<Rightarrow>
               if current_val \<noteq> val3 then (Returned EAGAIN, w, t)
               else if uaddr2 \<noteq> 0 \<and> \<not> validate_user_ptr m uaddr2 4 then (Returned EFAULT, w, t)
               else (case requeue (tgid, uaddr) (tgid, uaddr2) (unat val) (unat (ucast timeout_ptr :: u32)) w t of
                       (n, w1, t1) \<Rightarrow> (Returned (of_nat n), w1, t1))
      else (Returned ENOSYS, w, t))"

section \<open>Queues\<close>

definition queue_of :: "futexes \<Rightarrow> futex_key \<Rightarrow> nat list" where
  "queue_of w key = (case w key of Some queue \<Rightarrow> queue | None \<Rightarrow> [])"

definition futex_wf :: "futexes \<Rightarrow> bool" where
  "futex_wf w \<longleftrightarrow> (\<forall>key. w key \<noteq> Some [])"

lemma queue_of_simps [simp]:
  "queue_of (put_queue key queue w) = (queue_of w)(key := queue)"
  "queue_of (push_waiter key tid w) = (queue_of w)(key := queue_of w key @ [tid])"
  "queue_of (retain_others key tid w) = (queue_of w)(key := filter (\<lambda>x. x \<noteq> tid) (queue_of w key))"
  "queue_of (w(key \<mapsto> queue)) = (queue_of w)(key := queue)"
  by (auto simp: queue_of_def put_queue_def push_waiter_def retain_others_def fun_eq_iff split: option.splits)

lemma case_queue:
  "(case w key of None \<Rightarrow> [] | Some queue \<Rightarrow> queue) = queue_of w key"
  "(case w key of None \<Rightarrow> False | Some queue \<Rightarrow> tid \<in> set queue) \<longleftrightarrow> tid \<in> set (queue_of w key)"
  by (auto simp: queue_of_def split: option.splits)

lemma futex_wf_ops [wf_intros]:
  "futex_wf w \<Longrightarrow> futex_wf (put_queue key queue w)"
  "futex_wf w \<Longrightarrow> futex_wf (push_waiter key tid w)"
  "futex_wf w \<Longrightarrow> futex_wf (retain_others key tid w)"
  by (auto simp: futex_wf_def put_queue_def push_waiter_def retain_others_def split: option.splits)

text \<open>A well-formed table is determined by its queues.\<close>

lemma futex_wf_eqI:
  assumes "futex_wf w" "futex_wf w'" "queue_of w = queue_of w'"
  shows "w = w'"
proof
  fix key
  have eq: "queue_of w key = queue_of w' key" using assms(3) by simp
  show "w key = w' key"
    using eq assms(1,2) by (cases key; cases "w key"; cases "w' key") (auto simp: queue_of_def futex_wf_def)
qed

lemma futex_do_wake_fifo:
  assumes "futex_do_wake tgid uaddr n w t = (r, w', t')"
  shows "r = min n (length (queue_of w (tgid, uaddr)))"
    and "queue_of w' = (queue_of w)((tgid, uaddr) := drop r (queue_of w (tgid, uaddr)))"
    and "t' = wake_all (take r (queue_of w (tgid, uaddr))) t"
    and "futex_wf w \<Longrightarrow> futex_wf w'"
proof -
  let ?q = "queue_of w (tgid, uaddr)"
  have "r = min n (length ?q) \<and> t' = wake_all (take (min n (length ?q)) ?q) t
    \<and> queue_of w' = (queue_of w)((tgid, uaddr) := drop (min n (length ?q)) ?q) \<and> (futex_wf w \<longrightarrow> futex_wf w')"
  proof (cases "w (tgid, uaddr)")
    case None
    then have "?q = []" by (simp add: queue_of_def)
    with None assms show ?thesis by (auto simp: futex_do_wake_def)
  next
    case (Some queue)
    then have "queue = ?q" by (simp add: queue_of_def)
    with Some assms show ?thesis by (auto simp: futex_do_wake_def Let_def intro: wf_intros)
  qed
  then show "r = min n (length ?q)" "queue_of w' = (queue_of w)((tgid, uaddr) := drop r ?q)"
    "t' = wake_all (take r ?q) t" "futex_wf w \<Longrightarrow> futex_wf w'" by simp_all
qed

lemma requeue_queues:
  assumes "requeue key1 key2 a b w t = (r, w', t')"
  defines "q \<equiv> queue_of w key1"
  defines "c \<equiv> (if snd key2 \<noteq> 0 then min b (length q - min a (length q)) else 0)"
  shows "r = min a (length q) + c"
    and "queue_of w' = ((queue_of w)(key1 := drop c (drop a q)))
      (key2 := ((queue_of w)(key1 := drop c (drop a q))) key2 @ take c (drop a q))"
    and "t' = wake_all (take a q) t"
    and "futex_wf w \<Longrightarrow> futex_wf w'"
proof -
  have min_drop: "drop (min a (length q)) q = drop a q" "take (min a (length q)) q = take a q"
    by (simp_all add: min_def)
  show "r = min a (length q) + c"
    using assms(1) by (auto simp: requeue_def Let_def queue_of_def q_def c_def min_def split: option.splits if_splits)
  show "t' = wake_all (take a q) t"
    using assms(1) min_drop by (auto simp: requeue_def Let_def queue_of_def q_def split: option.splits if_splits)
  show "queue_of w' = ((queue_of w)(key1 := drop c (drop a q)))
      (key2 := ((queue_of w)(key1 := drop c (drop a q))) key2 @ take c (drop a q))"
  proof (cases "w key1")
    case None
    then have "q = []" by (simp add: q_def queue_of_def)
    with None assms(1) show ?thesis by (auto simp: requeue_def fun_eq_iff q_def queue_of_def)
  next
    case (Some queue)
    then have q: "queue = q" by (simp add: q_def queue_of_def)
    define rem where "rem = drop (min a (length q)) q"
    define w1 where "w1 = put_queue key1 (drop c rem) w"
    have c: "(if snd key2 \<noteq> 0 then min b (length rem) else 0) = c" by (simp add: c_def rem_def)
    have "snd (snd (requeue key1 key2 a b w t)) = wake_all (take (min a (length q)) q) t
      \<and> fst (snd (requeue key1 key2 a b w t)) =
        (if take c rem \<noteq> [] \<and> snd key2 \<noteq> 0 then w1(key2 \<mapsto> queue_of w1 key2 @ take c rem) else w1)"
      unfolding requeue_def Some q Let_def option.case prod.case case_queue rem_def [symmetric] c w1_def [symmetric]
        fst_conv snd_conv by blast
    then have "w' = (if take c rem \<noteq> [] \<and> snd key2 \<noteq> 0 then w1(key2 \<mapsto> queue_of w1 key2 @ take c rem) else w1)"
      using assms(1) by simp
    moreover have "take c rem = []" if "snd key2 = 0" using that by (simp add: c_def)
    ultimately have "queue_of w' = (queue_of w1)(key2 := queue_of w1 key2 @ take c rem)"
      by (cases "take c rem = []") auto
    moreover have "rem = drop a q" using min_drop by (simp add: rem_def)
    ultimately show ?thesis by (simp add: w1_def)
  qed
  show "futex_wf w \<Longrightarrow> futex_wf w'"
    using assms(1) by (auto simp: requeue_def Let_def futex_wf_def put_queue_def split: option.splits if_splits)
qed

section \<open>Futexes as objects to wait on\<close>

text \<open>What the other threads can do: any futex call, and any round of a wait of their own.\<close>

record futex_call =
  fc_tid :: nat
  fc_pid :: "u32 option"
  fc_now :: u64
  fc_utc :: "u64 option"
  fc_uaddr :: u64
  fc_op :: u32
  fc_val :: u32
  fc_timeout :: u64
  fc_uaddr2 :: u64
  fc_val3 :: u32
  fc_mem :: user_mem

datatype futex_step =
    FCall futex_call | FRound nat futex_key u64 u32 bool u64 user_mem | FKernelWake u32 u64 u32

fun futex_apply :: "futex_step \<Rightarrow> futexes \<times> threads \<Rightarrow> futexes \<times> threads" where
  "futex_apply (FCall c) (w, t) =
     snd (sys_futex (fc_tid c) (fc_pid c) (fc_now c) (fc_utc c) (fc_uaddr c) (fc_op c) (fc_val c)
        (fc_timeout c) (fc_uaddr2 c) (fc_val3 c) (fc_mem c) w t)"
| "futex_apply (FRound tid key deadline val signalled now m) (w, t) =
     (snd (futex_wait_round tid key deadline val signalled now m w), t)"
| "futex_apply (FKernelWake tgid uaddr n) (w, t) = futex_wake tgid uaddr n w t"

fun actor :: "futex_step \<Rightarrow> nat option" where
  "actor (FCall c) = Some (fc_tid c)"
| "actor (FRound tid _ _ _ _ _ _) = Some tid"
| "actor (FKernelWake _ _ _) = None"

definition others_step :: "nat \<Rightarrow> futex_step \<Rightarrow> futexes \<times> threads \<Rightarrow> futexes \<times> threads" where
  "others_step me op st = (if actor op = Some me then st else futex_apply op st)"

definition futex_waits :: "nat \<Rightarrow> futexes \<Rightarrow> bool" where
  "futex_waits tid w \<longleftrightarrow> (\<exists>key. tid \<in> set (queue_of w key))"

lemma do_wake_keeps_or_wakes:
  assumes "tid < MAX_THREADS" "futex_waits tid w" "futex_do_wake tgid uaddr n w t = (r, w', t')"
  shows "futex_waits tid w' \<or> woken tid t'"
proof -
  note d = futex_do_wake_fifo [OF assms(3)]
  let ?q = "queue_of w (tgid, uaddr)"
  from assms(2) obtain key where key: "tid \<in> set (queue_of w key)" by (auto simp: futex_waits_def)
  show ?thesis
  proof (cases "key = (tgid, uaddr)")
    case True
    have "tid \<in> set (take r ?q @ drop r ?q)" using key True by simp
    then have "tid \<in> set (take r ?q) \<or> tid \<in> set (drop r ?q)" by (simp only: set_append Un_iff)
    with d(2,3) wake_all_wakes assms(1) show ?thesis by (auto simp: futex_waits_def)
  next
    case False
    with key d(2) have "tid \<in> set (queue_of w' key)" by simp
    then show ?thesis unfolding futex_waits_def by blast
  qed
qed

lemma requeue_keeps_or_wakes:
  assumes "tid < MAX_THREADS" "futex_waits tid w" "requeue key1 key2 a b w t = (r, w', t')"
  shows "futex_waits tid w' \<or> woken tid t'"
proof -
  define q where "q = queue_of w key1"
  define c where "c = (if snd key2 \<noteq> 0 then min b (length q - min a (length q)) else 0)"
  define moved rest where "moved = take c (drop a q)" and "rest = drop c (drop a q)"
  have w': "queue_of w' = ((queue_of w)(key1 := rest))(key2 := ((queue_of w)(key1 := rest)) key2 @ moved)"
    and t': "t' = wake_all (take a q) t"
    using requeue_queues(2,3) [OF assms(3)] unfolding q_def c_def moved_def rest_def by blast+
  have q: "q = take a q @ moved @ rest" by (simp only: moved_def rest_def append_take_drop_id)
  from assms(2) obtain key where key: "tid \<in> set (queue_of w key)" by (auto simp: futex_waits_def)
  show ?thesis
  proof (cases "key = key1")
    case True
    with key q_def have "tid \<in> set (take a q @ moved @ rest)" using q by metis
    then consider "tid \<in> set (take a q)" | "tid \<in> set moved" | "tid \<in> set rest"
      by (simp only: set_append Un_iff) blast
    then show ?thesis
    proof cases
      case 1
      then show ?thesis using t' wake_all_wakes assms(1) by blast
    next
      case 2
      then have "tid \<in> set (queue_of w' key2)" by (simp add: w')
      then show ?thesis unfolding futex_waits_def by blast
    next
      case 3
      then have "tid \<in> set (queue_of w' key1)" by (auto simp: w')
      then show ?thesis unfolding futex_waits_def by blast
    qed
  next
    case False
    with key have "tid \<in> set (queue_of w' key)" by (auto simp: w')
    then show ?thesis unfolding futex_waits_def by blast
  qed
qed

lemma retain_waits:
  assumes "futex_waits tid w" "x \<noteq> tid"
  shows "futex_waits tid (retain_others key x w)"
proof -
  from assms(1) obtain k where "tid \<in> set (queue_of w k)" by (auto simp: futex_waits_def)
  with assms(2) have "tid \<in> set (queue_of (retain_others key x w) k)" by auto
  then show ?thesis unfolding futex_waits_def by blast
qed

lemma push_waits:
  assumes "futex_waits tid w"
  shows "futex_waits tid (push_waiter key x w)"
proof -
  from assms obtain k where "tid \<in> set (queue_of w k)" by (auto simp: futex_waits_def)
  then have "tid \<in> set (queue_of (push_waiter key x w) k)" by auto
  then show ?thesis unfolding futex_waits_def by blast
qed

lemma wait_enter_waits:
  assumes "futex_waits tid w" "x \<noteq> tid" "futex_wait_enter x tgid now utc uaddr op val tp val3 m w = (r, w')"
  shows "futex_waits tid w'"
  using assms
  by (auto simp: futex_wait_enter_def Let_def push_waits retain_waits split: option.splits if_splits)

lemma wait_round_waits:
  assumes "futex_waits tid w" "x \<noteq> tid"
  shows "futex_waits tid (snd (futex_wait_round x key deadline val signalled now m w))"
  using assms
  by (auto simp: futex_wait_round_def Let_def push_waits retain_waits split: option.splits)

lemma sys_futex_cases:
  assumes "sys_futex x pid now utc uaddr op val tp uaddr2 val3 m w t = (r, w', t')"
  obtains (same) "w' = w" "t' = t"
    | (wait) tgid where "futex_wait_enter x tgid now utc uaddr op val tp val3 m w = (r, w')" "t' = t"
    | (wake) tgid n k where "futex_do_wake tgid uaddr n w t = (k, w', t')"
    | (moved) tgid a b k where "requeue (tgid, uaddr) (tgid, uaddr2) a b w t = (k, w', t')"
  using assms unfolding sys_futex_def Let_def
  by (auto split: if_splits option.splits prod.splits)

lemma futex_keeps_or_wakes:
  assumes "tid < MAX_THREADS" "futex_waits tid w" "others_step tid op (w, t) = (w', t')"
  shows "futex_waits tid w' \<or> woken tid t'"
proof (cases "actor op = Some tid")
  case True
  with assms show ?thesis by (simp add: others_step_def)
next
  case False
  then have app: "futex_apply op (w, t) = (w', t')" using assms(3) by (simp add: others_step_def)
  show ?thesis
  proof (cases op)
    case (FCall c)
    have x: "fc_tid c \<noteq> tid" using False FCall by simp
    obtain r where "sys_futex (fc_tid c) (fc_pid c) (fc_now c) (fc_utc c) (fc_uaddr c) (fc_op c) (fc_val c)
        (fc_timeout c) (fc_uaddr2 c) (fc_val3 c) (fc_mem c) w t = (r, w', t')"
      using app FCall by (metis prod.collapse futex_apply.simps(1))
    then show ?thesis
    proof (cases rule: sys_futex_cases)
      case (wait tgid)
      with wait_enter_waits [OF assms(2) x] show ?thesis by blast
    next
      case (wake tgid n k)
      then show ?thesis by (rule do_wake_keeps_or_wakes [OF assms(1,2)])
    next
      case (moved tgid a b k)
      then show ?thesis by (rule requeue_keeps_or_wakes [OF assms(1,2)])
    qed (use assms(2) in simp)
  next
    case (FRound x key deadline val signalled now m)
    then have "x \<noteq> tid" using False by simp
    then have "futex_waits tid (snd (futex_wait_round x key deadline val signalled now m w))"
      by (rule wait_round_waits [OF assms(2)])
    with app FRound show ?thesis by simp
  next
    case (FKernelWake tgid uaddr n)
    obtain r1 w1 t1 where one: "futex_do_wake 0 uaddr (unat n) w t = (r1, w1, t1)" by (metis prod_cases3)
    show ?thesis
    proof (cases "tgid = 0")
      case True
      with app one FKernelWake have "w' = w1" "t' = t1" by (simp_all add: futex_wake_def)
      with do_wake_keeps_or_wakes [OF assms(1,2) one] show ?thesis by simp
    next
      case False
      then obtain r2 where two: "futex_do_wake tgid uaddr (unat n) w1 t1 = (r2, w', t')"
        using app one FKernelWake by (cases "futex_do_wake tgid uaddr (unat n) w1 t1") (auto simp: futex_wake_def)
      from do_wake_keeps_or_wakes [OF assms(1,2) one] show ?thesis
      proof
        assume "futex_waits tid w1"
        from do_wake_keeps_or_wakes [OF assms(1) this two] show ?thesis .
      next
        assume "woken tid t1"
        then show ?thesis using futex_do_wake_fifo(3) [OF two] woken_wake_all by simp
      qed
    qed
  qed
qed

lemma do_wake_woken: "futex_do_wake g u n w t = (r, w', t') \<Longrightarrow> woken tid t \<Longrightarrow> woken tid t'"
  by (drule futex_do_wake_fifo(3)) (simp add: woken_wake_all)

lemma requeue_woken: "requeue k1 k2 a b w t = (r, w', t') \<Longrightarrow> woken tid t \<Longrightarrow> woken tid t'"
  by (drule requeue_queues(3)) (simp add: woken_wake_all)

lemma futex_stays_woken:
  assumes "woken tid t" "others_step me op (w, t) = (w', t')"
  shows "woken tid t'"
proof (cases "actor op = Some me")
  case False
  then have app: "futex_apply op (w, t) = (w', t')" using assms(2) by (simp add: others_step_def)
  show ?thesis
  proof (cases op)
    case (FCall c)
    obtain r where "sys_futex (fc_tid c) (fc_pid c) (fc_now c) (fc_utc c) (fc_uaddr c) (fc_op c) (fc_val c)
        (fc_timeout c) (fc_uaddr2 c) (fc_val3 c) (fc_mem c) w t = (r, w', t')"
      using app FCall by (metis prod.collapse futex_apply.simps(1))
    then show ?thesis
    proof (cases rule: sys_futex_cases)
      case (wake tgid n k)
      then show ?thesis by (rule do_wake_woken [OF _ assms(1)])
    next
      case (moved tgid a b k)
      then show ?thesis by (rule requeue_woken [OF _ assms(1)])
    qed (use assms(1) in simp_all)
  next
    case (FKernelWake g u n)
    obtain r1 w1 t1 where one: "futex_do_wake 0 u (unat n) w t = (r1, w1, t1)" by (metis prod_cases3)
    obtain r2 w2 t2 where two: "futex_do_wake g u (unat n) w1 t1 = (r2, w2, t2)" by (metis prod_cases3)
    have "woken tid t1" "woken tid t2" using do_wake_woken one two assms(1) by blast+
    with app FKernelWake one two show ?thesis by (auto simp: futex_wake_def split: if_splits)
  qed (use app assms(1) in auto)
qed (use assms in \<open>simp add: others_step_def\<close>)

interpretation futex_obj: wait_object "others_step me" "\<lambda>tid w. tid = me \<and> futex_waits tid w" for me
proof unfold_locales
  fix tid w op t w' t'
  assume "tid < MAX_THREADS" "tid = me \<and> futex_waits tid w" "others_step me op (w, t) = (w', t')"
  then show "(tid = me \<and> futex_waits tid w') \<or> woken tid t'" using futex_keeps_or_wakes by blast
next
  fix tid t op w w' t'
  assume "woken tid t" "others_step me op (w, t) = (w', t')"
  then show "woken tid t'" by (rule futex_stays_woken)
qed

section \<open>Properties\<close>

text \<open>
  C23: No futex wake-up is lost. A thread that blocked in \<open>FUTEX_WAIT\<close> is in a waiter queue from
  the moment the futex word was compared; whatever futex calls and waits the other threads and
  the kernel perform afterwards, it is still queued somewhere or it has been woken.
\<close>

theorem futex_waiter_woken:
  assumes "me < MAX_THREADS"
    and "sys_futex me pid now utc uaddr op val tp uaddr2 val3 m w t = (Blocked key deadline, w1, t1)"
    and "fold (others_step me) ops (w1, t1) = (w2, t2)"
  shows "me \<in> set (queue_of w1 key) \<and> ((\<exists>k. me \<in> set (queue_of w2 k)) \<or> woken me t2)"
proof -
  have enq: "me \<in> set (queue_of w1 key)"
    using assms(2)
    by (auto simp: sys_futex_def futex_wait_enter_def Let_def case_prod_beta split: if_splits option.splits prod.splits)
  then have "futex_waits me w1" unfolding futex_waits_def by blast
  with futex_obj.no_lost_wakeup [OF assms(1) _ assms(3)] have "futex_waits me w2 \<or> woken me t2" by blast
  with enq show ?thesis unfolding futex_waits_def by blast
qed

lemma one_page_word: "\<exists>v. read_u32 one_page 0x2000 = Some v" "validate_user_ptr one_page 0x2000 4"
proof -
  show valid: "validate_user_ptr one_page 0x2000 4" using one_page_valid [of "0x2000" 4] by simp
  show "\<exists>v. read_u32 one_page 0x2000 = Some v" using validated_copy_from_user [OF valid] by (auto simp: read_u32_def)
qed

theorem futex_waiter_woken_witness:
  "\<exists>val key d w1 t1 w2 t2.
     sys_futex 5 None 0 None 0x2000 0 val 0 0 0 one_page Map.empty threads_new = (Blocked key d, w1, t1)
     \<and> fold (others_step 5) [FKernelWake 0 0x2000 1] (w1, t1) = (w2, t2)
     \<and> ((\<exists>k. 5 \<in> set (queue_of w2 k)) \<or> woken 5 t2)"
proof -
  obtain val where val: "read_u32 one_page 0x2000 = Some val" using one_page_word(1) by blast
  have call: "sys_futex 5 None 0 None 0x2000 0 val 0 0 0 one_page Map.empty threads_new
      = (Blocked (0, 0x2000) (- 1), push_waiter (0, 0x2000) 5 Map.empty, threads_new)"
    using val one_page_word(2)
    by (simp add: sys_futex_def futex_wait_enter_def futex_op_defs futex_key_tgid_def FUTEX_PRIVATE_FLAG_def Let_def)
  obtain w2 t2 where run: "fold (others_step 5) [FKernelWake 0 0x2000 1]
      (push_waiter (0, 0x2000) 5 Map.empty, threads_new) = (w2, t2)" by fastforce
  have "5 < MAX_THREADS" by (simp add: MAX_THREADS_def)
  from futex_waiter_woken [OF this call run] call run show ?thesis by blast
qed

text \<open>
  C24: Requeueing is exact and in order: of the waiters on the first address the oldest are woken,
  the next ones move behind those on the second address, the rest stay; the result counts the
  woken and the moved, and no other queue changes.
\<close>

theorem futex_requeue_exact:
  assumes "requeue key1 key2 max_wake max_requeue w t = (r, w', t')" "key1 \<noteq> key2" "snd key2 \<noteq> 0"
  shows "\<exists>gone moved rest. queue_of w key1 = gone @ moved @ rest
    \<and> length gone = min max_wake (length (queue_of w key1))
    \<and> length moved = min max_requeue (length (moved @ rest))
    \<and> queue_of w' key1 = rest \<and> queue_of w' key2 = queue_of w key2 @ moved
    \<and> (\<forall>k. k \<noteq> key1 \<longrightarrow> k \<noteq> key2 \<longrightarrow> queue_of w' k = queue_of w k)
    \<and> r = length gone + length moved \<and> t' = wake_all gone t"
proof -
  define q where "q = queue_of w key1"
  define c where "c = min max_requeue (length q - min max_wake (length q))"
  note r = requeue_queues [OF assms(1), folded q_def, unfolded if_P [OF assms(3)], folded c_def]
  let ?gone = "take max_wake q" and ?moved = "take c (drop max_wake q)" and ?rest = "drop c (drop max_wake q)"
  have len: "length ?gone = min max_wake (length q)" "length ?moved = c" by (auto simp: c_def)
  have c: "c = min max_requeue (length (?moved @ ?rest))"
    by (simp only: append_take_drop_id length_drop c_def)
  have "q = ?gone @ ?moved @ ?rest" by (simp only: append_take_drop_id)
  moreover have "queue_of w' key1 = ?rest" "queue_of w' key2 = queue_of w key2 @ ?moved"
    "\<forall>k. k \<noteq> key1 \<longrightarrow> k \<noteq> key2 \<longrightarrow> queue_of w' k = queue_of w k"
    using r(2) assms(2) by auto
  ultimately show ?thesis using r(1,3) len c q_def by metis
qed

theorem futex_requeue_exact_witness:
  "\<exists>r w' t'. requeue (1, 8) (1, 16) 1 1 [(1, 8) \<mapsto> [4, 5, 6]] threads_new = (r, w', t')
    \<and> r = 2 \<and> queue_of w' (1, 16) = [5]"
proof -
  let ?w = "[(1, 8) \<mapsto> [4, 5, 6]] :: futexes"
  obtain r w' t' where call: "requeue (1, 8) (1, 16) 1 1 ?w threads_new = (r, w', t')" by (metis prod_cases3)
  have q: "queue_of ?w (1, 8) = [4, 5, 6]" "queue_of ?w (1, 16) = []" by (simp_all add: queue_of_def)
  from futex_requeue_exact [OF call, unfolded q] obtain gone moved rest where
    "[4, 5, 6] = gone @ moved @ rest" "length gone = 1" "length moved = min 1 (length (moved @ rest))"
    "queue_of w' (1, 16) = moved" "r = length gone + length moved" by auto
  then show ?thesis using call by (cases gone; cases moved) auto
qed

text \<open>
  \<open>FUTEX_WAIT\<close> enqueues the caller exactly when the futex word still has the expected value,
  and at the end of the queue; a call that does not block reports an error and leaves the
  table as it found it.
\<close>

theorem futex_wait_decides:
  assumes "futex_wf w" "tid \<notin> set (queue_of w (tgid, uaddr))"
    and "futex_wait_enter tid tgid now utc uaddr op val tp val3 m w = (r, w')"
  shows "case r of
      Blocked key deadline \<Rightarrow> key = (tgid, uaddr) \<and> read_u32 m uaddr = Some val
        \<and> queue_of w' = (queue_of w)(key := queue_of w key @ [tid])
    | Returned e \<Rightarrow> w' = w \<and> (e = EINVAL \<or> e = EFAULT \<or> e = EAGAIN \<and> read_u32 m uaddr \<noteq> Some val)"
proof -
  let ?key = "(tgid, uaddr)"
  have undo: "retain_others ?key tid (push_waiter ?key tid w) = w"
  proof (rule futex_wf_eqI)
    show "queue_of (retain_others ?key tid (push_waiter ?key tid w)) = queue_of w"
      using assms(2) by (auto intro!: ext simp: filter_id_conv)
  qed (use assms(1) in \<open>auto intro: wf_intros\<close>)
  define w1 where "w1 = push_waiter ?key tid w"
  have w1: "queue_of w1 = (queue_of w)(?key := queue_of w ?key @ [tid])" by (simp add: w1_def)
  from assms(3) undo [folded w1_def] w1 show ?thesis
    unfolding futex_wait_enter_def w1_def [symmetric] Let_def by (auto split: if_splits option.splits)
qed

theorem futex_wait_decides_witness:
  "\<exists>val r w'. futex_wait_enter 5 0 0 None 0x2000 0 val 0 0 one_page Map.empty = (r, w')
    \<and> r = Blocked (0, 0x2000) (- 1) \<and> queue_of w' (0, 0x2000) = [5]"
proof -
  obtain val where val: "read_u32 one_page 0x2000 = Some val" using one_page_word(1) by blast
  obtain r w' where call: "futex_wait_enter 5 0 0 None 0x2000 0 val 0 0 one_page Map.empty = (r, w')" by fastforce
  then have r: "r = Blocked (0, 0x2000) (- 1)"
    using val by (auto simp: futex_wait_enter_def futex_op_defs Let_def)
  have "futex_wf Map.empty" "5 \<notin> set (queue_of Map.empty (0, 0x2000))" by (simp_all add: futex_wf_def queue_of_def)
  from futex_wait_decides [OF this call] r have "queue_of w' (0, 0x2000) = queue_of Map.empty (0, 0x2000) @ [5]"
    by simp
  then have "queue_of w' (0, 0x2000) = [5]" by (simp add: queue_of_def [of Map.empty])
  with r call show ?thesis by blast
qed

text \<open>
  A waiter that has been moved to a second address looks only at the first one: any return of its
  sleep, a timeout say, makes it report success and leaves its entry behind in the second queue.
\<close>

lemma requeued_waiter_leaves_entry:
  assumes "tid \<notin> set (queue_of w key1)" "tid \<in> set (queue_of w key2)"
  shows "futex_wait_round tid key1 deadline val False now m w = (Some 0, w)"
  using assms by (simp add: futex_wait_round_def case_queue)

end
