(* ===== verification/Ipc_Msgqueue.thy ===== *)
theory Ipc_Msgqueue
  imports Ipc_Wait "HOL-Library.Product_Lexorder"
begin

text \<open>
  System V message queues, \<open>src/syscall/msgqueue.rs\<close>. The table is the ordered map from
  (box, queue identifier) to queues; every handler takes the box of the calling process.
  \<open>msgsnd\<close> and \<open>msgrcv\<close> are split into their checks and one locked round, whose \<open>None\<close> means that
  the caller registered itself and sleeps. Message types are the \<open>i64\<close> values as
  integers and sizes numbers; the two places where 64-bit arithmetic can wrap, the negated type
  and the length that \<open>msgrcv\<close> validates, wrap here too.
\<close>

section \<open>The table\<close>

definition IPC_PRIVATE :: u32 where "IPC_PRIVATE = 0"
definition IPC_CREAT :: u32 where "IPC_CREAT = 0x200"
definition IPC_EXCL :: u32 where "IPC_EXCL = 0x400"
definition IPC_RMID :: u32 where "IPC_RMID = 0"
definition IPC_SET :: u32 where "IPC_SET = 1"
definition IPC_STAT :: u32 where "IPC_STAT = 2"
definition IPC_NOWAIT :: u32 where "IPC_NOWAIT = 0x800"
definition MSG_NOERROR :: u32 where "MSG_NOERROR = 0x1000"
definition MSGMAX :: nat where "MSGMAX = 8192"
definition MSGMNB :: nat where "MSGMNB = 16384"

record kernel_msg =
  mtype :: int
  mdata :: bytes

record msg_queue =
  mq_key :: u32
  mq_mode :: u32
  cbytes :: nat
  messages :: "kernel_msg list"
  recv_pollers :: "nat list"
  send_pollers :: "nat list"

record msg_table =
  MSGQUEUE_TABLE :: "(u64 \<times> u32, msg_queue) btree"
  NEXT_MSQID :: u32

definition msg_table_new :: msg_table where
  "msg_table_new = \<lparr>MSGQUEUE_TABLE = [], NEXT_MSQID = 1\<rparr>"

definition mq_get :: "msg_table \<Rightarrow> u64 \<Rightarrow> u32 \<Rightarrow> msg_queue option" where
  "mq_get s box_id msqid = map_of (MSGQUEUE_TABLE s) (box_id, msqid)"

definition mq_put :: "u64 \<Rightarrow> u32 \<Rightarrow> msg_queue \<Rightarrow> msg_table \<Rightarrow> msg_table" where
  "mq_put box_id msqid q s = s\<lparr>MSGQUEUE_TABLE := bt_insert (box_id, msqid) q (MSGQUEUE_TABLE s)\<rparr>"

definition mq_new :: "u32 \<Rightarrow> u32 \<Rightarrow> msg_queue" where
  "mq_new key flags =
     \<lparr>mq_key = key, mq_mode = flags AND 0x1FF, cbytes = 0, messages = [], recv_pollers = [], send_pollers = []\<rparr>"

definition mq_create :: "u64 \<Rightarrow> u32 \<Rightarrow> u32 \<Rightarrow> msg_table \<Rightarrow> u64 \<times> msg_table" where
  "mq_create box_id key flags s =
     (let msqid = NEXT_MSQID s
      in (ucast msqid, mq_put box_id msqid (mq_new key flags) (s\<lparr>NEXT_MSQID := msqid + 1\<rparr>)))"

definition sys_msgget :: "u64 \<Rightarrow> u32 \<Rightarrow> u32 \<Rightarrow> msg_table \<Rightarrow> u64 \<times> msg_table" where
  "sys_msgget box_id key flags s =
     (if key = IPC_PRIVATE then mq_create box_id key flags s
      else case find (\<lambda>((bid, _), q). bid = box_id \<and> mq_key q = key) (MSGQUEUE_TABLE s) of
             Some ((_, msqid), _) \<Rightarrow> (if flags AND IPC_EXCL \<noteq> 0 then EEXIST else ucast msqid, s)
           | None \<Rightarrow> if flags AND IPC_CREAT \<noteq> 0 then mq_create box_id key flags s else (ENOENT, s))"

section \<open>Control\<close>

text \<open>The 112 bytes of \<open>msqid_ds\<close> that \<open>IPC_STAT\<close> fills in.\<close>

definition msqid_ds :: "u32 \<Rightarrow> u32 \<Rightarrow> nat \<Rightarrow> nat \<Rightarrow> bytes" where
  "msqid_ds key mode cb qnum =
     to_ne_bytes 4 key @ replicate 16 0 @ to_ne_bytes 2 mode @ replicate 50 0
     @ to_ne_bytes 8 (of_nat cb :: u64) @ to_ne_bytes 8 (of_nat qnum :: u64) @ to_ne_bytes 8 (of_nat MSGMNB :: u64)
     @ replicate 16 0"

definition sys_msgctl ::
    "u64 \<Rightarrow> u32 \<Rightarrow> u32 \<Rightarrow> u64 \<Rightarrow> user_mem \<Rightarrow> msg_table \<Rightarrow> threads \<Rightarrow> u64 \<times> user_mem \<times> msg_table \<times> threads" where
  "sys_msgctl box_id msqid cmd buf m s t =
     (if cmd = IPC_RMID
      then let tids = (case mq_get s box_id msqid of Some q \<Rightarrow> recv_pollers q @ send_pollers q | None \<Rightarrow> [])
           in (0, m, s\<lparr>MSGQUEUE_TABLE := bt_remove (box_id, msqid) (MSGQUEUE_TABLE s)\<rparr>, wake_all tids t)
      else if cmd = IPC_STAT
      then if \<not> validate_user_ptr m buf 112 then (EFAULT, m, s, t)
           else let ds = (case mq_get s box_id msqid of
                            Some q \<Rightarrow> msqid_ds (mq_key q) (mq_mode q) (cbytes q) (length (messages q))
                          | None \<Rightarrow> msqid_ds 0 0 0 0)
                in (case copy_to_user_safe buf ds m of (ok, m1) \<Rightarrow> (if ok then 0 else EFAULT, m1, s, t))
      else if cmd = IPC_SET
      then if \<not> validate_user_ptr m buf 112 then (EFAULT, m, s, t)
           else case copy_from_user_safe m buf 112 of
             None \<Rightarrow> (EFAULT, m, s, t)
           | Some ds \<Rightarrow>
               (case mq_get s box_id msqid of
                  Some q \<Rightarrow> (0, m, mq_put box_id msqid (q\<lparr>mq_mode := from_ne_bytes (take 2 (drop 20 ds))\<rparr>) s, t)
                | None \<Rightarrow> (EINVAL, m, s, t))
      else (EINVAL, m, s, t))"

section \<open>Sending\<close>

text \<open>The checks of \<open>msgsnd\<close>: an error, or the message to send.\<close>

definition msgsnd_enter :: "u64 \<Rightarrow> nat \<Rightarrow> user_mem \<Rightarrow> u64 + kernel_msg" where
  "msgsnd_enter msgp msgsz m =
     (if MSGMAX < msgsz then Inl EINVAL
      else if \<not> validate_user_ptr m msgp (8 + msgsz) then Inl EFAULT
      else case copy_from_user_safe m msgp 8 of
        None \<Rightarrow> Inl EFAULT
      | Some tb \<Rightarrow>
          let ty = sint (from_ne_bytes tb :: u64) in
          if ty \<le> 0 then Inl EINVAL
          else if 0 < msgsz
          then (case copy_from_user_safe m (msgp + 8) msgsz of
                  None \<Rightarrow> Inl EFAULT
                | Some bs \<Rightarrow> Inr \<lparr>mtype = ty, mdata = bs\<rparr>)
          else Inr \<lparr>mtype = ty, mdata = []\<rparr>)"

definition msgsnd_round ::
    "u64 \<Rightarrow> u32 \<Rightarrow> kernel_msg \<Rightarrow> u32 \<Rightarrow> nat \<Rightarrow> msg_table \<Rightarrow> threads \<Rightarrow> u64 option \<times> msg_table \<times> threads" where
  "msgsnd_round box_id msqid msg flags tid s t =
     (case mq_get s box_id msqid of
        None \<Rightarrow> (Some EINVAL, s, t)
      | Some q \<Rightarrow>
          if MSGMNB < cbytes q + length (mdata msg)
          then if flags AND IPC_NOWAIT \<noteq> 0 then (Some EAGAIN, s, t)
               else (None, mq_put box_id msqid (q\<lparr>send_pollers := bs_insert tid (send_pollers q)\<rparr>) s, t)
          else (Some 0,
                mq_put box_id msqid (q\<lparr>cbytes := cbytes q + length (mdata msg), messages := messages q @ [msg],
                                       recv_pollers := []\<rparr>) s,
                wake_all (recv_pollers q) t))"

section \<open>Receiving\<close>

text \<open>The scan for the first message of the lowest type not above \<open>abs_typ\<close>.\<close>

fun best_loop :: "int \<Rightarrow> nat \<Rightarrow> (nat \<times> int) option \<Rightarrow> kernel_msg list \<Rightarrow> (nat \<times> int) option" where
  "best_loop abs_typ i best [] = best"
| "best_loop abs_typ i best (x # xs) =
     best_loop abs_typ (i + 1)
       (if mtype x \<le> abs_typ \<and> (case best of None \<Rightarrow> True | Some (_, b) \<Rightarrow> mtype x < b)
        then Some (i, mtype x) else best) xs"

text \<open>Negation of an \<open>i64\<close>: the least value has no opposite.\<close>

definition neg_i64 :: "int \<Rightarrow> int" where
  "neg_i64 n = (if n = - (2 ^ 63) then n else - n)"

definition select_msg :: "int \<Rightarrow> kernel_msg list \<Rightarrow> nat option" where
  "select_msg msgtyp msgs =
     (if msgtyp = 0 then (if msgs = [] then None else Some 0)
      else if 0 < msgtyp then position (\<lambda>x. mtype x = msgtyp) msgs
      else map_option fst (best_loop (neg_i64 msgtyp) 0 None msgs))"

text \<open>
  The locked round of \<open>msgrcv\<close> on queue \<open>q\<close>: result, memory, queue and the senders to wake. A
  copy that faults returns at once and leaves the queue as it is at that point.
\<close>

definition deliver_msg :: "u64 \<Rightarrow> int \<Rightarrow> bytes \<Rightarrow> user_mem \<Rightarrow> bool \<times> user_mem" where
  "deliver_msg msgp ty bs m =
     (case copy_to_user_safe msgp (to_ne_bytes 8 (of_int ty :: u64)) m of
        (ok, m1) \<Rightarrow>
          if \<not> ok then (False, m1)
          else if bs \<noteq> [] then copy_to_user_safe (msgp + 8) bs m1
          else (True, m1))"

definition receive_from ::
    "u64 \<Rightarrow> nat \<Rightarrow> int \<Rightarrow> u32 \<Rightarrow> nat \<Rightarrow> user_mem \<Rightarrow> msg_queue
     \<Rightarrow> u64 option \<times> user_mem \<times> msg_queue \<times> nat list" where
  "receive_from msgp msgsz msgtyp flags tid m q =
     (case select_msg msgtyp (messages q) of
        None \<Rightarrow>
          if flags AND IPC_NOWAIT \<noteq> 0 then (Some ENOMSG, m, q, [])
          else (None, m, q\<lparr>recv_pollers := bs_insert tid (recv_pollers q)\<rparr>, [])
      | Some idx \<Rightarrow>
          let msg = messages q ! idx;
              q1 = q\<lparr>messages := remove_at idx (messages q)\<rparr>;
              actual_len = length (mdata msg)
          in if msgsz < actual_len
             then if flags AND MSG_NOERROR = 0
                  then (Some E2BIG, m, q1\<lparr>messages := insert_at idx msg (messages q1)\<rparr>, [])
                  else (case deliver_msg msgp (mtype msg) (take msgsz (mdata msg)) m of
                          (False, m1) \<Rightarrow> (Some EFAULT, m1, q1, [])
                        | (True, m1) \<Rightarrow>
                            (Some (of_nat msgsz), m1,
                             q1\<lparr>cbytes := cbytes q1 - actual_len, send_pollers := []\<rparr>, send_pollers q))
             else let q2 = q1\<lparr>cbytes := cbytes q1 - actual_len\<rparr>
                  in (case deliver_msg msgp (mtype msg) (mdata msg) m of
                        (False, m1) \<Rightarrow> (Some EFAULT, m1, q2, [])
                      | (True, m1) \<Rightarrow> (Some (of_nat actual_len), m1, q2\<lparr>send_pollers := []\<rparr>, send_pollers q)))"

definition msgrcv_enter :: "u64 \<Rightarrow> nat \<Rightarrow> user_mem \<Rightarrow> u64 option" where
  "msgrcv_enter msgp msgsz m = (if \<not> validate_user_ptr m msgp ((8 + msgsz) mod 2 ^ 64) then Some EFAULT else None)"

definition msgrcv_round ::
    "u64 \<Rightarrow> u32 \<Rightarrow> u64 \<Rightarrow> nat \<Rightarrow> int \<Rightarrow> u32 \<Rightarrow> nat \<Rightarrow> user_mem \<Rightarrow> msg_table \<Rightarrow> threads
     \<Rightarrow> u64 option \<times> user_mem \<times> msg_table \<times> threads" where
  "msgrcv_round box_id msqid msgp msgsz msgtyp flags tid m s t =
     (case mq_get s box_id msqid of
        None \<Rightarrow> (Some EINVAL, m, s, t)
      | Some q \<Rightarrow>
          (case receive_from msgp msgsz msgtyp flags tid m q of
             (r, m1, q1, tids) \<Rightarrow> (r, m1, mq_put box_id msqid q1 s, wake_all tids t)))"

section \<open>Pollers, snapshots, clean-up\<close>

definition msgqueue_add_recv_poller :: "u64 \<Rightarrow> u32 \<Rightarrow> nat \<Rightarrow> msg_table \<Rightarrow> msg_table" where
  "msgqueue_add_recv_poller box_id msqid tid s =
     (case mq_get s box_id msqid of
        None \<Rightarrow> s
      | Some q \<Rightarrow> mq_put box_id msqid (q\<lparr>recv_pollers := bs_insert tid (recv_pollers q)\<rparr>) s)"

definition msgqueue_add_send_poller :: "u64 \<Rightarrow> u32 \<Rightarrow> nat \<Rightarrow> msg_table \<Rightarrow> msg_table" where
  "msgqueue_add_send_poller box_id msqid tid s =
     (case mq_get s box_id msqid of
        None \<Rightarrow> s
      | Some q \<Rightarrow> mq_put box_id msqid (q\<lparr>send_pollers := bs_insert tid (send_pollers q)\<rparr>) s)"

record msg_queue_snapshot =
  snap_box_id :: u64
  snap_key :: u32
  snap_msqid :: u32
  snap_mode :: u32
  snap_cbytes :: nat
  snap_qnum :: nat

definition list_msg_queues :: "msg_table \<Rightarrow> msg_queue_snapshot list" where
  "list_msg_queues s =
     map (\<lambda>((box_id, msqid), q).
       \<lparr>snap_box_id = box_id, snap_key = mq_key q, snap_msqid = msqid, snap_mode = mq_mode q,
        snap_cbytes = cbytes q, snap_qnum = length (messages q)\<rparr>) (MSGQUEUE_TABLE s)"

definition cleanup_box_queues :: "u64 \<Rightarrow> msg_table \<Rightarrow> msg_table" where
  "cleanup_box_queues box_id s =
     s\<lparr>MSGQUEUE_TABLE := filter (\<lambda>((bid, _), _). bid \<noteq> box_id) (MSGQUEUE_TABLE s)\<rparr>"

section \<open>Sequences of calls\<close>

datatype mq_call =
    MGet u64 u32 u32
  | MCtl u64 u32 u32 u64 user_mem
  | MSnd u64 u32 u64 nat u32 nat user_mem
  | MRcv u64 u32 u64 nat int u32 nat user_mem
  | MPollRecv u64 u32 nat
  | MPollSend u64 u32 nat
  | MCleanup u64

fun mq_apply :: "mq_call \<Rightarrow> msg_table \<times> threads \<Rightarrow> msg_table \<times> threads" where
  "mq_apply (MGet b key flags) (s, t) = (snd (sys_msgget b key flags s), t)"
| "mq_apply (MCtl b i cmd buf m) (s, t) = snd (snd (sys_msgctl b i cmd buf m s t))"
| "mq_apply (MSnd b i msgp msgsz flags tid m) (s, t) =
     (case msgsnd_enter msgp msgsz m of Inl _ \<Rightarrow> (s, t) | Inr msg \<Rightarrow> snd (msgsnd_round b i msg flags tid s t))"
| "mq_apply (MRcv b i msgp msgsz msgtyp flags tid m) (s, t) =
     (case msgrcv_enter msgp msgsz m of
        Some _ \<Rightarrow> (s, t)
      | None \<Rightarrow> snd (snd (msgrcv_round b i msgp msgsz msgtyp flags tid m s t)))"
| "mq_apply (MPollRecv b i tid) (s, t) = (msgqueue_add_recv_poller b i tid s, t)"
| "mq_apply (MPollSend b i tid) (s, t) = (msgqueue_add_send_poller b i tid s, t)"
| "mq_apply (MCleanup b) (s, t) = (cleanup_box_queues b s, t)"

fun call_box :: "mq_call \<Rightarrow> u64" where
  "call_box (MGet b _ _) = b" | "call_box (MCtl b _ _ _ _) = b" | "call_box (MSnd b _ _ _ _ _ _) = b"
| "call_box (MRcv b _ _ _ _ _ _ _) = b" | "call_box (MPollRecv b _ _) = b" | "call_box (MPollSend b _ _) = b"
| "call_box (MCleanup b) = b"

section \<open>What each call does to the table\<close>

lemma mq_get_put [simp]:
  "mq_get (mq_put b i q s) b' i' = (if b' = b \<and> i' = i then Some q else mq_get s b' i')"
  "NEXT_MSQID (mq_put b i q s) = NEXT_MSQID s"
  by (simp_all add: mq_get_def mq_put_def)

lemma map_of_filter_box:
  "box \<noteq> b \<Longrightarrow> map_of (filter (\<lambda>((bid, _), _). bid \<noteq> box) tb) (b, i) = map_of tb (b, i)"
  by (induction tb) auto

text \<open>A call touches only the queues of the caller's box.\<close>

lemma mq_call_frame:
  assumes "call_box c \<noteq> b" "mq_apply c (s, t) = (s', t')"
  shows "mq_get s' b i = mq_get s b i"
proof (cases c)
  case (MGet b' key flags)
  with assms show ?thesis
    by (auto simp: sys_msgget_def mq_create_def Let_def mq_get_def mq_put_def split: if_splits option.splits)
next
  case (MCtl b' i' cmd buf m)
  with assms show ?thesis
    by (auto simp: sys_msgctl_def Let_def mq_get_def mq_put_def case_prod_beta split: if_splits option.splits)
next
  case (MSnd b' i' msgp msgsz flags tid m)
  with assms show ?thesis
    by (auto simp: msgsnd_round_def split: if_splits option.splits sum.splits)
next
  case (MRcv b' i' msgp msgsz msgtyp flags tid m)
  with assms show ?thesis
    by (auto simp: msgrcv_round_def case_prod_beta split: if_splits option.splits)
next
  case (MPollRecv b' i' tid)
  with assms show ?thesis by (auto simp: msgqueue_add_recv_poller_def split: option.splits)
next
  case (MPollSend b' i' tid)
  with assms show ?thesis by (auto simp: msgqueue_add_send_poller_def split: option.splits)
next
  case (MCleanup b')
  with assms show ?thesis by (auto simp: cleanup_box_queues_def mq_get_def map_of_filter_box)
qed

section \<open>Choosing a message\<close>

lemma best_loop_inv:
  assumes "best_loop n (length pre) best xs = r"
    and "case best of None \<Rightarrow> (\<forall>x \<in> set pre. \<not> mtype x \<le> n)
      | Some (i, b) \<Rightarrow> i < length pre \<and> mtype (pre ! i) = b \<and> b \<le> n
          \<and> (\<forall>x \<in> set pre. mtype x \<le> n \<longrightarrow> b \<le> mtype x) \<and> (\<forall>j < i. mtype (pre ! j) \<noteq> b)"
  shows "case r of None \<Rightarrow> (\<forall>x \<in> set (pre @ xs). \<not> mtype x \<le> n)
      | Some (i, b) \<Rightarrow> i < length (pre @ xs) \<and> mtype ((pre @ xs) ! i) = b \<and> b \<le> n
          \<and> (\<forall>x \<in> set (pre @ xs). mtype x \<le> n \<longrightarrow> b \<le> mtype x) \<and> (\<forall>j < i. mtype ((pre @ xs) ! j) \<noteq> b)"
  using assms
proof (induction xs arbitrary: pre best)
  case (Cons x xs)
  define best' where "best' = (if mtype x \<le> n \<and> (case best of None \<Rightarrow> True | Some (_, b) \<Rightarrow> mtype x < b)
      then Some (length pre, mtype x) else best)"
  have run: "best_loop n (length (pre @ [x])) best' xs = r" using Cons.prems(1) by (simp add: best'_def)
  have "case best' of None \<Rightarrow> (\<forall>y \<in> set (pre @ [x]). \<not> mtype y \<le> n)
      | Some (i, b) \<Rightarrow> i < length (pre @ [x]) \<and> mtype ((pre @ [x]) ! i) = b \<and> b \<le> n
          \<and> (\<forall>y \<in> set (pre @ [x]). mtype y \<le> n \<longrightarrow> b \<le> mtype y) \<and> (\<forall>j < i. mtype ((pre @ [x]) ! j) \<noteq> b)"
  proof (cases best)
    case None
    with Cons.prems(2) have "\<forall>y \<in> set pre. \<not> mtype y \<le> n" by auto
    then show ?thesis by (auto simp: best'_def None nth_append) (metis nth_mem)
  next
    case (Some ib)
    then obtain i b where ib: "best = Some (i, b)" by (cases ib) auto
    with Cons.prems(2) have inv: "i < length pre" "mtype (pre ! i) = b" "b \<le> n"
      "\<forall>y \<in> set pre. mtype y \<le> n \<longrightarrow> b \<le> mtype y" "\<forall>j < i. mtype (pre ! j) \<noteq> b" by auto
    have all: "\<forall>j < length pre. mtype (pre ! j) \<le> n \<longrightarrow> b \<le> mtype (pre ! j)" using inv(4) by simp
    show ?thesis
    proof (cases "mtype x \<le> n \<and> mtype x < b")
      case True
      then have "best' = Some (length pre, mtype x)" by (simp add: best'_def ib)
      moreover have "\<forall>j < length pre. mtype (pre ! j) \<noteq> mtype x" using all True by force
      moreover have "\<forall>y \<in> set pre. mtype y \<le> n \<longrightarrow> mtype x \<le> mtype y" using inv(4) True by force
      ultimately show ?thesis using True by (auto simp: nth_append)
    next
      case False
      then have "best' = best" by (auto simp: best'_def ib)
      with False ib inv show ?thesis by (auto simp: nth_append)
    qed
  qed
  from Cons.IH [OF run this] show ?case by (simp only: append_assoc append_Cons append_Nil)
next
  case Nil
  then show ?case by (simp only: append_Nil2 best_loop.simps)
qed

text \<open>The message a receiver is entitled to, as System V describes it.\<close>

definition eligible :: "int \<Rightarrow> kernel_msg \<Rightarrow> bool" where
  "eligible msgtyp x \<longleftrightarrow> msgtyp = 0 \<or> mtype x = msgtyp \<or> msgtyp < 0 \<and> mtype x \<le> - msgtyp"

definition is_choice :: "int \<Rightarrow> kernel_msg list \<Rightarrow> nat \<Rightarrow> bool" where
  "is_choice msgtyp msgs i \<longleftrightarrow>
     i < length msgs \<and> eligible msgtyp (msgs ! i)
     \<and> (if msgtyp < 0
        then (\<forall>x \<in> set msgs. eligible msgtyp x \<longrightarrow> mtype (msgs ! i) \<le> mtype x)
             \<and> (\<forall>j < i. mtype (msgs ! j) \<noteq> mtype (msgs ! i))
        else (\<forall>j < i. \<not> eligible msgtyp (msgs ! j)))"

lemma select_msg_Some:
  assumes "select_msg msgtyp msgs = Some i" "\<forall>x \<in> set msgs. 0 < mtype x" "- (2 ^ 63) < msgtyp"
  shows "is_choice msgtyp msgs i"
proof (cases "msgtyp < 0")
  case True
  then obtain b where b: "best_loop (- msgtyp) 0 None msgs = Some (i, b)"
    using assms(1,3) by (auto simp: select_msg_def neg_i64_def)
  have "mtype x = msgtyp \<Longrightarrow> x \<notin> set msgs" for x using assms(2) True by force
  with best_loop_inv [of "- msgtyp" "[]" None msgs] b True show ?thesis
    by (auto simp: is_choice_def eligible_def)
next
  case False
  with assms(1) show ?thesis
    by (auto simp: select_msg_def is_choice_def eligible_def split: if_splits dest: position_SomeD)
qed

lemma select_msg_None:
  assumes "select_msg msgtyp msgs = None" "\<forall>x \<in> set msgs. 0 < mtype x" "- (2 ^ 63) < msgtyp"
  shows "\<forall>x \<in> set msgs. \<not> eligible msgtyp x"
proof (cases "msgtyp < 0")
  case True
  then have b: "best_loop (- msgtyp) 0 None msgs = None"
    using assms(1,3) by (auto simp: select_msg_def neg_i64_def)
  from best_loop_inv [of "- msgtyp" "[]" None msgs] b True assms(2) show ?thesis
    by (force simp: eligible_def)
next
  case False
  with assms(1) show ?thesis by (auto simp: select_msg_def eligible_def position_None split: if_splits)
qed

lemma select_msg_in_range: "select_msg msgtyp msgs = Some i \<Longrightarrow> i < length msgs"
  using best_loop_inv [of "neg_i64 msgtyp" "[]" None msgs]
  by (auto simp: select_msg_def split: if_splits dest: position_SomeD)

section \<open>Accounting\<close>

definition msg_bytes :: "kernel_msg list \<Rightarrow> nat" where
  "msg_bytes msgs = sum_list (map (\<lambda>x. length (mdata x)) msgs)"

definition mq_ok :: "msg_queue \<Rightarrow> bool" where
  "mq_ok q \<longleftrightarrow> cbytes q = msg_bytes (messages q) \<and> cbytes q \<le> MSGMNB
     \<and> (\<forall>x \<in> set (messages q). 0 < mtype x \<and> length (mdata x) \<le> MSGMAX)"

definition table_ok :: "msg_table \<Rightarrow> bool" where
  "table_ok s \<longleftrightarrow> (\<forall>b i q. mq_get s b i = Some q \<longrightarrow> mq_ok q)"

lemma mq_ok_fields [simp]:
  "mq_ok (q\<lparr>mq_mode := x\<rparr>) = mq_ok q" "mq_ok (q\<lparr>recv_pollers := y\<rparr>) = mq_ok q" "mq_ok (q\<lparr>send_pollers := y\<rparr>) = mq_ok q"
  by (simp_all add: mq_ok_def)

lemma table_ok_put [wf_intros]: "table_ok s \<Longrightarrow> mq_ok q \<Longrightarrow> table_ok (mq_put b i q s)"
  by (auto simp: table_ok_def)

lemma table_ok_next [simp]: "table_ok (s\<lparr>NEXT_MSQID := n\<rparr>) = table_ok s"
  by (simp add: table_ok_def mq_get_def)

lemma mq_ok_new: "mq_ok (mq_new key flags)"
  by (simp add: mq_ok_def mq_new_def msg_bytes_def)

lemma mq_ok_send:
  assumes "mq_ok q" "\<not> MSGMNB < cbytes q + length (mdata msg)" "0 < mtype msg" "length (mdata msg) \<le> MSGMAX"
  shows "mq_ok (q\<lparr>cbytes := cbytes q + length (mdata msg), messages := messages q @ [msg], recv_pollers := []\<rparr>)"
  using assms by (auto simp: mq_ok_def msg_bytes_def)

lemma msgsnd_enter_msg:
  assumes "msgsnd_enter msgp msgsz m = Inr msg"
  shows "0 < mtype msg \<and> length (mdata msg) = msgsz \<and> msgsz \<le> MSGMAX"
  using assms by (auto simp: msgsnd_enter_def Let_def split: if_splits option.splits dest: copy_from_user_length)

lemma deliver_msg_eq: "deliver_msg msgp ty bs m = copy_to_user_safe msgp (to_ne_bytes 8 (of_int ty :: u64) @ bs) m"
  by (cases "bs = []") (simp_all add: deliver_msg_def copy_to_user_append case_prod_beta prod_eq_iff)

lemma deliver_validated:
  assumes "validate_user_ptr m msgp (8 + n)" "length bs \<le> n"
  shows "fst (deliver_msg msgp ty bs m)"
    and "copy_from_user_safe (snd (deliver_msg msgp ty bs m)) msgp (8 + length bs)
      = Some (to_ne_bytes 8 (of_int ty :: u64) @ bs)"
proof -
  have v: "validate_user_ptr m msgp (8 + length bs)" using assms by (auto simp: validate_user_ptr_def)
  show "fst (deliver_msg msgp ty bs m)"
    and "copy_from_user_safe (snd (deliver_msg msgp ty bs m)) msgp (8 + length bs)
      = Some (to_ne_bytes 8 (of_int ty :: u64) @ bs)"
    unfolding deliver_msg_eq using validated_copy_to_user [OF v] by simp_all
qed

lemma mq_ok_remove:
  assumes "mq_ok q" "i < length (messages q)"
  shows "mq_ok (q\<lparr>messages := remove_at i (messages q), cbytes := cbytes q - length (mdata (messages q ! i))\<rparr>)"
  using assms sum_list_remove_at [OF assms(2), of "\<lambda>x. length (mdata x)"] set_remove_at_subset [of i "messages q"]
  by (auto simp: mq_ok_def msg_bytes_def)

text \<open>What one receive does on a buffer that passed the check.\<close>

lemma receive_from_cases:
  assumes "receive_from msgp msgsz msgtyp flags tid m q = (r, m', q', tids)" "validate_user_ptr m msgp (8 + msgsz)"
  obtains (wait) ps where "select_msg msgtyp (messages q) = None" "q' = q\<lparr>recv_pollers := ps\<rparr>" "m' = m" "tids = []"
      "r = (if flags AND IPC_NOWAIT \<noteq> 0 then Some ENOMSG else None)"
    | (big) i where "select_msg msgtyp (messages q) = Some i" "msgsz < length (mdata (messages q ! i))"
      "flags AND MSG_NOERROR = 0" "r = Some E2BIG" "q' = q" "m' = m" "tids = []"
    | (got) i where "select_msg msgtyp (messages q) = Some i"
      "msgsz < length (mdata (messages q ! i)) \<longrightarrow> flags AND MSG_NOERROR \<noteq> 0"
      "r = Some (of_nat (min msgsz (length (mdata (messages q ! i)))))"
      "q' = q\<lparr>messages := remove_at i (messages q), cbytes := cbytes q - length (mdata (messages q ! i)),
               send_pollers := []\<rparr>"
      "tids = send_pollers q"
      "copy_from_user_safe m' msgp (8 + min msgsz (length (mdata (messages q ! i))))
        = Some (to_ne_bytes 8 (of_int (mtype (messages q ! i)) :: u64) @ take msgsz (mdata (messages q ! i)))"
proof (cases "select_msg msgtyp (messages q)")
  case None
  with assms(1) show thesis
    by (intro wait [of "recv_pollers q'"]) (auto simp: receive_from_def split: if_splits)
next
  case (Some i)
  let ?msg = "messages q ! i"
  have i: "i < length (messages q)" by (rule select_msg_in_range [OF Some])
  show thesis
  proof (cases "msgsz < length (mdata ?msg)")
    case True
    show thesis
    proof (cases "flags AND MSG_NOERROR = 0")
      case True
      with assms(1) Some \<open>msgsz < _\<close> i show thesis
        by (intro big [of i]) (auto simp: receive_from_def insert_remove_at)
    next
      case False
      have len: "length (take msgsz (mdata ?msg)) \<le> msgsz" by simp
      note d = deliver_validated [OF assms(2) len, of "mtype ?msg"]
      obtain m1 where m1: "deliver_msg msgp (mtype ?msg) (take msgsz (mdata ?msg)) m = (True, m1)"
        using d(1) by (cases "deliver_msg msgp (mtype ?msg) (take msgsz (mdata ?msg)) m") auto
      from assms(1) Some True False m1 d(2) show thesis
        by (intro got [of i]) (auto simp: receive_from_def min_def)
    qed
  next
    case False
    then have len: "length (mdata ?msg) \<le> msgsz" by simp
    note d = deliver_validated [OF assms(2) len, of "mtype ?msg"]
    obtain m1 where m1: "deliver_msg msgp (mtype ?msg) (mdata ?msg) m = (True, m1)"
      using d(1) by (cases "deliver_msg msgp (mtype ?msg) (mdata ?msg) m") auto
    from assms(1) Some False m1 d(2) show thesis
      by (intro got [of i]) (auto simp: receive_from_def Let_def min_def)
  qed
qed

text \<open>
  Also when the validated length wrapped around: no message is longer than such a size, and
  then the byte count is lowered before the copy.
\<close>

lemma receive_ok_long:
  assumes "mq_ok q" "MSGMAX \<le> msgsz"
    and "receive_from msgp msgsz msgtyp flags tid m q = (r, m', q', tids)"
  shows "mq_ok q'"
proof (cases "select_msg msgtyp (messages q)")
  case None
  with assms show ?thesis by (auto simp: receive_from_def split: if_splits)
next
  case (Some i)
  have i: "i < length (messages q)" by (rule select_msg_in_range [OF Some])
  then have fits: "\<not> msgsz < length (mdata (messages q ! i))"
    using assms(1,2) nth_mem [OF i] unfolding mq_ok_def by (meson leD le_trans order_trans)
  have "mq_ok (q\<lparr>messages := remove_at i (messages q), cbytes := cbytes q - length (mdata (messages q ! i))\<rparr>)"
    by (rule mq_ok_remove [OF assms(1) i])
  moreover from this have "mq_ok (q\<lparr>messages := remove_at i (messages q),
      cbytes := cbytes q - length (mdata (messages q ! i)), send_pollers := []\<rparr>)"
    using mq_ok_fields(3) by simp
  ultimately show ?thesis
    using assms(3) Some fits by (auto simp: receive_from_def Let_def split: prod.splits bool.splits)
qed

lemma receive_ok_valid:
  assumes "mq_ok q" "validate_user_ptr m msgp (8 + msgsz)"
    and "receive_from msgp msgsz msgtyp flags tid m q = (r, m', q', tids)"
  shows "mq_ok q'"
  using assms(3,2)
proof (cases rule: receive_from_cases)
  case (wait ps)
  with assms(1) show ?thesis by simp
next
  case (got i)
  have "mq_ok (q\<lparr>messages := remove_at i (messages q), cbytes := cbytes q - length (mdata (messages q ! i))\<rparr>)"
    by (rule mq_ok_remove [OF assms(1) select_msg_in_range [OF got(1)]])
  then show ?thesis unfolding got(4) using mq_ok_fields(3) by simp
qed (use assms(1) in simp)

lemma receive_ok:
  assumes "mq_ok q" "msgrcv_enter msgp msgsz m = None"
    and "receive_from msgp msgsz msgtyp flags tid m q = (r, m', q', tids)"
  shows "mq_ok q'"
proof (cases "8 + msgsz < 2 ^ 64")
  case True
  with assms receive_ok_valid show ?thesis by (auto simp: msgrcv_enter_def split: if_splits)
next
  case False
  then have "MSGMAX \<le> msgsz" by (simp add: MSGMAX_def)
  with assms receive_ok_long show ?thesis by blast
qed

lemma mq_apply_ok:
  assumes "table_ok s" "mq_apply c (s, t) = (s', t')"
  shows "table_ok s'"
proof (cases c)
  case (MGet b key flags)
  with assms show ?thesis
    by (auto simp: sys_msgget_def mq_create_def Let_def mq_ok_new intro!: wf_intros split: if_splits option.splits)
next
  case (MCtl b i cmd buf m)
  have rm: "table_ok (s\<lparr>MSGQUEUE_TABLE := bt_remove k (MSGQUEUE_TABLE s)\<rparr>)" for k
    using assms(1) by (auto simp: table_ok_def mq_get_def)
  have set: "mq_get s b i = Some q \<Longrightarrow> mq_ok q" for q using assms(1) by (simp add: table_ok_def)
  from MCtl assms rm set show ?thesis
    by (auto simp: sys_msgctl_def Let_def case_prod_beta intro!: table_ok_put split: if_splits option.splits)
next
  case (MSnd b i msgp msgsz flags tid m)
  have q: "mq_get s b i = Some q \<Longrightarrow> mq_ok q" for q using assms(1) by (simp add: table_ok_def)
  show ?thesis
  proof (cases "msgsnd_enter msgp msgsz m")
    case (Inl e)
    with MSnd assms show ?thesis by simp
  next
    case (Inr msg)
    from msgsnd_enter_msg [OF Inr] have "0 < mtype msg" "length (mdata msg) \<le> MSGMAX" by simp_all
    with MSnd Inr assms q mq_ok_send show ?thesis
      by (auto simp: msgsnd_round_def intro!: table_ok_put split: if_splits option.splits)
  qed
next
  case (MRcv b i msgp msgsz msgtyp flags tid m)
  have q: "mq_get s b i = Some q \<Longrightarrow> mq_ok q" for q using assms(1) by (simp add: table_ok_def)
  show ?thesis
  proof (cases "msgrcv_enter msgp msgsz m")
    case None
    show ?thesis
    proof (cases "mq_get s b i")
      case (Some x)
      obtain r m' x' tids where rf: "receive_from msgp msgsz msgtyp flags tid m x = (r, m', x', tids)"
        by (metis prod_cases4)
      with MRcv None Some assms receive_ok [OF q [OF Some] None rf] show ?thesis
        by (auto simp: msgrcv_round_def intro!: table_ok_put)
    qed (use MRcv assms in \<open>auto simp: msgrcv_round_def split: option.splits\<close>)
  qed (use MRcv assms in simp)
next
  case (MCleanup b)
  have "mq_get s' b' i' = Some q \<Longrightarrow> mq_get s b' i' = Some q" for b' i' q
    using MCleanup assms(2) map_of_filter_box [of b b' "MSGQUEUE_TABLE s" i']
    by (cases "b = b'") (auto simp: cleanup_box_queues_def mq_get_def simp del: map_of_eq_None_iff dest: map_of_SomeD)
  with assms(1) show ?thesis unfolding table_ok_def by blast
qed (use assms in \<open>auto simp: msgqueue_add_recv_poller_def msgqueue_add_send_poller_def table_ok_def split: option.splits if_splits\<close>)

lemma mq_fold_ok: "table_ok s \<Longrightarrow> table_ok (fst (fold mq_apply cs (s, t)))"
proof (induction cs arbitrary: s t)
  case (Cons c cs)
  obtain s1 t1 where "mq_apply c (s, t) = (s1, t1)" by fastforce
  with Cons mq_apply_ok show ?case by simp
qed simp

lemma mq_fold_frame:
  "\<forall>c \<in> set cs. call_box c \<noteq> b \<Longrightarrow> mq_get (fst (fold mq_apply cs (s, t))) b i = mq_get s b i"
proof (induction cs arbitrary: s t)
  case (Cons c cs)
  obtain s1 t1 where "mq_apply c (s, t) = (s1, t1)" by fastforce
  with Cons mq_call_frame [of c b s t s1 t1 i] show ?case by simp
qed simp

section \<open>Properties\<close>

text \<open>C25: boxes are isolated: whatever sequence of \<open>msgget\<close>, \<open>msgctl\<close>, \<open>msgsnd\<close>, \<open>msgrcv\<close>, poller and
  clean-up calls other boxes make, every queue of a box stays exactly as it was, and the
  identifiers that the box did not have stay unknown to it.\<close>

theorem msgq_box_isolated:
  assumes "\<forall>c \<in> set cs. call_box c \<noteq> b"
  shows "mq_get (fst (fold mq_apply cs (s, t))) b = mq_get s b"
  using mq_fold_frame [OF assms] by (intro ext) simp

theorem msgq_box_isolated_witness:
  "mq_get (fst (fold mq_apply [MGet 2 7 IPC_CREAT, MCtl 2 1 IPC_RMID 0 Map.empty, MCleanup 3]
       (snd (sys_msgget 1 7 IPC_CREAT msg_table_new), threads_new))) 1
   = mq_get (snd (sys_msgget 1 7 IPC_CREAT msg_table_new)) 1"
  by (rule msgq_box_isolated) simp




text \<open>A copy that faults in a later round, after the buffer was unmapped, loses the message.\<close>

lemma faulting_receive_loses_message:
  assumes "select_msg msgtyp (messages q) = Some i" "length (mdata (messages q ! i)) \<le> msgsz"
    and "\<not> fst (deliver_msg msgp (mtype (messages q ! i)) (mdata (messages q ! i)) m)"
  shows "fst (receive_from msgp msgsz msgtyp flags tid m q) = Some EFAULT"
    and "messages (fst (snd (snd (receive_from msgp msgsz msgtyp flags tid m q)))) = remove_at i (messages q)"
  using assms by (simp_all add: receive_from_def Let_def case_prod_beta split: bool.split)

end
