(* ===== verification/Ipc_Pipe.thy ===== *)
theory Ipc_Pipe
  imports Ipc_Wait
begin

text \<open>
  Kernel pipes: \<open>src/syscall/pipe.rs\<close>, with the pipe branches of \<open>sys_read\<close> and \<open>sys_write\<close> in
  \<open>src/syscall/fs.rs\<close>. The table of pipes is a map from identifiers; reader and writer counts are
  32-bit and saturate on close as in the code. Every operation runs with interrupts disabled
  and under the table's lock, so it is one step. Writing to a pipe without readers raises
  SIGPIPE; when its default action ends the process the call does not return (\<open>None\<close>).
\<close>

section \<open>The pipe table\<close>

record kernel_pipe =
  buffer :: bytes
  write_count :: u32
  read_count :: u32
  pipe_pollers :: "nat list"

record pipes =
  PIPES :: "u32 \<Rightarrow> kernel_pipe option"
  NEXT_PIPE_ID :: u32

definition pipes_new :: pipes where
  "pipes_new = \<lparr>PIPES = Map.empty, NEXT_PIPE_ID = 1\<rparr>"

definition pipe_put :: "u32 \<Rightarrow> kernel_pipe \<Rightarrow> pipes \<Rightarrow> pipes" where
  "pipe_put pipe_id p s = s\<lparr>PIPES := (PIPES s)(pipe_id \<mapsto> p)\<rparr>"

definition pipe_create :: "pipes \<Rightarrow> u32 \<times> pipes" where
  "pipe_create s =
     (let pipe_id = NEXT_PIPE_ID s in
      (pipe_id, pipe_put pipe_id \<lparr>buffer = [], write_count = 1, read_count = 1, pipe_pollers = []\<rparr>
             (s\<lparr>NEXT_PIPE_ID := pipe_id + 1\<rparr>)))"

definition pipe_clone_ref :: "u32 \<Rightarrow> bool \<Rightarrow> pipes \<Rightarrow> pipes" where
  "pipe_clone_ref pipe_id is_write s =
     (case PIPES s pipe_id of
        None \<Rightarrow> s
      | Some p \<Rightarrow>
          if is_write then pipe_put pipe_id (p\<lparr>write_count := write_count p + 1\<rparr>) s
          else pipe_put pipe_id (p\<lparr>read_count := read_count p + 1\<rparr>) s)"

definition pipe_add_poller :: "u32 \<Rightarrow> nat \<Rightarrow> pipes \<Rightarrow> pipes" where
  "pipe_add_poller pipe_id tid s =
     (case PIPES s pipe_id of
        None \<Rightarrow> s
      | Some p \<Rightarrow> pipe_put pipe_id (p\<lparr>pipe_pollers := bs_insert tid (pipe_pollers p)\<rparr>) s)"

definition pipe_write ::
    "(nat \<Rightarrow> signal_table option) \<Rightarrow> u32 \<Rightarrow> bytes \<Rightarrow> pipes \<Rightarrow> threads \<Rightarrow> (u64 + nat) option \<times> pipes \<times> threads" where
  "pipe_write table_of pipe_id data s t =
     (case PIPES s pipe_id of
        None \<Rightarrow> (Some (Inl EPIPE), s, t)
      | Some p \<Rightarrow>
          if read_count p = 0
          then (case send_sigpipe table_of t of
                  (ExitGroup _, t1) \<Rightarrow> (None, s, t1)
                | (Returns _, t1) \<Rightarrow> (Some (Inl EPIPE), s, t1))
          else (Some (Inr (length data)),
                pipe_put pipe_id (p\<lparr>buffer := buffer p @ data, pipe_pollers := []\<rparr>) s,
                wake_all (pipe_pollers p) t))"

text \<open>What was read, and whether the pipe is at its end.\<close>

definition pipe_read :: "u32 \<Rightarrow> nat \<Rightarrow> pipes \<Rightarrow> bytes \<times> bool \<times> pipes" where
  "pipe_read pipe_id len s =
     (case PIPES s pipe_id of
        None \<Rightarrow> ([], True, s)
      | Some p \<Rightarrow>
          let n = min len (length (buffer p)) in
          if 0 < n then (take n (buffer p), False, pipe_put pipe_id (p\<lparr>buffer := drop n (buffer p)\<rparr>) s)
          else if write_count p = 0 then ([], True, s)
          else ([], False, s))"

definition pipe_close_write :: "u32 \<Rightarrow> pipes \<Rightarrow> threads \<Rightarrow> pipes \<times> threads" where
  "pipe_close_write pipe_id s t =
     (case PIPES s pipe_id of
        None \<Rightarrow> (s, t)
      | Some p \<Rightarrow>
          let p1 = p\<lparr>write_count := sat_sub (write_count p) 1\<rparr>;
              (p2, t2) = (if write_count p1 = 0
                          then (p1\<lparr>pipe_pollers := []\<rparr>, wake_all (pipe_pollers p1) t) else (p1, t))
          in if write_count p2 = 0 \<and> read_count p2 = 0
             then (s\<lparr>PIPES := (PIPES s)(pipe_id := None)\<rparr>, t2)
             else (pipe_put pipe_id p2 s, t2))"

definition pipe_close_read :: "u32 \<Rightarrow> pipes \<Rightarrow> pipes" where
  "pipe_close_read pipe_id s =
     (case PIPES s pipe_id of
        None \<Rightarrow> s
      | Some p \<Rightarrow>
          let p1 = p\<lparr>read_count := sat_sub (read_count p) 1\<rparr>
          in if write_count p1 = 0 \<and> read_count p1 = 0
             then s\<lparr>PIPES := (PIPES s)(pipe_id := None)\<rparr>
             else pipe_put pipe_id p1 s)"

definition pipe_check_set_reader :: "u32 \<Rightarrow> nat \<Rightarrow> pipes \<Rightarrow> bool \<times> pipes" where
  "pipe_check_set_reader pipe_id tid s =
     (case PIPES s pipe_id of
        None \<Rightarrow> (True, s)
      | Some p \<Rightarrow>
          if buffer p \<noteq> [] \<or> write_count p = 0 then (True, s)
          else (False, pipe_put pipe_id (p\<lparr>pipe_pollers := bs_insert tid (pipe_pollers p)\<rparr>) s))"

definition pipe_is_poller_registered :: "pipes \<Rightarrow> u32 \<Rightarrow> nat \<Rightarrow> bool" where
  "pipe_is_poller_registered s pipe_id tid =
     (case PIPES s pipe_id of None \<Rightarrow> False | Some p \<Rightarrow> tid \<in> set (pipe_pollers p))"

definition pipe_pollers_count :: "pipes \<Rightarrow> u32 \<Rightarrow> nat" where
  "pipe_pollers_count s pipe_id = (case PIPES s pipe_id of None \<Rightarrow> 0 | Some p \<Rightarrow> length (pipe_pollers p))"

definition pipe_can_read :: "pipes \<Rightarrow> u32 \<Rightarrow> bool" where
  "pipe_can_read s pipe_id = (case PIPES s pipe_id of None \<Rightarrow> False | Some p \<Rightarrow> buffer p \<noteq> [] \<or> write_count p = 0)"

definition pipe_bytes_available :: "pipes \<Rightarrow> u32 \<Rightarrow> nat" where
  "pipe_bytes_available s pipe_id = (case PIPES s pipe_id of None \<Rightarrow> 0 | Some p \<Rightarrow> length (buffer p))"

definition pipe_can_write :: "pipes \<Rightarrow> u32 \<Rightarrow> bool" where
  "pipe_can_write s pipe_id = (case PIPES s pipe_id of None \<Rightarrow> False | Some p \<Rightarrow> 0 < read_count p)"

section \<open>Reading and writing through a descriptor\<close>

text \<open>One round of the loop a \<open>read\<close> on a pipe runs: return a value, sleep, or go round again.\<close>

datatype round = Done u64 | Sleep | Again

definition read_round ::
    "bool \<Rightarrow> bool \<Rightarrow> nat \<Rightarrow> u32 \<Rightarrow> u64 \<Rightarrow> nat \<Rightarrow> user_mem \<Rightarrow> pipes \<Rightarrow> round \<times> user_mem \<times> pipes" where
  "read_round nonblock interrupted tid pipe_id buf_ptr count m s =
     (case pipe_read pipe_id count s of
        (data, eof, s1) \<Rightarrow>
          if data \<noteq> []
          then (case copy_to_user_safe buf_ptr data m of
                  (ok, m1) \<Rightarrow> (Done (if ok then of_nat (length data) else EFAULT), m1, s1))
          else if eof then (Done 0, m, s1)
          else if nonblock then (Done EAGAIN, m, s1)
          else if interrupted then (Done EINTR, m, s1)
          else case pipe_check_set_reader pipe_id tid s1 of
                 (ready, s2) \<Rightarrow> (if ready then Again else Sleep, m, s2))"

text \<open>The chunk size of \<open>sys_write\<close>.\<close>

definition WRITE_CHUNK :: nat where
  "WRITE_CHUNK = 64 * 1024"

text \<open>
  The loop of \<open>sys_write\<close> on a pipe, from \<open>total_written\<close> on; \<open>None\<close> when SIGPIPE ended the
  process. A fault or an error after some bytes went out reports those bytes.
\<close>

function write_loop ::
    "(nat \<Rightarrow> signal_table option) \<Rightarrow> u32 \<Rightarrow> user_mem \<Rightarrow> u64 \<Rightarrow> nat \<Rightarrow> nat \<Rightarrow> pipes \<Rightarrow> threads
     \<Rightarrow> u64 option \<times> pipes \<times> threads" where
  "write_loop table_of pipe_id m buf_ptr count total_written s t =
     (if count \<le> total_written then (Some (of_nat total_written), s, t)
      else let this_chunk = min (count - total_written) (min count WRITE_CHUNK) in
        case copy_from_user_safe m (buf_ptr + of_nat total_written) this_chunk of
          None \<Rightarrow> (Some (if 0 < total_written then of_nat total_written else EFAULT), s, t)
        | Some data \<Rightarrow>
            (case pipe_write table_of pipe_id data s t of
               (None, s1, t1) \<Rightarrow> (None, s1, t1)
             | (Some (Inl e), s1, t1) \<Rightarrow> (Some (if 0 < total_written then of_nat total_written else e), s1, t1)
             | (Some (Inr n), s1, t1) \<Rightarrow>
                 if n < this_chunk then (Some (of_nat (total_written + n)), s1, t1)
                 else write_loop table_of pipe_id m buf_ptr count (total_written + n) s1 t1))"
  by pat_completeness auto
termination
  by (relation "measure (\<lambda>(_, _, _, _, count, total_written, _). count - total_written)")
    (auto simp: WRITE_CHUNK_def)

declare write_loop.simps [simp del]

section \<open>Sequences of operations\<close>

datatype pipe_op =
    OpCreate | OpClone u32 bool | OpPoll u32 nat | OpWrite u32 bytes | OpRead u32 nat
  | OpCloseWrite u32 | OpCloseRead u32 | OpCheck u32 nat

fun pipe_apply :: "(nat \<Rightarrow> signal_table option) \<Rightarrow> pipe_op \<Rightarrow> pipes \<times> threads \<Rightarrow> pipes \<times> threads" where
  "pipe_apply _ OpCreate (s, t) = (snd (pipe_create s), t)"
| "pipe_apply _ (OpClone k w) (s, t) = (pipe_clone_ref k w s, t)"
| "pipe_apply _ (OpPoll k tid) (s, t) = (pipe_add_poller k tid s, t)"
| "pipe_apply tbl (OpWrite k data) (s, t) = snd (pipe_write tbl k data s t)"
| "pipe_apply _ (OpRead k n) (s, t) = (snd (snd (pipe_read k n s)), t)"
| "pipe_apply _ (OpCloseWrite k) (s, t) = pipe_close_write k s t"
| "pipe_apply _ (OpCloseRead k) (s, t) = (pipe_close_read k s, t)"
| "pipe_apply _ (OpCheck k tid) (s, t) = (snd (pipe_check_set_reader k tid s), t)"

text \<open>
  Identifiers are handed out in order and ends are counted in 32 bits. A run does nothing at
  the point where either would wrap around, after some four thousand million operations.
\<close>

fun exhausted :: "pipe_op \<Rightarrow> pipes \<Rightarrow> bool" where
  "exhausted OpCreate s \<longleftrightarrow> NEXT_PIPE_ID s = - 1"
| "exhausted (OpClone k w) s \<longleftrightarrow>
     (case PIPES s k of Some p \<Rightarrow> (if w then write_count p else read_count p) = - 1 | None \<Rightarrow> False)"
| "exhausted _ s \<longleftrightarrow> False"

definition pipe_step :: "(nat \<Rightarrow> signal_table option) \<Rightarrow> pipe_op \<Rightarrow> pipes \<times> threads \<Rightarrow> pipes \<times> threads" where
  "pipe_step tbl op st = (if exhausted op (fst st) then st else pipe_apply tbl op st)"

text \<open>The bytes an operation puts into a pipe and takes out of it.\<close>

fun pipe_in :: "(nat \<Rightarrow> signal_table option) \<Rightarrow> u32 \<Rightarrow> pipe_op \<Rightarrow> pipes \<times> threads \<Rightarrow> bytes" where
  "pipe_in tbl k (OpWrite k' data) (s, t) =
     (if k' = k then case fst (pipe_write tbl k data s t) of Some (Inr _) \<Rightarrow> data | _ \<Rightarrow> [] else [])"
| "pipe_in _ _ _ _ = []"

fun pipe_out :: "u32 \<Rightarrow> pipe_op \<Rightarrow> pipes \<times> threads \<Rightarrow> bytes" where
  "pipe_out k (OpRead k' n) (s, t) = (if k' = k then fst (pipe_read k n s) else [])"
| "pipe_out _ _ _ = []"

fun pipe_log :: "(nat \<Rightarrow> signal_table option) \<Rightarrow> u32 \<Rightarrow> pipe_op list \<Rightarrow> pipes \<times> threads \<Rightarrow> bytes \<times> bytes" where
  "pipe_log tbl k [] st = ([], [])"
| "pipe_log tbl k (op # ops) st =
     (case pipe_log tbl k ops (pipe_step tbl op st) of
        (ins, outs) \<Rightarrow> (pipe_in tbl k op st @ ins, pipe_out k op st @ outs))"

definition pipe_stream :: "pipes \<Rightarrow> u32 \<Rightarrow> bytes" where
  "pipe_stream s k = (case PIPES s k of Some p \<Rightarrow> buffer p | None \<Rightarrow> [])"

lemma pipe_put_simps [simp]:
  "PIPES (pipe_put k p s) = (PIPES s)(k \<mapsto> p)" "NEXT_PIPE_ID (pipe_put k p s) = NEXT_PIPE_ID s"
  by (simp_all add: pipe_put_def)

lemmas pipe_defs = pipe_create_def pipe_clone_ref_def pipe_add_poller_def pipe_write_def pipe_read_def
  pipe_close_write_def pipe_close_read_def pipe_check_set_reader_def

lemma pipe_step_next:
  assumes "k < NEXT_PIPE_ID s"
  shows "k < NEXT_PIPE_ID (fst (pipe_step tbl op (s, t)))"
proof (cases op)
  case OpCreate
  then show ?thesis using assms succ_greater by (auto simp: pipe_step_def pipe_create_def Let_def  split: if_splits)
next
  case (OpClone k' w)
  then show ?thesis using assms succ_greater by (auto simp: pipe_step_def pipe_clone_ref_def  split: if_splits option.splits)
next
  case (OpPoll k' tid)
  then show ?thesis using assms succ_greater by (auto simp: pipe_step_def pipe_add_poller_def  split: if_splits option.splits)
next
  case (OpWrite k' data)
  then show ?thesis using assms succ_greater by (auto simp: pipe_step_def pipe_write_def case_prod_beta  split: if_splits option.splits tkill_result.splits)
next
  case (OpRead k' n)
  then show ?thesis using assms succ_greater by (auto simp: pipe_step_def pipe_read_def Let_def  split: if_splits option.splits)
next
  case (OpCloseWrite k')
  then show ?thesis using assms succ_greater by (auto simp: pipe_step_def pipe_close_write_def Let_def  split: if_splits option.splits)
next
  case (OpCloseRead k')
  then show ?thesis using assms succ_greater by (auto simp: pipe_step_def pipe_close_read_def Let_def  split: if_splits option.splits)
next
  case (OpCheck k' tid)
  then show ?thesis using assms succ_greater by (auto simp: pipe_step_def pipe_check_set_reader_def  split: if_splits option.splits)
qed

lemma pipe_step_stream:
  assumes "k < NEXT_PIPE_ID s"
  shows "(case PIPES (fst (pipe_step tbl op (s, t))) k of
      Some p' \<Rightarrow> PIPES s k \<noteq> None
        \<and> pipe_stream s k @ pipe_in tbl k op (s, t) = pipe_out k op (s, t) @ buffer p'
    | None \<Rightarrow> pipe_in tbl k op (s, t) = [] \<and> pipe_out k op (s, t) = [])"
proof (cases op)
  case OpCreate
  then show ?thesis using assms by (auto simp: pipe_step_def pipe_create_def Let_def pipe_stream_def split: if_splits option.splits)
next
  case (OpClone k' w)
  then show ?thesis using assms by (auto simp: pipe_step_def pipe_clone_ref_def pipe_stream_def split: if_splits option.splits)
next
  case (OpPoll k' tid)
  then show ?thesis using assms by (auto simp: pipe_step_def pipe_add_poller_def pipe_stream_def split: if_splits option.splits)
next
  case (OpWrite k' data)
  then show ?thesis using assms by (auto simp: pipe_step_def pipe_write_def case_prod_beta pipe_stream_def split: if_splits option.splits tkill_result.splits)
next
  case (OpRead k' n)
  then show ?thesis using assms by (auto simp: pipe_step_def pipe_read_def Let_def pipe_stream_def split: if_splits option.splits)
next
  case (OpCloseWrite k')
  then show ?thesis using assms by (auto simp: pipe_step_def pipe_close_write_def Let_def pipe_stream_def split: if_splits option.splits)
next
  case (OpCloseRead k')
  then show ?thesis using assms by (auto simp: pipe_step_def pipe_close_read_def Let_def pipe_stream_def split: if_splits option.splits)
next
  case (OpCheck k' tid)
  then show ?thesis using assms by (auto simp: pipe_step_def pipe_check_set_reader_def pipe_stream_def split: if_splits option.splits)
qed

text \<open>A destroyed pipe stays destroyed.\<close>

definition pipe_gone :: "(nat \<Rightarrow> signal_table option) \<Rightarrow> u32 \<Rightarrow> pipe_op list \<Rightarrow> pipes \<times> threads \<Rightarrow> bool" where
  "pipe_gone tbl k ops st \<longleftrightarrow> PIPES (fst (fold (pipe_step tbl) ops st)) k = None"

lemma pipe_gone_stays:
  "PIPES (fst st) k = None \<Longrightarrow> k < NEXT_PIPE_ID (fst st) \<Longrightarrow> pipe_gone tbl k ops st"
proof (induction ops arbitrary: st)
  case (Cons op ops)
  obtain s t where st: "st = (s, t)" by fastforce
  have "PIPES (fst (pipe_step tbl op st)) k = None"
    using pipe_step_stream [of k s tbl op t] Cons.prems st by (auto split: option.splits)
  moreover have "k < NEXT_PIPE_ID (fst (pipe_step tbl op st))" using pipe_step_next Cons.prems(2) st by simp
  ultimately show ?case using Cons.IH by (simp add: pipe_gone_def)
qed (simp add: pipe_gone_def)

lemma pipe_log_stream:
  assumes "k < NEXT_PIPE_ID (fst st)" "pipe_log tbl k ops st = (ins, outs)"
  shows "\<exists>rest. pipe_stream (fst st) k @ ins = outs @ rest
    \<and> (case PIPES (fst (fold (pipe_step tbl) ops st)) k of Some p' \<Rightarrow> rest = buffer p' | None \<Rightarrow> True)
    \<and> (PIPES (fst st) k = None \<longrightarrow> ins = [])"
  using assms
proof (induction ops arbitrary: st ins outs)
  case Nil
  then show ?case by (cases "PIPES (fst st) k") (simp_all add: pipe_stream_def)
next
  case (Cons op ops)
  obtain s t where st: "st = (s, t)" by fastforce
  let ?st = "pipe_step tbl op st"
  have next_id: "k < NEXT_PIPE_ID (fst ?st)" using pipe_step_next Cons.prems(1) st by simp
  obtain ins' outs' where log: "pipe_log tbl k ops ?st = (ins', outs')" by fastforce
  with Cons.prems(2) have io: "ins = pipe_in tbl k op st @ ins'" "outs = pipe_out k op st @ outs'" by auto
  obtain rest where
    IH: "pipe_stream (fst ?st) k @ ins' = outs' @ rest"
      "case PIPES (fst (fold (pipe_step tbl) ops ?st)) k of Some p' \<Rightarrow> rest = buffer p' | None \<Rightarrow> True"
      "PIPES (fst ?st) k = None \<longrightarrow> ins' = []"
    using Cons.IH [OF next_id log] by (elim exE conjE) (rule that)
  have step: "case PIPES (fst ?st) k of
      Some p' \<Rightarrow> PIPES (fst st) k \<noteq> None
        \<and> pipe_stream (fst st) k @ pipe_in tbl k op st = pipe_out k op st @ buffer p'
    | None \<Rightarrow> pipe_in tbl k op st = [] \<and> pipe_out k op st = []"
    unfolding st fst_conv by (rule pipe_step_stream) (use Cons.prems(1) st in simp)
  show ?case
  proof (cases "PIPES (fst ?st) k")
    case None
    then have "pipe_stream (fst ?st) k = []" "pipe_in tbl k op st = []" "pipe_out k op st = []" "ins' = []"
      using step IH(3) by (simp_all add: pipe_stream_def)
    with IH(1) io have "ins = []" "outs = []" "rest = []" by simp_all
    moreover have "pipe_gone tbl k ops ?st" using None next_id by (rule pipe_gone_stays)
    ultimately show ?thesis by (simp add: pipe_gone_def)
  next
    case (Some p')
    then have st: "PIPES (fst st) k \<noteq> None" and eq: "pipe_stream (fst st) k @ pipe_in tbl k op st = pipe_out k op st @ buffer p'"
      using step by simp_all
    have "pipe_stream (fst st) k @ ins = (pipe_stream (fst st) k @ pipe_in tbl k op st) @ ins'" by (simp add: io)
    also have "\<dots> = pipe_out k op st @ pipe_stream (fst ?st) k @ ins'" using eq Some by (simp add: pipe_stream_def)
    also have "\<dots> = outs @ rest" by (simp only: IH(1) io append_assoc)
    finally show ?thesis using IH(2) st by auto
  qed
qed

section \<open>Pipes as objects to wait on\<close>

definition pipe_waits :: "u32 \<Rightarrow> nat \<Rightarrow> pipes \<Rightarrow> bool" where
  "pipe_waits k tid s \<longleftrightarrow> k < NEXT_PIPE_ID s \<and>
     (case PIPES s k of Some p \<Rightarrow> tid \<in> set (pipe_pollers p) \<and> buffer p = [] \<and> write_count p \<noteq> 0 | None \<Rightarrow> False)"

lemma pipe_keeps_or_wakes:
  assumes "tid < MAX_THREADS" "pipe_waits k tid s" "pipe_step tbl op (s, t) = (s', t')"
  shows "pipe_waits k tid s' \<or> woken tid t'"
proof -
  have next_id: "k < NEXT_PIPE_ID s'" using pipe_step_next [of k s tbl op t] assms(2,3) by (simp add: pipe_waits_def)
  have no_wrap: "(x :: u32) \<noteq> - 1 \<Longrightarrow> x + 1 \<noteq> 0" for x by (metis eq_neg_iff_add_eq_0)
  from assms(2) obtain p where p: "PIPES s k = Some p" "tid \<in> set (pipe_pollers p)" "buffer p = []" "write_count p \<noteq> 0"
    "k < NEXT_PIPE_ID s"
    by (auto simp: pipe_waits_def split: option.splits)
  show ?thesis
  proof (cases op)
    case OpCreate
    with assms(1,3) p next_id no_wrap show ?thesis
      by (auto simp: pipe_waits_def pipe_step_def pipe_create_def Let_def succ_greater split: if_splits)
  next
    case (OpClone k' w)
    with assms(1,3) p next_id no_wrap show ?thesis
      by (auto simp: pipe_waits_def pipe_step_def pipe_clone_ref_def split: if_splits option.splits)
  next
    case (OpPoll k' tid')
    with assms(1,3) p next_id no_wrap show ?thesis
      by (auto simp: pipe_waits_def pipe_step_def pipe_add_poller_def split: if_splits option.splits)
  next
    case (OpWrite k' data)
    with assms(1,3) p next_id no_wrap show ?thesis
      by (auto simp: pipe_waits_def pipe_step_def pipe_write_def case_prod_beta wake_all_wakes split: if_splits option.splits tkill_result.splits)
  next
    case (OpRead k' n)
    with assms(1,3) p next_id no_wrap show ?thesis
      by (auto simp: pipe_waits_def pipe_step_def pipe_read_def Let_def split: if_splits option.splits)
  next
    case (OpCloseWrite k')
    with assms(1,3) p next_id no_wrap show ?thesis
      by (auto simp: pipe_waits_def pipe_step_def pipe_close_write_def Let_def wake_all_wakes split: if_splits option.splits)
  next
    case (OpCloseRead k')
    with assms(1,3) p next_id no_wrap show ?thesis
      by (auto simp: pipe_waits_def pipe_step_def pipe_close_read_def Let_def split: if_splits option.splits)
  next
    case (OpCheck k' tid')
    with assms(1,3) p next_id no_wrap show ?thesis
      by (auto simp: pipe_waits_def pipe_step_def pipe_check_set_reader_def split: if_splits option.splits)
  qed
qed

lemma pipe_stays_woken:
  assumes "woken tid t" "pipe_step tbl op (s, t) = (s', t')"
  shows "woken tid t'"
proof (cases op)
  case (OpWrite k data)
  with assms woken_wake_all [OF assms(1)] woken_sigpipe [OF assms(1), of tbl] show ?thesis
    by (auto simp: pipe_step_def pipe_write_def case_prod_beta split: option.splits if_splits tkill_result.splits)
next
  case (OpCloseWrite k)
  with assms woken_wake_all [OF assms(1)] show ?thesis
    by (auto simp: pipe_step_def pipe_close_write_def Let_def split: option.splits if_splits)
qed (use assms in \<open>auto simp: pipe_step_def split: if_splits\<close>)

interpretation pipe_obj: wait_object "pipe_step tbl" "pipe_waits k" for tbl k
  by unfold_locales (rule pipe_keeps_or_wakes pipe_stays_woken; assumption)+

lemma read_round_sleeps:
  assumes "read_round nb intr tid k buf_ptr count m s = (Sleep, m', s')" "k < NEXT_PIPE_ID s"
  shows "pipe_waits k tid s' \<and> m' = m"
  using assms
  by (auto simp: read_round_def pipe_read_def pipe_check_set_reader_def pipe_waits_def Let_def case_prod_beta
      split: option.splits if_splits)

lemma waiting_round_sleeps:
  assumes "pipe_waits k tid s"
  shows "fst (read_round False False tid' k buf_ptr count m s) = Sleep"
  using assms
  by (auto simp: read_round_def pipe_read_def pipe_check_set_reader_def pipe_waits_def Let_def split: option.splits)

text \<open>Writing a whole user buffer, chunk by chunk.\<close>

lemma write_loop_all:
  assumes "copy_from_user_safe m (buf_ptr + of_nat total_written) (count - total_written) = Some data"
    and "PIPES s k = Some p" "read_count p \<noteq> 0" "total_written \<le> count"
  shows "\<exists>t'. write_loop tbl k m buf_ptr count total_written s t =
    (Some (of_nat count),
     (if data = [] then s else pipe_put k (p\<lparr>buffer := buffer p @ data, pipe_pollers := []\<rparr>) s), t')
    \<and> (\<forall>tid. woken tid t \<longrightarrow> woken tid t')
    \<and> (data \<noteq> [] \<longrightarrow> (\<forall>tid \<in> set (pipe_pollers p). tid < MAX_THREADS \<longrightarrow> woken tid t'))"
  using assms
proof (induction tbl k m buf_ptr count total_written s t arbitrary: data p rule: write_loop.induct)
  case (1 tbl k m buf_ptr count total_written s t)
  show ?case
  proof (cases "count \<le> total_written")
    case True
    with "1.prems" show ?thesis by (simp add: write_loop.simps)
  next
    case False
    define c where "c = min (count - total_written) (min count WRITE_CHUNK)"
    have c: "0 < c" "count - total_written = c + (count - (total_written + c))"
      using False by (auto simp: c_def WRITE_CHUNK_def)
    from "1.prems"(1) [unfolded c(2) copy_from_user_append] obtain xs ys where
      xs: "copy_from_user_safe m (buf_ptr + of_nat total_written) c = Some xs"
      and ys: "copy_from_user_safe m (buf_ptr + of_nat (total_written + c)) (count - (total_written + c)) = Some ys"
      and data: "data = xs @ ys" by (auto simp: add.assoc split: option.splits)
    have len: "length xs = c" by (rule copy_from_user_length [OF xs])
    let ?p = "p\<lparr>buffer := buffer p @ xs, pipe_pollers := []\<rparr>"
    have w: "pipe_write tbl k xs s t = (Some (Inr c), pipe_put k ?p s, wake_all (pipe_pollers p) t)"
      using "1.prems"(2,3) len by (simp add: pipe_write_def)
    have "\<exists>t'. write_loop tbl k m buf_ptr count (total_written + c) (pipe_put k ?p s) (wake_all (pipe_pollers p) t) =
        (Some (of_nat count), (if ys = [] then pipe_put k ?p s
           else pipe_put k (?p\<lparr>buffer := buffer ?p @ ys, pipe_pollers := []\<rparr>) (pipe_put k ?p s)), t')
        \<and> (\<forall>tid. woken tid (wake_all (pipe_pollers p) t) \<longrightarrow> woken tid t')
        \<and> (ys \<noteq> [] \<longrightarrow> (\<forall>tid \<in> set (pipe_pollers ?p). tid < MAX_THREADS \<longrightarrow> woken tid t'))"
      by (rule "1.IH" [OF False c_def xs w [symmetric] refl refl refl _ ys]) (use "1.prems"(3) c False in auto)
    moreover have "write_loop tbl k m buf_ptr count total_written s t =
        write_loop tbl k m buf_ptr count (total_written + c) (pipe_put k ?p s) (wake_all (pipe_pollers p) t)"
      using False w xs by (subst write_loop.simps) (simp add: Let_def c_def [symmetric])
    moreover have "data \<noteq> []" using data len c by auto
    ultimately show ?thesis using data woken_wake_all wake_all_wakes by (auto simp: pipe_put_def)
  qed
qed

section \<open>Properties\<close>

text \<open>
  C19: A pipe is a queue of bytes: over any sequence of operations by any threads, what is read
  from it is what was in it and what was written to it, in order, nothing lost, repeated or
  made up; while the pipe exists, what has not been read yet is still in its buffer.
\<close>

theorem pipe_fifo:
  assumes "PIPES s k = Some p" "k < NEXT_PIPE_ID s"
    and "pipe_log tbl k ops (s, t) = (ins, outs)" "fold (pipe_step tbl) ops (s, t) = (s', t')"
  shows "\<exists>rest. buffer p @ ins = outs @ rest \<and> (\<forall>p'. PIPES s' k = Some p' \<longrightarrow> rest = buffer p')"
  using pipe_log_stream [of k "(s, t)" tbl ops ins outs] assms by (auto simp: pipe_stream_def)

definition one_pipe :: pipes where
  "one_pipe = snd (pipe_create pipes_new)"

lemma one_pipe_eq:
  "PIPES one_pipe = [1 \<mapsto> \<lparr>buffer = [], write_count = 1, read_count = 1, pipe_pollers = []\<rparr>]" "NEXT_PIPE_ID one_pipe = 2"
  by (simp_all add: one_pipe_def pipe_create_def pipes_new_def Let_def)

theorem pipe_fifo_witness:
  "\<exists>ins outs st. pipe_log (\<lambda>_. None) 1 [OpWrite 1 [7, 8, 9], OpRead 1 2] (one_pipe, threads_new) = (ins, outs)
    \<and> fold (pipe_step (\<lambda>_. None)) [OpWrite 1 [7, 8, 9], OpRead 1 2] (one_pipe, threads_new) = st
    \<and> (\<exists>rest. ins = outs @ rest \<and> (\<forall>p'. PIPES (fst st) 1 = Some p' \<longrightarrow> rest = buffer p'))"
proof -
  let ?ops = "[OpWrite 1 [7, 8, 9], OpRead 1 2]" and ?tbl = "\<lambda>_. None"
  obtain ins outs where log: "pipe_log ?tbl 1 ?ops (one_pipe, threads_new) = (ins, outs)" by fastforce
  obtain s' t' where run: "fold (pipe_step ?tbl) ?ops (one_pipe, threads_new) = (s', t')" by fastforce
  from pipe_fifo [OF _ _ log run] show ?thesis using log run by (simp add: one_pipe_eq)
qed

text \<open>
  C20: No wake-up of a sleeping reader is lost. Once a \<open>read\<close> on a pipe has decided to sleep,
  then whatever operations other threads perform on the pipes, as soon as the read could return
  (bytes have arrived, the last writer has gone, the pipe is destroyed) the thread has been woken.
\<close>

theorem pipe_reader_woken:
  assumes "tid < MAX_THREADS" "k < NEXT_PIPE_ID s"
    and "read_round nonblock interrupted tid k buf_ptr count m s = (Sleep, m1, s1)"
    and "fold (pipe_step tbl) ops (s1, t) = (s2, t2)"
    and "fst (read_round False False tid k buf_ptr count m1 s2) \<noteq> Sleep"
  shows "woken tid t2"
proof -
  have "pipe_waits k tid s1" using read_round_sleeps [OF assms(3,2)] by simp
  moreover have "\<not> pipe_waits k tid s2" using waiting_round_sleeps assms(5) by blast
  ultimately show ?thesis using pipe_obj.ready_implies_woken [OF assms(1) _ assms(4)] by blast
qed

theorem pipe_reader_woken_witness:
  "\<exists>s1 s2 t2. read_round False False 5 1 0x2000 4 one_page one_pipe = (Sleep, one_page, s1)
    \<and> fold (pipe_step (\<lambda>_. None)) [OpWrite 1 [7]] (s1, threads_new) = (s2, t2) \<and> woken 5 t2"
proof -
  let ?tbl = "\<lambda>_. None"
  let ?p = "\<lparr>buffer = [], write_count = 1, read_count = 1, pipe_pollers = [5]\<rparr>"
  have r: "read_round False False 5 1 0x2000 4 one_page one_pipe = (Sleep, one_page, pipe_put 1 ?p one_pipe)"
    by (simp add: read_round_def pipe_read_def pipe_check_set_reader_def one_pipe_eq bs_insert_def insort_insert_key_def)
  let ?st = "(pipe_put 1 (?p\<lparr>buffer := [7], pipe_pollers := []\<rparr>) (pipe_put 1 ?p one_pipe), wake_all [5] threads_new)"
  have run: "fold (pipe_step ?tbl) [OpWrite 1 [7]] (pipe_put 1 ?p one_pipe, threads_new) = ?st"
    by (simp add: pipe_step_def pipe_write_def)
  have "fst (read_round False False 5 1 0x2000 4 one_page (fst ?st)) \<noteq> Sleep"
    by (simp add: read_round_def pipe_read_def case_prod_beta)
  from pipe_reader_woken [OF _ _ r run [unfolded prod.collapse] this [unfolded fst_conv]] r run show ?thesis
    by (auto simp: MAX_THREADS_def one_pipe_eq)
qed

text \<open>
  \<open>write\<close> on a pipe that has a reader sends the caller's whole buffer, in order, whatever its
  length, and reports all of it; every thread that slept on the pipe is woken.
\<close>

theorem pipe_write_complete:
  assumes "validate_user_ptr m buf_ptr count" "PIPES s k = Some p" "read_count p \<noteq> 0" "0 < count"
  shows "\<exists>data t'. copy_from_user_safe m buf_ptr count = Some data
    \<and> write_loop tbl k m buf_ptr count 0 s t =
        (Some (of_nat count), pipe_put k (p\<lparr>buffer := buffer p @ data, pipe_pollers := []\<rparr>) s, t')
    \<and> (\<forall>tid \<in> set (pipe_pollers p). tid < MAX_THREADS \<longrightarrow> woken tid t')"
proof -
  obtain data where data: "copy_from_user_safe m buf_ptr count = Some data"
    using validated_copy_from_user [OF assms(1)] by blast
  then have "data \<noteq> []" using copy_from_user_length assms(4) by fastforce
  with write_loop_all [of m buf_ptr 0 count data s k p tbl t] data assms(2,3) show ?thesis by auto
qed

theorem pipe_write_complete_witness:
  "\<exists>data t'. copy_from_user_safe one_page 0x2000 16 = Some data
    \<and> write_loop (\<lambda>_. None) 1 one_page 0x2000 16 0 one_pipe threads_new =
        (Some 16, pipe_put 1 \<lparr>buffer = data, write_count = 1, read_count = 1, pipe_pollers = []\<rparr> one_pipe, t')"
proof -
  have valid: "validate_user_ptr one_page 0x2000 16" using one_page_valid [of "0x2000" 16] by simp
  from pipe_write_complete [OF valid, of one_pipe 1 _ "\<lambda>_. None" threads_new] show ?thesis
    by (auto simp: one_pipe_eq)
qed

text \<open>
  A zero-length \<open>read\<close> on a pipe that holds data never returns: each round finds nothing to copy,
  is told not to sleep, and starts over.
\<close>

lemma zero_read_spins:
  assumes "PIPES s k = Some p" "buffer p \<noteq> []" "write_count p \<noteq> 0"
  shows "read_round False False tid k buf_ptr 0 m s = (Again, m, s)"
  using assms by (simp add: read_round_def pipe_read_def pipe_check_set_reader_def)

end
