(* ===== verification/Ipc_Eventfd.thy ===== *)
theory Ipc_Eventfd
  imports Ipc_Pipe
begin

text \<open>
  Event counters, \<open>src/syscall/eventfd.rs\<close>, with the eventfd branches of \<open>sys_read\<close> and
  \<open>sys_write\<close> in \<open>src/syscall/fs.rs\<close>. The table is a map from identifiers; the counter is a 64-bit
  word that saturates on write as in the code.
\<close>

section \<open>The table of event counters\<close>

record kernel_eventfd =
  counter :: u64
  efd_flags :: u32
  efd_pollers :: "nat list"
  ref_count :: u32

record eventfds =
  EVENTFDS :: "u32 \<Rightarrow> kernel_eventfd option"
  NEXT_EVENTFD_ID :: u32

definition eventfds_new :: eventfds where
  "eventfds_new = \<lparr>EVENTFDS = Map.empty, NEXT_EVENTFD_ID = 1\<rparr>"

definition EFD_SEMAPHORE :: u32 where "EFD_SEMAPHORE = 1"
definition EFD_NONBLOCK :: u32 where "EFD_NONBLOCK = 0x800"
definition EFD_CLOEXEC :: u32 where "EFD_CLOEXEC = 0x80000"

definition efd_put :: "u32 \<Rightarrow> kernel_eventfd \<Rightarrow> eventfds \<Rightarrow> eventfds" where
  "efd_put efd_id e s = s\<lparr>EVENTFDS := (EVENTFDS s)(efd_id \<mapsto> e)\<rparr>"

definition eventfd_create :: "u32 \<Rightarrow> u32 \<Rightarrow> eventfds \<Rightarrow> u32 \<times> eventfds" where
  "eventfd_create initval flags s =
     (let efd_id = NEXT_EVENTFD_ID s in
      (efd_id, efd_put efd_id \<lparr>counter = ucast initval, efd_flags = flags, efd_pollers = [], ref_count = 1\<rparr>
                 (s\<lparr>NEXT_EVENTFD_ID := efd_id + 1\<rparr>)))"

definition eventfd_read :: "u32 \<Rightarrow> eventfds \<Rightarrow> threads \<Rightarrow> (u64 + u64) \<times> eventfds \<times> threads" where
  "eventfd_read efd_id s t =
     (case EVENTFDS s efd_id of
        None \<Rightarrow> (Inl EBADF, s, t)
      | Some e \<Rightarrow>
          if counter e = 0 then (Inl EAGAIN, s, t)
          else let (val, left) =
                 (if efd_flags e AND EFD_SEMAPHORE \<noteq> 0 then (1, counter e - 1) else (counter e, 0))
               in (Inr val, efd_put efd_id (e\<lparr>counter := left, efd_pollers := []\<rparr>) s, wake_all (efd_pollers e) t))"

definition eventfd_write :: "u32 \<Rightarrow> u64 \<Rightarrow> eventfds \<Rightarrow> threads \<Rightarrow> (u64 + unit) \<times> eventfds \<times> threads" where
  "eventfd_write efd_id val s t =
     (case EVENTFDS s efd_id of
        None \<Rightarrow> (Inl EBADF, s, t)
      | Some e \<Rightarrow>
          (Inr (), efd_put efd_id (e\<lparr>counter := sat_add (counter e) val, efd_pollers := []\<rparr>) s,
           wake_all (efd_pollers e) t))"

definition eventfd_can_read :: "eventfds \<Rightarrow> u32 \<Rightarrow> bool" where
  "eventfd_can_read s efd_id = (case EVENTFDS s efd_id of None \<Rightarrow> False | Some e \<Rightarrow> 0 < counter e)"

definition eventfd_is_nonblock :: "eventfds \<Rightarrow> u32 \<Rightarrow> bool" where
  "eventfd_is_nonblock s efd_id =
     (case EVENTFDS s efd_id of None \<Rightarrow> False | Some e \<Rightarrow> efd_flags e AND EFD_NONBLOCK \<noteq> 0)"

definition eventfd_clone_ref :: "u32 \<Rightarrow> eventfds \<Rightarrow> eventfds" where
  "eventfd_clone_ref efd_id s =
     (case EVENTFDS s efd_id of
        None \<Rightarrow> s
      | Some e \<Rightarrow> efd_put efd_id (e\<lparr>ref_count := ref_count e + 1\<rparr>) s)"

definition eventfd_close :: "u32 \<Rightarrow> eventfds \<Rightarrow> eventfds" where
  "eventfd_close efd_id s =
     (case EVENTFDS s efd_id of
        None \<Rightarrow> s
      | Some e \<Rightarrow>
          let e1 = e\<lparr>ref_count := sat_sub (ref_count e) 1\<rparr>
          in if ref_count e1 = 0 then s\<lparr>EVENTFDS := (EVENTFDS s)(efd_id := None)\<rparr> else efd_put efd_id e1 s)"

definition eventfd_add_poller :: "u32 \<Rightarrow> nat \<Rightarrow> eventfds \<Rightarrow> eventfds" where
  "eventfd_add_poller efd_id tid s =
     (case EVENTFDS s efd_id of
        None \<Rightarrow> s
      | Some e \<Rightarrow> efd_put efd_id (e\<lparr>efd_pollers := bs_insert tid (efd_pollers e)\<rparr>) s)"

section \<open>Reading and writing through a descriptor\<close>

text \<open>
  One round of the loop of \<open>read\<close> up to the point where it registers and sleeps. Registering is
  a separate step, \<open>eventfd_add_poller\<close>, with interrupts enabled in between.
\<close>

definition eventfd_round ::
    "bool \<Rightarrow> bool \<Rightarrow> u32 \<Rightarrow> u64 \<Rightarrow> nat \<Rightarrow> user_mem \<Rightarrow> eventfds \<Rightarrow> threads
     \<Rightarrow> round \<times> user_mem \<times> eventfds \<times> threads" where
  "eventfd_round fd_nonblock interrupted efd_id buf_ptr count m s t =
     (if count < 8 then (Done EINVAL, m, s, t)
      else let nonblock = (eventfd_is_nonblock s efd_id \<or> fd_nonblock) in
        case eventfd_read efd_id s t of
          (Inr val, s1, t1) \<Rightarrow>
            (case copy_to_user_safe buf_ptr (to_ne_bytes 8 val) m of
               (ok, m1) \<Rightarrow> (Done (if ok then 8 else EFAULT), m1, s1, t1))
        | (Inl _, s1, t1) \<Rightarrow>
            if nonblock then (Done EAGAIN, m, s1, t1)
            else if interrupted then (Done EINTR, m, s1, t1)
            else (Sleep, m, s1, t1))"

definition eventfd_write_chunk ::
    "u32 \<Rightarrow> bytes \<Rightarrow> eventfds \<Rightarrow> threads \<Rightarrow> u64 \<times> eventfds \<times> threads" where
  "eventfd_write_chunk efd_id chunk s t =
     (if length chunk < 8 then (EINVAL, s, t)
      else let val = from_ne_bytes (take 8 chunk) in
        if val = - 1 then (EINVAL, s, t)
        else case eventfd_write efd_id val s t of
               (Inr _, s1, t1) \<Rightarrow> (8, s1, t1)
             | (Inl e, s1, t1) \<Rightarrow> (e, s1, t1))"

section \<open>Sequences of operations\<close>

datatype efd_op =
    EfdCreate u32 u32 | EfdRead u32 | EfdWrite u32 u64 | EfdClone u32 | EfdClose u32 | EfdPoll u32 nat

fun efd_apply :: "efd_op \<Rightarrow> eventfds \<times> threads \<Rightarrow> eventfds \<times> threads" where
  "efd_apply (EfdCreate v f) (s, t) = (snd (eventfd_create v f s), t)"
| "efd_apply (EfdRead k) (s, t) = snd (eventfd_read k s t)"
| "efd_apply (EfdWrite k v) (s, t) = snd (eventfd_write k v s t)"
| "efd_apply (EfdClone k) (s, t) = (eventfd_clone_ref k s, t)"
| "efd_apply (EfdClose k) (s, t) = (eventfd_close k s, t)"
| "efd_apply (EfdPoll k tid) (s, t) = (eventfd_add_poller k tid s, t)"

text \<open>As for pipes, a run stops creating counters when the identifiers are used up.\<close>

definition efd_step :: "efd_op \<Rightarrow> eventfds \<times> threads \<Rightarrow> eventfds \<times> threads" where
  "efd_step op st =
     (case op of EfdCreate _ _ \<Rightarrow> if NEXT_EVENTFD_ID (fst st) = - 1 then st else efd_apply op st
      | _ \<Rightarrow> efd_apply op st)"

text \<open>What a run adds to a counter and what its readers receive.\<close>

fun efd_in :: "u32 \<Rightarrow> efd_op \<Rightarrow> eventfds \<times> threads \<Rightarrow> nat" where
  "efd_in k (EfdWrite k' v) (s, t) = (if k' = k \<and> EVENTFDS s k \<noteq> None then unat v else 0)"
| "efd_in _ _ _ = 0"

fun efd_out :: "u32 \<Rightarrow> efd_op \<Rightarrow> eventfds \<times> threads \<Rightarrow> nat" where
  "efd_out k (EfdRead k') (s, t) =
     (if k' = k then case fst (eventfd_read k s t) of Inr v \<Rightarrow> unat v | Inl _ \<Rightarrow> 0 else 0)"
| "efd_out _ _ _ = 0"

fun efd_log :: "u32 \<Rightarrow> efd_op list \<Rightarrow> eventfds \<times> threads \<Rightarrow> nat \<times> nat" where
  "efd_log k [] st = (0, 0)"
| "efd_log k (op # ops) st =
     (case efd_log k ops (efd_step op st) of (i, out) \<Rightarrow> (efd_in k op st + i, efd_out k op st + out))"

lemma efd_put_simps [simp]:
  "EVENTFDS (efd_put k e s) = (EVENTFDS s)(k \<mapsto> e)" "NEXT_EVENTFD_ID (efd_put k e s) = NEXT_EVENTFD_ID s"
  by (simp_all add: efd_put_def)

lemmas efd_defs = eventfd_create_def eventfd_read_def eventfd_write_def eventfd_clone_ref_def
  eventfd_close_def eventfd_add_poller_def

lemma efd_step_next:
  assumes "k < NEXT_EVENTFD_ID s"
  shows "k < NEXT_EVENTFD_ID (fst (efd_step op (s, t)))"
proof (cases op)
  case (EfdCreate v f)
  then show ?thesis using assms succ_greater by (auto simp: efd_step_def eventfd_create_def Let_def split: if_splits option.splits)
next
  case (EfdRead k')
  then show ?thesis using assms succ_greater by (auto simp: efd_step_def eventfd_read_def Let_def split: if_splits option.splits)
next
  case (EfdWrite k' v)
  then show ?thesis using assms succ_greater by (auto simp: efd_step_def eventfd_write_def split: if_splits option.splits)
next
  case (EfdClone k')
  then show ?thesis using assms succ_greater by (auto simp: efd_step_def eventfd_clone_ref_def split: if_splits option.splits)
next
  case (EfdClose k')
  then show ?thesis using assms succ_greater by (auto simp: efd_step_def eventfd_close_def Let_def split: if_splits option.splits)
next
  case (EfdPoll k' tid)
  then show ?thesis using assms succ_greater by (auto simp: efd_step_def eventfd_add_poller_def split: if_splits option.splits)
qed

lemma eventfd_read_takes:
  assumes "eventfd_read k s t = (Inr v, s', t')"
  shows "\<exists>e e'. EVENTFDS s k = Some e \<and> EVENTFDS s' = (EVENTFDS s)(k \<mapsto> e')
    \<and> unat (counter e) = unat v + unat (counter e')"
proof -
  from assms obtain e where e: "EVENTFDS s k = Some e" "counter e \<noteq> 0"
    by (auto simp: eventfd_read_def split: option.splits if_splits)
  have "0 < unat (counter e)" using e(2) by (simp add: unat_gt_0)
  then have "1 + unat (counter e - 1) = unat (counter e)" using unat_minus_one [OF e(2)] by linarith
  with e assms show ?thesis
    by (cases "efd_flags e AND EFD_SEMAPHORE = 0") (auto simp: eventfd_read_def)
qed

lemma efd_step_count:
  assumes "k < NEXT_EVENTFD_ID s" "EVENTFDS s k = Some e" "unat (counter e) + efd_in k op (s, t) < 2 ^ 64"
    and "EVENTFDS (fst (efd_step op (s, t))) k = Some e'"
  shows "unat (counter e) + efd_in k op (s, t) = efd_out k op (s, t) + unat (counter e')"
proof (cases op)
  case (EfdRead k')
  show ?thesis
  proof (cases "fst (eventfd_read k' s t)")
    case (Inl err)
    then have "snd (eventfd_read k' s t) = (s, t)"
      by (auto simp: eventfd_read_def Let_def split: option.splits if_splits)
    with Inl EfdRead assms(2,4) show ?thesis by (auto simp: efd_step_def)
  next
    case (Inr v)
    obtain s' t' where r: "eventfd_read k' s t = (Inr v, s', t')" using Inr by (metis prod.collapse)
    from eventfd_read_takes [OF r] obtain x x' where x: "EVENTFDS s k' = Some x"
      "EVENTFDS s' = (EVENTFDS s)(k' \<mapsto> x')" "unat (counter x) = unat v + unat (counter x')" by blast
    with r EfdRead assms(2,4) show ?thesis by (cases "k' = k") (auto simp: efd_step_def)
  qed
next
  case (EfdWrite k' v)
  show ?thesis
  proof (cases "k' = k")
    case True
    with EfdWrite assms(2,3) have "unat (counter e) + unat v < 2 ^ 64" by simp
    then have "unat (sat_add (counter e) v) = unat (counter e) + unat v" by (simp add: unat_sat_add)
    moreover have "counter e' = sat_add (counter e) v"
      using EfdWrite True assms(2,4) by (auto simp: efd_step_def eventfd_write_def)
    ultimately show ?thesis using EfdWrite True assms(2) by simp
  next
    case False
    with EfdWrite assms show ?thesis by (auto simp: efd_step_def eventfd_write_def split: option.splits)
  qed
next
  case (EfdClose k')
  with assms(2,4) show ?thesis by (auto simp: efd_step_def eventfd_close_def Let_def split: if_splits option.splits)
next
  case (EfdCreate v f)
  with assms(1,2,4) show ?thesis by (auto simp: efd_step_def eventfd_create_def Let_def split: if_splits)
next
  case (EfdClone k')
  with assms(2,4) show ?thesis by (auto simp: efd_step_def eventfd_clone_ref_def split: if_splits option.splits)
next
  case (EfdPoll k' tid)
  with assms(2,4) show ?thesis by (auto simp: efd_step_def eventfd_add_poller_def split: if_splits option.splits)
qed

lemma efd_gone:
  assumes "k < NEXT_EVENTFD_ID s" "EVENTFDS s k = None"
  shows "EVENTFDS (fst (efd_step op (s, t))) k = None \<and> efd_in k op (s, t) = 0 \<and> efd_out k op (s, t) = 0"
proof (cases op)
  case (EfdCreate v f)
  then show ?thesis using assms by (auto simp: efd_step_def eventfd_create_def Let_def split: if_splits option.splits)
next
  case (EfdRead k')
  then show ?thesis using assms by (auto simp: efd_step_def eventfd_read_def Let_def split: if_splits option.splits)
next
  case (EfdWrite k' v)
  then show ?thesis using assms by (auto simp: efd_step_def eventfd_write_def split: if_splits option.splits)
next
  case (EfdClone k')
  then show ?thesis using assms by (auto simp: efd_step_def eventfd_clone_ref_def split: if_splits option.splits)
next
  case (EfdClose k')
  then show ?thesis using assms by (auto simp: efd_step_def eventfd_close_def Let_def split: if_splits option.splits)
next
  case (EfdPoll k' tid)
  then show ?thesis using assms by (auto simp: efd_step_def eventfd_add_poller_def split: if_splits option.splits)
qed

lemma efd_gone_stays:
  assumes "k < NEXT_EVENTFD_ID s" "EVENTFDS s k = None"
  shows "EVENTFDS (fst (fold efd_step ops (s, t))) k = None"
  using assms
proof (induction ops arbitrary: s t)
  case (Cons op ops)
  obtain s1 t1 where st: "efd_step op (s, t) = (s1, t1)" by fastforce
  show ?case
    using Cons.IH [of s1 t1] efd_gone [OF Cons.prems, of op t] efd_step_next [OF Cons.prems(1), of op t] st by simp
qed simp

section \<open>Event counters as objects to wait on\<close>

text \<open>A destroyed counter counts as still being waited for: \<open>eventfd_close\<close> wakes nobody.\<close>

definition efd_waits :: "u32 \<Rightarrow> nat \<Rightarrow> eventfds \<Rightarrow> bool" where
  "efd_waits k tid s \<longleftrightarrow> k < NEXT_EVENTFD_ID s \<and>
     (case EVENTFDS s k of Some e \<Rightarrow> tid \<in> set (efd_pollers e) \<and> counter e = 0 | None \<Rightarrow> True)"

lemma efd_keeps_or_wakes:
  assumes "tid < MAX_THREADS" "efd_waits k tid s" "efd_step op (s, t) = (s', t')"
  shows "efd_waits k tid s' \<or> woken tid t'"
proof -
  have next_id: "k < NEXT_EVENTFD_ID s'"
    using efd_step_next [of k s op t] assms(2,3) by (simp add: efd_waits_def)
  show ?thesis
  proof (cases op)
    case (EfdCreate v f)
    with assms next_id show ?thesis
      by (auto simp: efd_waits_def efd_step_def eventfd_create_def Let_def split: if_splits option.splits)
  next
    case (EfdRead k')
    with assms next_id show ?thesis
      by (auto simp: efd_waits_def efd_step_def eventfd_read_def Let_def wake_all_wakes split: if_splits option.splits)
  next
    case (EfdWrite k' v)
    with assms next_id show ?thesis
      by (auto simp: efd_waits_def efd_step_def eventfd_write_def wake_all_wakes split: if_splits option.splits)
  next
    case (EfdClone k')
    with assms next_id show ?thesis
      by (auto simp: efd_waits_def efd_step_def eventfd_clone_ref_def split: if_splits option.splits)
  next
    case (EfdClose k')
    with assms next_id show ?thesis
      by (auto simp: efd_waits_def efd_step_def eventfd_close_def Let_def split: if_splits option.splits)
  next
    case (EfdPoll k' tid')
    with assms next_id show ?thesis
      by (auto simp: efd_waits_def efd_step_def eventfd_add_poller_def split: if_splits option.splits)
  qed
qed

lemma efd_stays_woken:
  assumes "woken tid t" "efd_step op (s, t) = (s', t')"
  shows "woken tid t'"
proof (cases op)
  case (EfdRead k)
  with assms woken_wake_all [OF assms(1)] show ?thesis
    by (auto simp: efd_step_def eventfd_read_def Let_def split: option.splits if_splits)
next
  case (EfdWrite k v)
  with assms woken_wake_all [OF assms(1)] show ?thesis
    by (auto simp: efd_step_def eventfd_write_def split: option.splits)
qed (use assms in \<open>auto simp: efd_step_def split: if_splits\<close>)

interpretation efd_obj: wait_object efd_step "efd_waits k" for k
  by unfold_locales (rule efd_keeps_or_wakes efd_stays_woken; assumption)+

section \<open>Properties\<close>

text \<open>
  C21: An event counter neither loses nor invents events: over any sequence of operations, as long
  as the sum fits 64 bits, what it held and what was written to it is what its readers received
  and what it still holds, in counting mode and in semaphore mode.
\<close>

theorem eventfd_conserves:
  assumes "k < NEXT_EVENTFD_ID s" "EVENTFDS s k = Some e" "efd_log k ops (s, t) = (i, out)"
    and "unat (counter e) + i < 2 ^ 64" "fold efd_step ops (s, t) = (s', t')" "EVENTFDS s' k = Some e'"
  shows "unat (counter e) + i = out + unat (counter e')"
  using assms
proof (induction ops arbitrary: s t e i out)
  case (Cons op ops)
  obtain s1 t1 where st: "efd_step op (s, t) = (s1, t1)" by fastforce
  obtain i' out' where log: "efd_log k ops (s1, t1) = (i', out')" by fastforce
  have io: "i = efd_in k op (s, t) + i'" "out = efd_out k op (s, t) + out'" using Cons.prems(3) st log by auto
  have k1: "k < NEXT_EVENTFD_ID s1" using efd_step_next [OF Cons.prems(1), of op t] st by simp
  show ?case
  proof (cases "EVENTFDS s1 k")
    case None
    have "EVENTFDS (fst (fold efd_step ops (s1, t1))) k = None"
      by (rule efd_gone_stays [OF k1 None])
    with Cons.prems(5,6) st show ?thesis by simp
  next
    case (Some e1)
    have one: "unat (counter e) + efd_in k op (s, t) = efd_out k op (s, t) + unat (counter e1)"
      by (rule efd_step_count [OF Cons.prems(1,2)]) (use Cons.prems(4) io st Some in auto)
    have "unat (counter e1) + i' = out' + unat (counter e')"
      by (rule Cons.IH [OF k1 Some log]) (use one io Cons.prems(4-6) st in auto)
    with one io show ?thesis by linarith
  qed
qed simp

definition one_eventfd :: eventfds where
  "one_eventfd = snd (eventfd_create 3 EFD_SEMAPHORE eventfds_new)"

theorem eventfd_conserves_witness:
  "\<exists>i out s' t' e'. efd_log 1 [EfdWrite 1 4, EfdRead 1] (one_eventfd, threads_new) = (i, out)
    \<and> fold efd_step [EfdWrite 1 4, EfdRead 1] (one_eventfd, threads_new) = (s', t')
    \<and> EVENTFDS s' 1 = Some e' \<and> 3 + i = out + unat (counter e')"
proof -
  let ?ops = "[EfdWrite 1 4, EfdRead 1]"
  have one: "EVENTFDS one_eventfd 1 = Some \<lparr>counter = 3, efd_flags = 1, efd_pollers = [], ref_count = 1\<rparr>"
    "1 < NEXT_EVENTFD_ID one_eventfd"
    by (simp_all add: one_eventfd_def eventfd_create_def eventfds_new_def EFD_SEMAPHORE_def)
  obtain i out where log: "efd_log 1 ?ops (one_eventfd, threads_new) = (i, out)" by fastforce
  obtain s' t' where run: "fold efd_step ?ops (one_eventfd, threads_new) = (s', t')" by fastforce
  have i: "i = 4" using log one by (auto simp: efd_step_def case_prod_beta)
  have "EVENTFDS s' 1 \<noteq> None" using run one
    by (auto simp: efd_step_def eventfd_write_def eventfd_read_def Let_def case_prod_beta split: if_splits)
  then obtain e' where e': "EVENTFDS s' 1 = Some e'" by blast
  have "unat (counter \<lparr>counter = 3, efd_flags = 1, efd_pollers = [], ref_count = 1\<rparr>) + i = out + unat (counter e')"
    by (rule eventfd_conserves [OF one(2,1) log _ run e']) (simp add: i)
  with log run e' show ?thesis by simp
qed

text \<open>
  A \<open>read\<close> that finds the counter at zero registers itself in a second step. A write in between
  finds nobody to wake, and the reader goes to sleep on a counter that is ready.
\<close>

lemma eventfd_wakeup_missed:
  assumes "EVENTFDS s k = Some e" "counter e = 0" "efd_pollers e = []" "v \<noteq> 0" "\<not> WOKEN_STATES t tid"
    and "efd_flags e AND EFD_NONBLOCK = 0" "8 \<le> count"
  shows "\<exists>s1. eventfd_round False False k buf_ptr count m s t = (Sleep, m, s, t)
    \<and> snd (eventfd_write k v s t) = (s1, t) \<and> eventfd_can_read (eventfd_add_poller k tid s1) k
    \<and> \<not> WOKEN_STATES t tid"
proof -
  have "sat_add 0 v = v" using unsigned_less [of v, where 'a = nat] by (simp add: sat_add_def)
  with assms show ?thesis
    by (auto simp: eventfd_round_def eventfd_read_def eventfd_write_def eventfd_is_nonblock_def
      eventfd_add_poller_def eventfd_can_read_def word_neq_0_conv)
qed

end
