(* ===== verification/Fd_Table.thy ===== *)
theory Fd_Table
  imports Ipc_Eventfd
begin

text \<open>
  Descriptor tables: \<open>SharedFdTable\<close> and the descriptor methods of \<open>Process\<close> in
  \<open>crates/akuma-exec/src/process/fd.rs\<close>, with the descriptor types of \<open>process/types.rs\<close>. Each
  method runs with interrupts disabled, so it is one step. A table's three parts are ordered
  maps and sets; descriptor numbers are 32-bit.
\<close>

section \<open>Descriptors\<close>

datatype remote_kind = RemoteVfs | RemoteSocket

record dir_cache_entry =
  dc_name :: string
  dc_type :: u8

record kernel_file =
  kf_path :: string
  position :: nat
  kf_flags :: u32
  dir_cache :: "dir_cache_entry list option"

definition KernelFile_new :: "string \<Rightarrow> u32 \<Rightarrow> kernel_file" where
  "KernelFile_new p flags = \<lparr>kf_path = p, position = 0, kf_flags = flags, dir_cache = None\<rparr>"

datatype file_descriptor =
    Stdin | Stdout | Stderr
  | Socket nat
  | File kernel_file
  | ChildStdout u32
  | PipeRead u32
  | PipeWrite u32
  | UnixSocket (rx: u32) (tx: u32)
  | EventFd u32
  | DevNull | DevUrandom | DevZero | DevDsp
  | Tap bool
  | RumpSocket u32 bool
  | TimerFd u32
  | EpollFd u32
  | PidFd u32
  | RemoteFd (owner: u16) (handle: u32) (remote: remote_kind)

definition O_CLOEXEC :: u32 where "O_CLOEXEC = 0x80000"

section \<open>Tables\<close>

type_synonym entries = "(u32, file_descriptor) btree"

record fd_table =
  fd_entries :: entries
  cloexec :: "u32 list"
  nonblock :: "u32 list"

definition SharedFdTable_new :: fd_table where
  "SharedFdTable_new = \<lparr>fd_entries = [], cloexec = [], nonblock = []\<rparr>"

definition with_stdio :: fd_table where
  "with_stdio =
     \<lparr>fd_entries = bt_insert 2 Stderr (bt_insert 1 Stdout (bt_insert 0 Stdin [])), cloexec = [], nonblock = []\<rparr>"

text \<open>The loop over the entries from \<open>min_fd\<close> on, in order, until the first gap.\<close>

fun first_gap :: "u32 \<Rightarrow> entries \<Rightarrow> u32" where
  "first_gap fd [] = fd"
| "first_gap fd ((key, _) # es) = (if key \<noteq> fd then fd else first_gap (fd + 1) es)"

definition lowest_available_fd :: "entries \<Rightarrow> u32 \<Rightarrow> u32" where
  "lowest_available_fd es min_fd = first_gap min_fd (filter (\<lambda>(key, _). min_fd \<le> key) es)"

definition alloc_fd_from :: "u32 \<Rightarrow> file_descriptor \<Rightarrow> fd_table \<Rightarrow> u32 \<times> fd_table" where
  "alloc_fd_from min_fd e s =
     (let fd = lowest_available_fd (fd_entries s) min_fd
      in (fd, s\<lparr>fd_entries := bt_insert fd e (fd_entries s)\<rparr>))"

definition alloc_fd :: "file_descriptor \<Rightarrow> fd_table \<Rightarrow> u32 \<times> fd_table" where
  "alloc_fd e s = alloc_fd_from 0 e s"

definition get_fd :: "fd_table \<Rightarrow> u32 \<Rightarrow> file_descriptor option" where
  "get_fd s fd = map_of (fd_entries s) fd"

definition remove_fd :: "u32 \<Rightarrow> fd_table \<Rightarrow> file_descriptor option \<times> fd_table" where
  "remove_fd fd s = (map_of (fd_entries s) fd, s\<lparr>fd_entries := bt_remove fd (fd_entries s)\<rparr>)"

definition set_fd :: "u32 \<Rightarrow> file_descriptor \<Rightarrow> fd_table \<Rightarrow> fd_table" where
  "set_fd fd e s = s\<lparr>fd_entries := bt_insert fd e (fd_entries s)\<rparr>"

definition swap_fd :: "u32 \<Rightarrow> file_descriptor \<Rightarrow> fd_table \<Rightarrow> file_descriptor option \<times> fd_table" where
  "swap_fd fd e s = (map_of (fd_entries s) fd, s\<lparr>fd_entries := bt_insert fd e (fd_entries s)\<rparr>)"

definition update_fd :: "u32 \<Rightarrow> (file_descriptor \<Rightarrow> file_descriptor) \<Rightarrow> fd_table \<Rightarrow> bool \<times> fd_table" where
  "update_fd fd f s =
     (case map_of (fd_entries s) fd of
        Some e \<Rightarrow> (True, s\<lparr>fd_entries := bt_insert fd (f e) (fd_entries s)\<rparr>)
      | None \<Rightarrow> (False, s))"

definition set_cloexec :: "u32 \<Rightarrow> fd_table \<Rightarrow> fd_table" where
  "set_cloexec fd s = s\<lparr>cloexec := bs_insert fd (cloexec s)\<rparr>"

definition clear_cloexec :: "u32 \<Rightarrow> fd_table \<Rightarrow> fd_table" where
  "clear_cloexec fd s = s\<lparr>cloexec := bs_remove fd (cloexec s)\<rparr>"

definition is_cloexec :: "fd_table \<Rightarrow> u32 \<Rightarrow> bool" where
  "is_cloexec s fd \<longleftrightarrow> fd \<in> set (cloexec s)"

definition set_nonblock :: "u32 \<Rightarrow> fd_table \<Rightarrow> fd_table" where
  "set_nonblock fd s = s\<lparr>nonblock := bs_insert fd (nonblock s)\<rparr>"

definition clear_nonblock :: "u32 \<Rightarrow> fd_table \<Rightarrow> fd_table" where
  "clear_nonblock fd s = s\<lparr>nonblock := bs_remove fd (nonblock s)\<rparr>"

definition is_nonblock :: "fd_table \<Rightarrow> u32 \<Rightarrow> bool" where
  "is_nonblock s fd \<longleftrightarrow> fd \<in> set (nonblock s)"

text \<open>The loop that takes the marked descriptors out of the table.\<close>

fun take_fds :: "u32 list \<Rightarrow> entries \<Rightarrow> (u32 \<times> file_descriptor) list \<times> entries" where
  "take_fds [] es = ([], es)"
| "take_fds (fd # fds) es =
     (case map_of es fd of
        None \<Rightarrow> take_fds fds es
      | Some e \<Rightarrow> (case take_fds fds (bt_remove fd es) of (closed, es1) \<Rightarrow> ((fd, e) # closed, es1)))"

definition close_cloexec_fds :: "fd_table \<Rightarrow> (u32 \<times> file_descriptor) list \<times> fd_table" where
  "close_cloexec_fds s =
     (case take_fds (cloexec s) (fd_entries s) of
        (closed, es) \<Rightarrow> (closed, s\<lparr>fd_entries := es, cloexec := []\<rparr>))"

section \<open>Well-formed tables\<close>

definition fdt_wf :: "fd_table \<Rightarrow> bool" where
  "fdt_wf s \<longleftrightarrow> bt_wf (fd_entries s) \<and> bs_wf (cloexec s) \<and> bs_wf (nonblock s)"

lemmas fdt_defs = alloc_fd_def alloc_fd_from_def get_fd_def remove_fd_def set_fd_def swap_fd_def
  set_cloexec_def clear_cloexec_def is_cloexec_def set_nonblock_def clear_nonblock_def is_nonblock_def

lemma fdt_wf_entries [wf_intros]: "fdt_wf s \<Longrightarrow> bt_wf es \<Longrightarrow> fdt_wf (s\<lparr>fd_entries := es\<rparr>)"
  by (simp add: fdt_wf_def)

lemma fdt_wf_flags [wf_intros]:
  "fdt_wf s \<Longrightarrow> fdt_wf (set_cloexec fd s)" "fdt_wf s \<Longrightarrow> fdt_wf (clear_cloexec fd s)"
  "fdt_wf s \<Longrightarrow> fdt_wf (set_nonblock fd s)" "fdt_wf s \<Longrightarrow> fdt_wf (clear_nonblock fd s)"
  by (auto simp: fdt_wf_def fdt_defs intro: wf_intros)

lemma flags_entries [simp]:
  "fd_entries (set_cloexec fd s) = fd_entries s" "fd_entries (clear_cloexec fd s) = fd_entries s"
  "fd_entries (set_nonblock fd s) = fd_entries s" "fd_entries (clear_nonblock fd s) = fd_entries s"
  by (simp_all add: fdt_defs)

lemma fdt_wf_new [wf_intros]: "fdt_wf SharedFdTable_new" "fdt_wf with_stdio"
  by (simp_all add: fdt_wf_def SharedFdTable_new_def with_stdio_def bt_wf_def bs_wf_def)

section \<open>The lowest free number\<close>

text \<open>
  The loop ends at the first number from \<open>min_fd\<close> on that is not in use, unless every number up
  to the largest is; then the counter wraps around to 0.
\<close>

lemma first_gap_run:
  assumes "bt_wf es" "\<forall>k \<in> fst ` set es. fd \<le> k" "first_gap fd es = g"
  shows "fd \<le> g \<and> g \<notin> fst ` set es \<and> (\<forall>k. fd \<le> k \<and> k < g \<longrightarrow> k \<in> fst ` set es)
    \<or> g = 0 \<and> (\<forall>k \<ge> fd. k \<in> fst ` set es)"
  using assms
proof (induction fd es rule: first_gap.induct)
  case (2 fd key v es)
  have wf: "bt_wf es" and gt: "\<forall>k \<in> fst ` set es. key < k" using "2.prems"(1) by (auto simp: bt_wf_def)
  show ?case
  proof (cases "key = fd")
    case False
    then have "fd < key" using "2.prems"(2) by (simp add: less_le)
    with False gt "2.prems"(3) show ?thesis by fastforce
  next
    case True
    show ?thesis
    proof (cases "fd = - 1")
      case top: True
      have "es = []" using gt True top by (cases es) auto
      with True top "2.prems"(3) show ?thesis by (auto simp: word_order.extremum_unique)
    next
      case False
      have le: "fd < k \<longleftrightarrow> fd + 1 \<le> k" for k by (rule word_less_iff_succ_le [OF False])
      have up: "\<forall>k \<in> fst ` set es. fd + 1 \<le> k" using gt True le by blast
      have "first_gap (fd + 1) es = g" using "2.prems"(3) True by simp
      from "2.IH" [OF _ wf up this] True consider
          "fd < g" "g \<notin> fst ` set es" "\<forall>k. fd < k \<and> k < g \<longrightarrow> k \<in> fst ` set es"
        | "g = 0" "\<forall>k > fd. k \<in> fst ` set es"
        using le by auto
      then show ?thesis using True by cases (force simp: le_less)+
    qed
  qed
qed auto

end
