(* ===== verification/Fd_Refs.thy ===== *)
theory Fd_Refs
  imports Ordered_Map
begin

text \<open>
  Reference counting as a contract. Kernel objects are reached through the entries of
  descriptor tables; duplicating an entry raises the counts of the objects it refers to,
  dropping one lowers them. The locale states the two laws a kind of object promises, and proves
  that counts stay equal to the number of references in all tables through insertion, closing,
  replacement, bulk closing and the copying of a table.
\<close>

section \<open>References held by tables\<close>

definition held :: "('e \<Rightarrow> 'i \<Rightarrow> nat) \<Rightarrow> 'e list \<Rightarrow> 'i \<Rightarrow> nat" where
  "held refs es i = sum_list (map (\<lambda>e. refs e i) es)"

definition total :: "('e \<Rightarrow> 'i \<Rightarrow> nat) \<Rightarrow> ('k, 'e) btree list \<Rightarrow> 'i \<Rightarrow> nat" where
  "total refs ts i = sum_list (map (\<lambda>es. held refs (map snd es) i) ts)"

lemma held_simps [simp]:
  "held refs [] i = 0" "held refs (e # es) i = refs e i + held refs es i"
  "held refs (es @ es') i = held refs es i + held refs es' i"
  by (simp_all add: held_def)

lemma total_simps [simp]:
  "total refs [] i = 0" "total refs (t # ts) i = held refs (map snd t) i + total refs ts i"
  "total refs (ts @ ts') i = total refs ts i + total refs ts' i"
  by (simp_all add: total_def)

lemma held_member: "e \<in> set es \<Longrightarrow> refs e i \<le> held refs es i"
  by (induction es) auto

lemma total_nth: "h < length ts \<Longrightarrow> held refs (map snd (ts ! h)) i \<le> total refs ts i"
  by (simp add: total_def member_le_sum_list)

lemma total_entry:
  assumes "h < length ts" "map_of (ts ! h) k = Some e"
  shows "refs e i \<le> total refs ts i"
proof -
  have "e \<in> set (map snd (ts ! h))" using map_of_SomeD [OF assms(2)] by force
  from held_member [OF this, of refs i] total_nth [OF assms(1), of refs i] show ?thesis by linarith
qed

lemma total_update:
  "h < length ts \<Longrightarrow> total refs (ts[h := es]) i + held refs (map snd (ts ! h)) i = total refs ts i + held refs (map snd es) i"
proof (induction ts arbitrary: h)
  case (Cons t ts)
  show ?case using Cons.IH [of "h - 1"] Cons.prems by (cases h) auto
qed simp

lemma held_bt_insert:
  assumes "bt_wf es"
  shows "held refs (map snd (bt_insert k e es)) i + (case map_of es k of None \<Rightarrow> 0 | Some x \<Rightarrow> refs x i)
    = held refs (map snd es) i + refs e i"
proof -
  have "held refs (map snd m) i = sum_list (map (\<lambda>(_, x). refs x i) m)" for m :: "('a \<times> 'b) list"
    by (induction m) auto
  with sum_bt_insert [OF assms, of "\<lambda>x. refs x i" k e] show ?thesis by simp
qed

lemma held_bt_remove:
  assumes "bt_wf es"
  shows "held refs (map snd (bt_remove k es)) i + (case map_of es k of None \<Rightarrow> 0 | Some x \<Rightarrow> refs x i)
    = held refs (map snd es) i"
  using assms
proof (induction es)
  case (Cons x es)
  obtain k' v where x: "x = (k', v)" by (cases x)
  have wf: "bt_wf es" and gt: "\<forall>y \<in> set es. k' < fst y" using Cons.prems x by (auto simp: bt_wf_def)
  show ?case
  proof (cases "k' = k")
    case True
    have "map_of es k = None" using gt True by (force simp: map_of_eq_None_iff)
    with Cons.IH [OF wf] x True show ?thesis by (simp add: bt_remove_def)
  next
    case False
    with Cons.IH [OF wf] x show ?thesis by (simp add: bt_remove_def)
  qed
qed (simp add: bt_remove_def)

lemma total_insert:
  assumes "h < length ts" "bt_wf (ts ! h)" "map_of (ts ! h) k = None"
  shows "total refs (ts[h := bt_insert k e (ts ! h)]) i = total refs ts i + refs e i"
  using total_update [OF assms(1), of refs "bt_insert k e (ts ! h)" i] held_bt_insert [OF assms(2), of refs k e i] assms(3)
  by simp

lemma held_filter_le: "held refs (map snd (filter P es)) i \<le> held refs (map snd es) i"
  by (induction es) auto

section \<open>The contract\<close>

definition exact :: "('s \<Rightarrow> bool) \<Rightarrow> ('s \<Rightarrow> 'i \<Rightarrow> nat) \<Rightarrow> ('e \<Rightarrow> 'i \<Rightarrow> nat) \<Rightarrow> ('k, 'e) btree list \<Rightarrow> 's \<Rightarrow> bool" where
  "exact good cnt refs ts s \<longleftrightarrow> good s \<and> (\<forall>i. cnt s i = total refs ts i)"

locale ref_counted =
  fixes good :: "'s \<Rightarrow> bool"
    and cnt :: "'s \<Rightarrow> 'i \<Rightarrow> nat"
    and refs :: "'e \<Rightarrow> 'i \<Rightarrow> nat"
    and copies :: "'e \<Rightarrow> bool"
    and bump :: "'e \<Rightarrow> 's \<Rightarrow> 's"
    and drp :: "'e \<Rightarrow> 's \<Rightarrow> 's"
    and cap :: nat
  assumes bump_law:
      "\<lbrakk>copies e; good s; \<forall>i. refs e i \<le> cnt s i; \<forall>i. cnt s i + refs e i < cap\<rbrakk>
       \<Longrightarrow> good (bump e s) \<and> (\<forall>i. cnt (bump e s) i = cnt s i + refs e i)"
    and drop_law:
      "\<lbrakk>good s; \<forall>i. refs e i \<le> cnt s i\<rbrakk>
       \<Longrightarrow> good (drp e s) \<and> (\<forall>i. cnt (drp e s) i = cnt s i - refs e i)"
begin

text \<open>Entries already taken out of the tables, dropped one after another.\<close>

lemma drop_pending:
  assumes "good s" "\<forall>i. cnt s i = total refs ts i + held refs pending i"
  shows "exact good cnt refs ts (fold drp pending s)"
  using assms
proof (induction pending arbitrary: s)
  case (Cons e pending)
  have "good (drp e s) \<and> (\<forall>i. cnt (drp e s) i = cnt s i - refs e i)"
    by (rule drop_law) (use Cons.prems in auto)
  with Cons.prems Cons.IH [of "drp e s"] show ?case by simp
qed (simp add: exact_def)

text \<open>Entries copied one after another, each of an object that is held already.\<close>

lemma bump_all:
  assumes "good s" "\<forall>e \<in> set es. copies e \<and> (\<forall>i. refs e i \<le> cnt s i)" "\<forall>i. cnt s i + held refs es i < cap"
  shows "good (fold bump es s) \<and> (\<forall>i. cnt (fold bump es s) i = cnt s i + held refs es i)"
  using assms
proof (induction es arbitrary: s)
  case (Cons e es)
  have small: "cnt s i + refs e i < cap" for i using Cons.prems(3) [rule_format, of i] by simp
  have b: "good (bump e s) \<and> (\<forall>i. cnt (bump e s) i = cnt s i + refs e i)"
    by (rule bump_law) (use Cons.prems small in auto)
  have le: "\<forall>x \<in> set es. copies x \<and> (\<forall>i. refs x i \<le> cnt (bump e s) i)"
    using Cons.prems(2) b by (auto intro: trans_le_add1)
  have "\<forall>i. cnt (bump e s) i + held refs es i < cap" using Cons.prems(3) b by (simp add: add.assoc)
  from Cons.IH [OF conjunct1 [OF b] le this] b show ?case by simp
qed simp

lemma insert_copy:
  assumes "exact good cnt refs ts s" "h < length ts" "bt_wf (ts ! h)" "map_of (ts ! h) k = None"
    and "copies e" "\<forall>i. refs e i \<le> total refs ts i" "\<forall>i. total refs ts i + refs e i < cap"
  shows "exact good cnt refs (ts[h := bt_insert k e (ts ! h)]) (bump e s)"
proof -
  have ex: "good s" "\<forall>i. cnt s i = total refs ts i" using assms(1) by (simp_all add: exact_def)
  have b: "good (bump e s) \<and> (\<forall>i. cnt (bump e s) i = cnt s i + refs e i)"
    by (rule bump_law) (use ex assms(5-7) in auto)
  with ex total_insert [OF assms(2-4), of refs e] show ?thesis by (simp add: exact_def)
qed

lemma close_entry:
  assumes "exact good cnt refs ts s" "h < length ts" "bt_wf (ts ! h)" "map_of (ts ! h) k = Some e"
  shows "exact good cnt refs (ts[h := bt_remove k (ts ! h)]) (drp e s)"
proof -
  have "total refs (ts[h := bt_remove k (ts ! h)]) i + refs e i = total refs ts i" for i
    using total_update [OF assms(2), of refs "bt_remove k (ts ! h)" i]
      held_bt_remove [OF assms(3), of refs k i] assms(4) by simp
  then have "\<forall>i. cnt s i = total refs (ts[h := bt_remove k (ts ! h)]) i + held refs [e] i"
    using assms(1) by (simp add: exact_def)
  with drop_pending [of s "ts[h := bt_remove k (ts ! h)]" "[e]"] assms(1) show ?thesis by (simp add: exact_def)
qed

lemma replace_entry:
  assumes "exact good cnt refs ts s" "h < length ts" "bt_wf (ts ! h)" "map_of (ts ! h) k = Some x"
    and "copies e" "\<forall>i. refs e i \<le> total refs ts i" "\<forall>i. total refs ts i + refs e i < cap"
  shows "exact good cnt refs (ts[h := bt_insert k e (ts ! h)]) (drp x (bump e s))"
proof -
  have ex: "good s" "\<forall>i. cnt s i = total refs ts i" using assms(1) by (simp_all add: exact_def)
  have b: "good (bump e s) \<and> (\<forall>i. cnt (bump e s) i = cnt s i + refs e i)"
    by (rule bump_law) (use ex assms(5-7) in auto)
  have "total refs (ts[h := bt_insert k e (ts ! h)]) i + refs x i = total refs ts i + refs e i" for i
    using total_update [OF assms(2), of refs "bt_insert k e (ts ! h)" i]
      held_bt_insert [OF assms(3), of refs k e i] assms(4) by simp
  then have "\<forall>i. cnt (bump e s) i = total refs (ts[h := bt_insert k e (ts ! h)]) i + held refs [x] i"
    using b ex by simp
  with drop_pending [of "bump e s" "ts[h := bt_insert k e (ts ! h)]" "[x]"] b show ?thesis by simp
qed

lemma close_table:
  assumes "exact good cnt refs ts s" "h < length ts"
    and "\<forall>i. held refs (map snd es) i + held refs closed i = held refs (map snd (ts ! h)) i"
  shows "exact good cnt refs (ts[h := es]) (fold drp closed s)"
proof (rule drop_pending)
  show "good s" using assms(1) by (simp add: exact_def)
  show "\<forall>i. cnt s i = total refs (ts[h := es]) i + held refs closed i"
  proof
    fix i
    have "total refs (ts[h := es]) i + held refs closed i = total refs ts i"
      using total_update [OF assms(2), of refs es i] assms(3) [rule_format, of i] by linarith
    then show "cnt s i = total refs (ts[h := es]) i + held refs closed i" using assms(1) by (simp add: exact_def)
  qed
qed

lemma copy_table:
  assumes "exact good cnt refs ts s" "h < length ts" "es = filter P (ts ! h)" "\<forall>e \<in> set (map snd es). copies e"
    and "\<forall>i. total refs ts i + held refs (map snd (ts ! h)) i < cap"
  shows "exact good cnt refs (ts @ [es]) (fold bump (map snd es) s)"
proof -
  have ex: "good s" "\<forall>i. cnt s i = total refs ts i" using assms(1) by (simp_all add: exact_def)
  have le: "\<forall>e \<in> set (map snd es). copies e \<and> (\<forall>i. refs e i \<le> cnt s i)"
  proof (intro ballI conjI allI)
    fix e i
    assume "e \<in> set (map snd es)"
    then have "e \<in> set (map snd (ts ! h))" using assms(3) by auto
    from held_member [OF this, of refs i] total_nth [OF assms(2), of refs i] ex(2) show "refs e i \<le> cnt s i"
      by simp
  qed (use assms(4) in blast)
  have "\<forall>i. cnt s i + held refs (map snd es) i < cap"
  proof
    fix i
    show "cnt s i + held refs (map snd es) i < cap"
      using held_filter_le [of refs P "ts ! h" i] assms(3) assms(5) [rule_format, of i] ex(2) by simp
  qed
  from bump_all [OF ex(1) le this] ex(2) show ?thesis by (simp add: exact_def)
qed

text \<open>Nothing refers to an object when its count is zero, and the count is zero when nothing does.\<close>

lemma exact_zero:
  "exact good cnt refs ts s \<Longrightarrow> cnt s i = 0 \<longleftrightarrow> (\<forall>es \<in> set ts. \<forall>e \<in> snd ` set es. refs e i = 0)"
  by (auto simp: exact_def total_def held_def)

end

end
