(* ===== verification/Fd_Syscall.thy ===== *)
theory Fd_Syscall
  imports Fd_Table Fd_Refs
begin

text \<open>
  The system calls on descriptors: \<open>dup\<close>, \<open>dup3\<close>, \<open>close\<close>, \<open>close_range\<close> and \<open>fcntl\<close> of
  \<open>src/syscall/fs.rs\<close>, \<open>pipe2\<close>, \<open>eventfd2\<close> and \<open>socketpair\<close>, with what \<open>fork\<close>, \<open>execve\<close> and exit
  do to a table (\<open>process/fd.rs\<close>, \<open>src/syscall/proc.rs\<close>). The state holds every table, named by its
  position, and the objects that entries refer to; threads that share their descriptors use the
  same table. Closing an entry of another kind only calls the component that owns the object;
  those calls are recorded in \<open>released\<close>.
\<close>

section \<open>State\<close>

datatype release =
    RemoveSocket nat | RemoveChildChannel u32 | EpollDestroy u32 | PidfdClose u32 | AudioStop
  | FwdClose u32 | RemoteFdClose u16 u32 remote_kind

record objects =
  obj_pipes :: pipes
  obj_efds :: eventfds
  obj_threads :: threads
  released :: "release list"

record fd_world =
  tables :: "fd_table list"
  objs :: objects

definition put_table :: "nat \<Rightarrow> fd_table \<Rightarrow> objects \<Rightarrow> fd_world \<Rightarrow> fd_world" where
  "put_table h t ob w = w\<lparr>tables := (tables w)[h := t], objs := ob\<rparr>"

section \<open>References of an entry\<close>

text \<open>The references that \<open>dup\<close> and \<open>dup3\<close>, \<open>fcntl\<close> and \<open>fork\<close> take for a copied entry.\<close>

definition clone_pipe :: "u32 \<Rightarrow> bool \<Rightarrow> objects \<Rightarrow> objects" where
  "clone_pipe pipe_id is_write ob = ob\<lparr>obj_pipes := pipe_clone_ref pipe_id is_write (obj_pipes ob)\<rparr>"

fun dup_ref :: "file_descriptor \<Rightarrow> objects \<Rightarrow> objects" where
  "dup_ref (PipeWrite i) ob = clone_pipe i True ob"
| "dup_ref (PipeRead i) ob = clone_pipe i False ob"
| "dup_ref (UnixSocket r x) ob = clone_pipe x True (clone_pipe r False ob)"
| "dup_ref _ ob = ob"

fun fcntl_ref :: "file_descriptor \<Rightarrow> objects \<Rightarrow> objects" where
  "fcntl_ref (PipeWrite i) ob = clone_pipe i True ob"
| "fcntl_ref (PipeRead i) ob = clone_pipe i False ob"
| "fcntl_ref _ ob = ob"

fun fork_ref :: "file_descriptor \<Rightarrow> objects \<Rightarrow> objects" where
  "fork_ref (PipeWrite i) ob = clone_pipe i True ob"
| "fork_ref (PipeRead i) ob = clone_pipe i False ob"
| "fork_ref (UnixSocket r x) ob = clone_pipe x True (clone_pipe r False ob)"
| "fork_ref (EventFd i) ob = ob\<lparr>obj_efds := eventfd_clone_ref i (obj_efds ob)\<rparr>"
| "fork_ref _ ob = ob"

text \<open>Releasing an entry: pipe ends and event counters here, other kinds by the calls of the site.\<close>

definition end_write :: "u32 \<Rightarrow> objects \<Rightarrow> objects" where
  "end_write i ob =
     (case pipe_close_write i (obj_pipes ob) (obj_threads ob) of (s, t) \<Rightarrow> ob\<lparr>obj_pipes := s, obj_threads := t\<rparr>)"

definition end_read :: "u32 \<Rightarrow> objects \<Rightarrow> objects" where
  "end_read i ob = ob\<lparr>obj_pipes := pipe_close_read i (obj_pipes ob)\<rparr>"

fun drop_ref :: "file_descriptor \<Rightarrow> objects \<Rightarrow> objects" where
  "drop_ref (PipeWrite i) ob = end_write i ob"
| "drop_ref (PipeRead i) ob = end_read i ob"
| "drop_ref (UnixSocket r x) ob = end_write x (end_read r ob)"
| "drop_ref (EventFd i) ob = ob\<lparr>obj_efds := eventfd_close i (obj_efds ob)\<rparr>"
| "drop_ref _ ob = ob"

definition drop_entry :: "(file_descriptor \<Rightarrow> release list) \<Rightarrow> file_descriptor \<Rightarrow> objects \<Rightarrow> objects" where
  "drop_entry rel e ob = (drop_ref e ob)\<lparr>released := released ob @ rel e\<rparr>"

fun close_releases :: "file_descriptor \<Rightarrow> release list" where
  "close_releases (Socket idx) = [RemoveSocket idx]"
| "close_releases (ChildStdout pid) = [RemoveChildChannel pid]"
| "close_releases (EpollFd i) = [EpollDestroy i]"
| "close_releases (PidFd i) = [PidfdClose i]"
| "close_releases DevDsp = [AudioStop]"
| "close_releases (RemoteFd _ hnd _) = [FwdClose hnd]"
| "close_releases _ = []"

fun close_range_releases :: "file_descriptor \<Rightarrow> release list" where
  "close_range_releases (Socket idx) = [RemoveSocket idx]"
| "close_range_releases (ChildStdout pid) = [RemoveChildChannel pid]"
| "close_range_releases (RemoteFd _ hnd _) = [FwdClose hnd]"
| "close_range_releases _ = []"

fun dup3_releases :: "file_descriptor \<Rightarrow> release list" where
  "dup3_releases (Socket idx) = [RemoveSocket idx]"
| "dup3_releases _ = []"

fun exec_releases :: "file_descriptor \<Rightarrow> release list" where
  "exec_releases (Socket idx) = [RemoveSocket idx]"
| "exec_releases (ChildStdout pid) = [RemoveChildChannel pid]"
| "exec_releases (EpollFd i) = [EpollDestroy i]"
| "exec_releases (PidFd i) = [PidfdClose i]"
| "exec_releases _ = []"

fun close_all_releases :: "file_descriptor \<Rightarrow> release list" where
  "close_all_releases (Socket idx) = [RemoveSocket idx]"
| "close_all_releases (ChildStdout pid) = [RemoveChildChannel pid]"
| "close_all_releases (EpollFd i) = [EpollDestroy i]"
| "close_all_releases (PidFd i) = [PidfdClose i]"
| "close_all_releases (RemoteFd ow hnd k) = [RemoteFdClose ow hnd k]"
| "close_all_releases _ = []"

section \<open>Copying and closing\<close>

text \<open>The calls of the process whose table is number \<open>h\<close>; \<open>None\<close> when there is no current process.\<close>

definition sys_dup :: "nat option \<Rightarrow> u32 \<Rightarrow> fd_world \<Rightarrow> u64 \<times> fd_world" where
  "sys_dup cur oldfd w =
     (case cur of
        None \<Rightarrow> (ENOSYS, w)
      | Some h \<Rightarrow>
          let t = tables w ! h in
          case get_fd t oldfd of
            None \<Rightarrow> (EBADF, w)
          | Some e \<Rightarrow>
              (case alloc_fd e t of
                 (newfd, t1) \<Rightarrow> (ucast newfd, put_table h (clear_cloexec newfd t1) (dup_ref e (objs w)) w)))"

definition sys_dup3 :: "nat option \<Rightarrow> u32 \<Rightarrow> u32 \<Rightarrow> u32 \<Rightarrow> fd_world \<Rightarrow> u64 \<times> fd_world" where
  "sys_dup3 cur oldfd newfd flags w =
     (if oldfd = newfd then (EINVAL, w)
      else case cur of
        None \<Rightarrow> (ENOSYS, w)
      | Some h \<Rightarrow>
          let t = tables w ! h in
          case get_fd t oldfd of
            None \<Rightarrow> (EBADF, w)
          | Some e \<Rightarrow>
              (case swap_fd newfd e t of
                 (old_entry, t1) \<Rightarrow>
                   let t2 = (if flags AND O_CLOEXEC \<noteq> 0 then set_cloexec newfd t1 else clear_cloexec newfd t1);
                       ob1 = dup_ref e (objs w);
                       ob2 = (case old_entry of Some x \<Rightarrow> drop_entry dup3_releases x ob1 | None \<Rightarrow> ob1)
                   in (ucast newfd, put_table h t2 ob2 w)))"

definition sys_close :: "nat option \<Rightarrow> u32 \<Rightarrow> fd_world \<Rightarrow> u64 \<times> fd_world" where
  "sys_close cur fd w =
     (case cur of
        None \<Rightarrow> (ESRCH, w)
      | Some h \<Rightarrow>
          (case remove_fd fd (tables w ! h) of
             (None, _) \<Rightarrow> (EBADF, w)
           | (Some e, t1) \<Rightarrow>
               (0, put_table h (clear_nonblock fd (clear_cloexec fd t1)) (drop_entry close_releases e (objs w)) w)))"

definition CLOSE_RANGE_CLOEXEC :: u32 where "CLOSE_RANGE_CLOEXEC = 4"

text \<open>The loop of \<open>close_range\<close> over the descriptors found at its start.\<close>

fun close_each :: "nat \<Rightarrow> u32 \<Rightarrow> u32 list \<Rightarrow> fd_world \<Rightarrow> fd_world" where
  "close_each h flags [] w = w"
| "close_each h flags (fd # fds) w =
     close_each h flags fds
       (let t = tables w ! h in
        if flags AND CLOSE_RANGE_CLOEXEC \<noteq> 0 then put_table h (set_cloexec fd t) (objs w) w
        else case remove_fd fd t of
               (None, _) \<Rightarrow> w
             | (Some e, t1) \<Rightarrow>
                 put_table h (clear_nonblock fd (clear_cloexec fd t1)) (drop_entry close_range_releases e (objs w)) w)"

text \<open>The range of an ordered map panics when its start lies behind its end: \<open>None\<close>.\<close>

definition sys_close_range :: "nat option \<Rightarrow> u32 \<Rightarrow> u32 \<Rightarrow> u32 \<Rightarrow> fd_world \<Rightarrow> u64 option \<times> fd_world" where
  "sys_close_range cur fst_fd lst_fd flags w =
     (case cur of
        None \<Rightarrow> (Some EBADF, w)
      | Some h \<Rightarrow>
          if lst_fd < fst_fd then (None, w)
          else let fds = filter (\<lambda>fd. fst_fd \<le> fd \<and> fd \<le> lst_fd) (map fst (fd_entries (tables w ! h)))
               in (Some 0, close_each h flags fds w))"

section \<open>fcntl\<close>

definition F_DUPFD :: u32 where "F_DUPFD = 0"
definition F_GETFD :: u32 where "F_GETFD = 1"
definition F_SETFD :: u32 where "F_SETFD = 2"
definition F_GETFL :: u32 where "F_GETFL = 3"
definition F_SETFL :: u32 where "F_SETFL = 4"
definition F_GETLK :: u32 where "F_GETLK = 5"
definition F_SETLK :: u32 where "F_SETLK = 6"
definition F_SETLKW :: u32 where "F_SETLKW = 7"
definition F_DUPFD_CLOEXEC :: u32 where "F_DUPFD_CLOEXEC = 1030"
definition FD_CLOEXEC :: u64 where "FD_CLOEXEC = 1"
definition O_NONBLOCK :: u64 where "O_NONBLOCK = 0x800"

definition sys_fcntl :: "nat option \<Rightarrow> u32 \<Rightarrow> u32 \<Rightarrow> u64 \<Rightarrow> fd_world \<Rightarrow> u64 \<times> fd_world" where
  "sys_fcntl cur fd cmd arg w =
     (case cur of
        None \<Rightarrow> (EBADF, w)
      | Some h \<Rightarrow>
          let t = tables w ! h in
          case get_fd t fd of
            None \<Rightarrow> (EBADF, w)
          | Some e \<Rightarrow>
              if cmd = F_DUPFD \<or> cmd = F_DUPFD_CLOEXEC
              then (case alloc_fd_from (ucast arg) e t of
                      (new_fd, t1) \<Rightarrow>
                        (ucast new_fd,
                         put_table h (if cmd = F_DUPFD_CLOEXEC then set_cloexec new_fd t1 else t1)
                           (fcntl_ref e (objs w)) w))
              else if cmd = F_GETFD then (if is_cloexec t fd then FD_CLOEXEC else 0, w)
              else if cmd = F_SETFD
              then (0, put_table h (if arg AND FD_CLOEXEC \<noteq> 0 then set_cloexec fd t else clear_cloexec fd t) (objs w) w)
              else if cmd = F_GETFL then (if is_nonblock t fd then O_NONBLOCK else 0, w)
              else if cmd = F_SETFL
              then (0, put_table h (if arg AND O_NONBLOCK \<noteq> 0 then set_nonblock fd t else clear_nonblock fd t) (objs w) w)
              else if cmd = F_GETLK \<or> cmd = F_SETLK \<or> cmd = F_SETLKW then (0, w)
              else (EINVAL, w))"

section \<open>New objects\<close>

definition create_pipe :: "objects \<Rightarrow> u32 \<times> objects" where
  "create_pipe ob = (case pipe_create (obj_pipes ob) of (i, s) \<Rightarrow> (i, ob\<lparr>obj_pipes := s\<rparr>))"

definition two_fds :: "u32 \<Rightarrow> u32 \<Rightarrow> bytes" where
  "two_fds a b = to_ne_bytes 4 a @ to_ne_bytes 4 b"

definition sys_pipe2 :: "nat option \<Rightarrow> u64 \<Rightarrow> u32 \<Rightarrow> user_mem \<Rightarrow> fd_world \<Rightarrow> u64 \<times> user_mem \<times> fd_world" where
  "sys_pipe2 cur fds_ptr flags m w =
     (if \<not> validate_user_ptr m fds_ptr 8 then (EFAULT, m, w)
      else case cur of
        None \<Rightarrow> (ENOSYS, m, w)
      | Some h \<Rightarrow>
          let (i, ob) = create_pipe (objs w);
              (fd_r, t1) = alloc_fd (PipeRead i) (tables w ! h);
              (fd_w, t2) = alloc_fd (PipeWrite i) t1;
              t3 = (if flags AND O_CLOEXEC \<noteq> 0 then set_cloexec fd_w (set_cloexec fd_r t2) else t2)
          in (case copy_to_user_safe fds_ptr (two_fds fd_r fd_w) m of
                (ok, m1) \<Rightarrow> (if ok then 0 else EFAULT, m1, put_table h t3 ob w)))"

definition sys_eventfd2 :: "nat option \<Rightarrow> u32 \<Rightarrow> u32 \<Rightarrow> fd_world \<Rightarrow> u64 \<times> fd_world" where
  "sys_eventfd2 cur initval flags w =
     (case cur of
        None \<Rightarrow> (ENOSYS, w)
      | Some h \<Rightarrow>
          let (i, s) = eventfd_create initval flags (obj_efds (objs w));
              (fd, t1) = alloc_fd (EventFd i) (tables w ! h);
              t2 = (if flags AND EFD_CLOEXEC \<noteq> 0 then set_cloexec fd t1 else t1);
              t3 = (if flags AND EFD_NONBLOCK \<noteq> 0 then set_nonblock fd t2 else t2)
          in (ucast fd, put_table h t3 ((objs w)\<lparr>obj_efds := s\<rparr>) w))"

definition sys_socketpair ::
    "nat option \<Rightarrow> u32 \<Rightarrow> u32 \<Rightarrow> u64 \<Rightarrow> user_mem \<Rightarrow> fd_world \<Rightarrow> u64 \<times> user_mem \<times> fd_world" where
  "sys_socketpair cur domain sock_type sv_ptr m w =
     (let base_type = sock_type AND 0xFF in
      if domain \<noteq> 1 \<or> base_type \<noteq> 1 \<and> base_type \<noteq> 5 then (EAFNOSUPPORT, m, w)
      else if \<not> validate_user_ptr m sv_ptr 8 then (EFAULT, m, w)
      else case cur of
        None \<Rightarrow> (ESRCH, m, w)
      | Some h \<Rightarrow>
          let (px, ob1) = create_pipe (objs w);
              (py, ob2) = create_pipe ob1;
              (fd0, t1) = alloc_fd (UnixSocket px py) (tables w ! h);
              (fd1, t2) = alloc_fd (UnixSocket py px) t1;
              t3 = (if sock_type AND 0x80000 \<noteq> 0 then set_cloexec fd1 (set_cloexec fd0 t2) else t2);
              t4 = (if sock_type AND 0x800 \<noteq> 0 then set_nonblock fd1 (set_nonblock fd0 t3) else t3)
          in (case copy_to_user_safe sv_ptr (two_fds fd0 fd1) m of
                (True, m1) \<Rightarrow> (0, m1, put_table h t4 ob2 w)
              | (False, m1) \<Rightarrow>
                  (EFAULT, m1,
                   put_table h
                     (clear_nonblock fd1 (clear_nonblock fd0 (clear_cloexec fd1 (clear_cloexec fd0
                        (snd (remove_fd fd1 (snd (remove_fd fd0 t4))))))))
                     (end_write py (end_read py (end_write px (end_read px ob2)))) w)))"

section \<open>Processes\<close>

text \<open>The table of a new process made by \<open>fork\<close>, appended to the tables.\<close>

definition is_epoll :: "file_descriptor \<Rightarrow> bool" where
  "is_epoll e = (case e of EpollFd _ \<Rightarrow> True | _ \<Rightarrow> False)"

definition clone_deep_for_fork :: "nat \<Rightarrow> fd_world \<Rightarrow> fd_world" where
  "clone_deep_for_fork h w =
     (let t = tables w ! h;
          cloned = filter (\<lambda>(_, e). \<not> is_epoll e) (fd_entries t)
      in w\<lparr>tables := tables w @ [\<lparr>fd_entries = cloned, cloexec = cloexec t, nonblock = nonblock t\<rparr>],
           objs := fold fork_ref (map snd cloned) (objs w)\<rparr>)"

definition exec_close :: "nat \<Rightarrow> fd_world \<Rightarrow> fd_world" where
  "exec_close h w =
     (case close_cloexec_fds (tables w ! h) of
        (closed, t) \<Rightarrow> put_table h t (fold (drop_entry exec_releases) (map snd closed) (objs w)) w)"

definition close_all :: "nat \<Rightarrow> fd_world \<Rightarrow> fd_world" where
  "close_all h w =
     (let t = tables w ! h
      in put_table h (t\<lparr>fd_entries := []\<rparr>)
           (fold (drop_entry close_all_releases) (map snd (fd_entries t)) (objs w)) w)"

end
