(* ===== verification/Fd_Steps.thy ===== *)
theory Fd_Steps
  imports Fd_Syscall
begin

text \<open>
  Sequences of descriptor calls by any number of processes: the reachable states, that every table
  stays well-formed, and that the lowest free number is one.
\<close>

section \<open>Sequences of calls\<close>

text \<open>
  \<open>FAlloc\<close> stands for the calls that make a descriptor of another kind (files, devices, sockets,
  epoll instances, timers and so on), \<open>FSpawn\<close> for a process that starts with a fresh table, \<open>FIO\<close>
  for reading, writing and polling pipes.
\<close>

datatype fd_op =
    FDup u32 | FDup3 u32 u32 u32 | FClose u32 | FCloseRange u32 u32 u32 | FFcntl u32 u32 u64
  | FPipe2 u64 u32 user_mem | FSocketpair u32 u32 u64 user_mem | FEventfd2 u32 u32
  | FAlloc file_descriptor | FSpawn | FFork | FExec | FExit | FIO pipe_op

fun fd_apply :: "(nat \<Rightarrow> signal_table option) \<Rightarrow> nat \<Rightarrow> fd_op \<Rightarrow> fd_world \<Rightarrow> fd_world" where
  "fd_apply _ h (FDup fd) w = snd (sys_dup (Some h) fd w)"
| "fd_apply _ h (FDup3 oldfd newfd flags) w = snd (sys_dup3 (Some h) oldfd newfd flags w)"
| "fd_apply _ h (FClose fd) w = snd (sys_close (Some h) fd w)"
| "fd_apply _ h (FCloseRange a b flags) w = snd (sys_close_range (Some h) a b flags w)"
| "fd_apply _ h (FFcntl fd cmd arg) w = snd (sys_fcntl (Some h) fd cmd arg w)"
| "fd_apply _ h (FPipe2 p flags m) w = snd (snd (sys_pipe2 (Some h) p flags m w))"
| "fd_apply _ h (FSocketpair domain ty p m) w = snd (snd (sys_socketpair (Some h) domain ty p m w))"
| "fd_apply _ h (FEventfd2 v flags) w = snd (sys_eventfd2 (Some h) v flags w)"
| "fd_apply _ h (FAlloc e) w = put_table h (snd (alloc_fd e (tables w ! h))) (objs w) w"
| "fd_apply _ h FSpawn w = w\<lparr>tables := tables w @ [with_stdio]\<rparr>"
| "fd_apply _ h FFork w = clone_deep_for_fork h w"
| "fd_apply _ h FExec w = exec_close h w"
| "fd_apply _ h FExit w = close_all h w"
| "fd_apply tbl h (FIO op) w =
     w\<lparr>objs := (case pipe_apply tbl op (obj_pipes (objs w), obj_threads (objs w)) of
                  (s, t) \<Rightarrow> (objs w)\<lparr>obj_pipes := s, obj_threads := t\<rparr>)\<rparr>"

text \<open>Entries without references to pipes or event counters; pipe operations on data only.\<close>

fun plain :: "file_descriptor \<Rightarrow> bool" where
  "plain (PipeRead _) = False" | "plain (PipeWrite _) = False" | "plain (UnixSocket _ _) = False"
| "plain (EventFd _) = False" | "plain _ = True"

fun data_op :: "pipe_op \<Rightarrow> bool" where
  "data_op (OpWrite _ _) = True" | "data_op (OpRead _ _) = True" | "data_op (OpPoll _ _) = True"
| "data_op (OpCheck _ _) = True" | "data_op _ = False"

text \<open>The entry a call copies.\<close>

fun dup_source :: "fd_op \<Rightarrow> fd_table \<Rightarrow> file_descriptor option" where
  "dup_source (FDup fd) t = get_fd t fd"
| "dup_source (FDup3 oldfd _ _) t = get_fd t oldfd"
| "dup_source _ _ = None"

fun fcntl_source :: "fd_op \<Rightarrow> fd_table \<Rightarrow> file_descriptor option" where
  "fcntl_source (FFcntl fd cmd _) t = (if cmd = F_DUPFD \<or> cmd = F_DUPFD_CLOEXEC then get_fd t fd else None)"
| "fcntl_source _ _ = None"

fun fcntl_number :: "fd_op \<Rightarrow> fd_table \<Rightarrow> u32" where
  "fcntl_number (FFcntl _ _ arg) t = lowest_available_fd (fd_entries t) (ucast arg)"
| "fcntl_number _ _ = 0"

definition fds_open :: "fd_world \<Rightarrow> nat" where
  "fds_open w = sum_list (map (\<lambda>t. length (fd_entries t)) (tables w))"

text \<open>Room for one more call: 32-bit counters and identifiers do not wrap around.\<close>

definition room :: "fd_world \<Rightarrow> bool" where
  "room w \<longleftrightarrow> fds_open w < 2 ^ 31 \<and> NEXT_PIPE_ID (obj_pipes (objs w)) < - 2
     \<and> NEXT_EVENTFD_ID (obj_efds (objs w)) \<noteq> - 1"

text \<open>
  The calls considered: made by a process with a table, with room, copying by \<open>dup\<close> only entries
  in \<open>D\<close> and by \<open>fcntl\<close> only entries in \<open>F\<close>, to a number that is free.
\<close>

definition allowed ::
    "(file_descriptor \<Rightarrow> bool) \<Rightarrow> (file_descriptor \<Rightarrow> bool) \<Rightarrow> nat \<Rightarrow> fd_op \<Rightarrow> fd_world \<Rightarrow> bool" where
  "allowed D F h op w \<longleftrightarrow>
     h < length (tables w) \<and> room w
     \<and> (case dup_source op (tables w ! h) of Some e \<Rightarrow> D e | None \<Rightarrow> True)
     \<and> (case fcntl_source op (tables w ! h) of
          Some e \<Rightarrow> F e \<and> get_fd (tables w ! h) (fcntl_number op (tables w ! h)) = None
        | None \<Rightarrow> True)
     \<and> (case op of FAlloc e \<Rightarrow> plain e | FIO p \<Rightarrow> data_op p | _ \<Rightarrow> True)"

definition boot :: "threads \<Rightarrow> fd_world" where
  "boot t = \<lparr>tables = [with_stdio], objs = \<lparr>obj_pipes = pipes_new, obj_efds = eventfds_new, obj_threads = t, released = []\<rparr>\<rparr>"

inductive fd_reach ::
    "(file_descriptor \<Rightarrow> bool) \<Rightarrow> (file_descriptor \<Rightarrow> bool) \<Rightarrow> (nat \<Rightarrow> signal_table option) \<Rightarrow> fd_world \<Rightarrow> bool"
  for D F tbl where
  start: "fd_reach D F tbl (boot t)"
| step: "fd_reach D F tbl w \<Longrightarrow> allowed D F h op w \<Longrightarrow> fd_reach D F tbl (fd_apply tbl h op w)"

section \<open>Tables stay well-formed\<close>

definition fdw_wf :: "fd_world \<Rightarrow> bool" where
  "fdw_wf w \<longleftrightarrow> (\<forall>t \<in> set (tables w). fdt_wf t)"

lemma put_table_simps [simp]:
  "tables (put_table h t ob w) = (tables w)[h := t]" "objs (put_table h t ob w) = ob"
  by (simp_all add: put_table_def)

lemma fdw_wf_nth: "fdw_wf w \<Longrightarrow> h < length (tables w) \<Longrightarrow> fdt_wf (tables w ! h)"
  by (simp add: fdw_wf_def)

lemma fdw_wf_put [wf_intros]: "fdw_wf w \<Longrightarrow> fdt_wf t \<Longrightarrow> fdw_wf (put_table h t ob w)"
  using set_update_subset_insert [of "tables w" h t] by (auto simp: fdw_wf_def)

lemma fdt_wf_insert [wf_intros]: "fdt_wf t \<Longrightarrow> fdt_wf (t\<lparr>fd_entries := bt_insert k e (fd_entries t)\<rparr>)"
  by (simp add: fdt_wf_def bt_wf_insert)

lemma fdt_wf_remove [wf_intros]: "fdt_wf t \<Longrightarrow> fdt_wf (t\<lparr>fd_entries := bt_remove k (fd_entries t)\<rparr>)"
  by (simp add: fdt_wf_def bt_wf_remove)

lemma alloc_fd_wf [wf_intros]: "fdt_wf t \<Longrightarrow> fdt_wf (snd (alloc_fd_from n e t))" "fdt_wf t \<Longrightarrow> fdt_wf (snd (alloc_fd e t))"
  by (auto simp: alloc_fd_def alloc_fd_from_def Let_def intro: wf_intros)

lemma remove_fd_wf [wf_intros]: "fdt_wf t \<Longrightarrow> fdt_wf (snd (remove_fd fd t))"
  by (simp add: remove_fd_def fdt_wf_remove)

lemmas fdt_intros = remove_fd_wf fdw_wf_put fdt_wf_flags fdt_wf_insert fdt_wf_remove alloc_fd_wf

lemma take_fds_spec:
  assumes "bt_wf es" "take_fds fds es = (closed, es1)"
  shows "bt_wf es1"
    and "held refs (map snd es1) i + held refs (map snd closed) i = held refs (map snd es) i"
    and "map_of es1 k = (if k \<in> set fds then None else map_of es k)"
    and "map_of closed k = (if k \<in> set fds then map_of es k else None)"
  using assms
proof (induction fds es arbitrary: closed es1 rule: take_fds.induct)
  case (2 fd fds es)
  {
    case 1
    then show ?case using "2.IH" by (auto split: option.splits prod.splits simp: bt_wf_remove)
  next
    case 2
    show ?case
    proof (cases "map_of es fd")
      case None
      with 2 "2.IH"(2) show ?thesis by simp
    next
      case (Some e)
      obtain c1 e1 where t: "take_fds fds (bt_remove fd es) = (c1, e1)" by fastforce
      have "held refs (map snd e1) i + held refs (map snd c1) i = held refs (map snd (bt_remove fd es)) i"
        by (rule "2.IH"(6) [OF Some bt_wf_remove [OF 2(1)] t])
      moreover have "held refs (map snd (bt_remove fd es)) i + refs e i = held refs (map snd es) i"
        using held_bt_remove [OF 2(1), of refs fd i] Some by simp
      moreover have "closed = (fd, e) # c1" "es1 = e1" using 2(2) Some t by auto
      ultimately show ?thesis by simp
    qed
  next
    case 3
    then show ?case using "2.IH" by (auto split: option.splits prod.splits simp: bt_wf_remove)
  next
    case 4
    then show ?case using "2.IH" by (auto split: option.splits prod.splits simp: bt_wf_remove)
  }
qed auto

lemma fd_apply_wf:
  assumes "fdw_wf w" "h < length (tables w)"
  shows "fdw_wf (fd_apply tbl h op w)"
proof -
  note t = fdw_wf_nth [OF assms]
  show ?thesis
  proof (cases op)
    case (FDup fd)
    with assms t show ?thesis
      by (auto simp: sys_dup_def Let_def case_prod_beta split: option.splits intro!: fdt_intros)
  next
    case (FDup3 oldfd newfd flags)
    with assms t show ?thesis
      by (auto simp: sys_dup3_def swap_fd_def Let_def split: option.splits intro!: fdt_intros)
  next
    case (FClose fd)
    with assms t show ?thesis
      by (auto simp: sys_close_def remove_fd_def split: option.splits intro!: fdt_intros)
  next
    case (FCloseRange a b flags)
    have "fdw_wf w \<Longrightarrow> h < length (tables w) \<Longrightarrow> fdw_wf (close_each h flags fds w)" for fds
    proof (induction fds arbitrary: w)
      case (Cons fd fds)
      show ?case unfolding close_each.simps
        by (rule Cons.IH) (use Cons.prems fdw_wf_nth [OF Cons.prems] in
            \<open>auto simp: remove_fd_def Let_def split: option.splits intro!: fdt_intros\<close>)
    qed simp
    with assms FCloseRange show ?thesis by (auto simp: sys_close_range_def Let_def)
  next
    case (FFcntl fd cmd arg)
    with assms t show ?thesis
      by (cases "get_fd (tables w ! h) fd") (simp_all add: sys_fcntl_def Let_def case_prod_beta fdt_intros)
  next
    case (FPipe2 p flags m)
    with assms t show ?thesis
      by (auto simp: sys_pipe2_def Let_def case_prod_beta intro!: fdt_intros)
  next
    case (FSocketpair domain ty p m)
    with assms t show ?thesis
      by (simp add: sys_socketpair_def Let_def case_prod_beta fdt_intros split: bool.split)
  next
    case (FEventfd2 v flags)
    with assms t show ?thesis
      by (auto simp: sys_eventfd2_def Let_def case_prod_beta intro!: fdt_intros)
  next
    case FExec
    obtain c es where s: "take_fds (cloexec (tables w ! h)) (fd_entries (tables w ! h)) = (c, es)" by fastforce
    from take_fds_spec(1) [OF _ s] t have "bt_wf es" by (simp add: fdt_wf_def)
    with assms t s FExec show ?thesis
      by (auto simp: exec_close_def close_cloexec_fds_def fdt_wf_def bs_wf_Nil intro!: fdt_intros)
  next
    case FFork
    with assms t show ?thesis
      by (auto simp: clone_deep_for_fork_def Let_def fdw_wf_def fdt_wf_def bt_wf_def sorted_wrt_map intro!: sorted_wrt_filter)
  next
    case FExit
    with assms t show ?thesis
      by (auto simp: close_all_def Let_def bt_wf_def fdt_wf_def intro!: fdt_intros)
  next
    case (FAlloc e)
    with assms t show ?thesis by (auto intro!: fdt_intros)
  next
    case FSpawn
    with assms show ?thesis by (auto simp: fdw_wf_def intro: wf_intros)
  next
    case (FIO p)
    with assms show ?thesis by (simp add: fdw_wf_def)
  qed
qed

section \<open>A free number\<close>

lemma lowest_fd:
  assumes "bt_wf es" "lowest_available_fd es n = g"
  shows "n \<le> g \<and> map_of es g = None \<and> (\<forall>k. n \<le> k \<and> k < g \<longrightarrow> map_of es k \<noteq> None)
    \<or> g = 0 \<and> (\<forall>k \<ge> n. map_of es k \<noteq> None)"
proof -
  let ?fs = "filter (\<lambda>(key, _). n \<le> key) es"
  have wf: "bt_wf ?fs" using assms(1) by (auto simp: bt_wf_def sorted_wrt_map intro: sorted_wrt_filter)
  have mem: "k \<in> fst ` set ?fs \<longleftrightarrow> n \<le> k \<and> map_of es k \<noteq> None" for k
    by (force simp: map_of_eq_None_iff)
  have "\<forall>k \<in> fst ` set ?fs. n \<le> k" by auto
  from first_gap_run [OF wf this, of g] assms(2) mem show ?thesis
    unfolding lowest_available_fd_def by blast
qed

lemma lowest_fd_free:
  assumes "bt_wf es" "length es < 2 ^ 32"
  shows "map_of es (lowest_available_fd es 0) = None"
proof (rule ccontr)
  assume "\<not> ?thesis"
  with lowest_fd [OF assms(1) refl, of 0] have "\<forall>k. map_of es k \<noteq> None" by auto
  then have "UNIV \<subseteq> fst ` set es" by (auto simp: map_of_eq_None_iff)
  then have "card (UNIV :: u32 set) \<le> card (fst ` set es)" by (intro card_mono) auto
  also have "\<dots> \<le> length es" by (metis card_image_le card_length finite_set le_trans)
  finally show False using assms(2) by (simp add: card_word)
qed

lemma length_entries_le: "h < length (tables w) \<Longrightarrow> length (fd_entries (tables w ! h)) \<le> fds_open w"
  unfolding fds_open_def by (rule elem_le_sum_list [of h "map (\<lambda>t. length (fd_entries t)) (tables w)", simplified])

lemma alloc_fd_fresh:
  assumes "fdt_wf t" "length (fd_entries t) < 2 ^ 32" "alloc_fd e t = (fd, t1)"
  shows "fd_entries t1 = bt_insert fd e (fd_entries t)" "map_of (fd_entries t) fd = None" "fdt_wf t1"
  using assms lowest_fd_free [of "fd_entries t"]
  by (auto simp: alloc_fd_def alloc_fd_from_def Let_def fdt_wf_def bt_wf_insert)

lemma length_bt_insert_le: "length (bt_insert k e es) \<le> Suc (length es)"
  by (induction k e es rule: bt_insert.induct) auto

end
