(* ===== verification/Fd_Proofs.thy ===== *)
theory Fd_Proofs
  imports Fd_Steps
begin

text \<open>
  What keeps descriptor tables and kernel objects consistent: the contract a kind of object has
  to offer for its counts to stay exact under all descriptor calls, its instances for pipe ends
  and event counters, and the properties.
\<close>

section \<open>The contract of a kind of object\<close>

text \<open>The counts of a kind of object are the references in all tables.\<close>

definition refs_ok ::
    "(objects \<Rightarrow> bool) \<Rightarrow> (objects \<Rightarrow> 'i \<Rightarrow> nat) \<Rightarrow> (file_descriptor \<Rightarrow> 'i \<Rightarrow> nat) \<Rightarrow> fd_world \<Rightarrow> bool" where
  "refs_ok good cnt refs w = exact good cnt refs (map fd_entries (tables w)) (objs w)"

lemma refs_ok_put:
  "h < length (tables w) \<Longrightarrow> refs_ok good cnt refs (put_table h t ob w)
     = exact good cnt refs ((map fd_entries (tables w))[h := fd_entries t]) ob"
  by (simp add: refs_ok_def map_update)

lemma refs_ok_same:
  assumes "refs_ok good cnt refs w" "fd_entries t = fd_entries (tables w ! h)"
  shows "refs_ok good cnt refs (put_table h t (objs w) w)"
proof -
  have "map fd_entries ((tables w)[h := t]) = map fd_entries (tables w)"
    using assms(2) by (metis list_update_id map_update)
  with assms(1) show ?thesis by (simp add: refs_ok_def)
qed

locale fd_objects =
  fixes good :: "objects \<Rightarrow> bool"
    and cnt :: "objects \<Rightarrow> 'i \<Rightarrow> nat"
    and refs :: "file_descriptor \<Rightarrow> 'i \<Rightarrow> nat"
    and D :: "file_descriptor \<Rightarrow> bool"
    and F :: "file_descriptor \<Rightarrow> bool"
  assumes fork_law:
      "\<lbrakk>good ob; \<forall>i. refs e i \<le> cnt ob i; \<forall>i. cnt ob i + refs e i < 2 ^ 32\<rbrakk>
       \<Longrightarrow> good (fork_ref e ob) \<and> (\<forall>i. cnt (fork_ref e ob) i = cnt ob i + refs e i)"
    and dup_law: "D e \<Longrightarrow> good (dup_ref e ob) = good (fork_ref e ob) \<and> cnt (dup_ref e ob) = cnt (fork_ref e ob)"
    and fcntl_law: "F e \<Longrightarrow> good (fcntl_ref e ob) = good (fork_ref e ob) \<and> cnt (fcntl_ref e ob) = cnt (fork_ref e ob)"
    and drop_law:
      "\<lbrakk>good ob; \<forall>i. refs e i \<le> cnt ob i\<rbrakk>
       \<Longrightarrow> good (drop_entry rel e ob) \<and> (\<forall>i. cnt (drop_entry rel e ob) i = cnt ob i - refs e i)"
    and refs_le: "refs e i \<le> 1"
    and plain_law: "plain e \<Longrightarrow> refs e i = 0"
    and unix_law: "refs (UnixSocket r x) i = refs (PipeRead r) i + refs (PipeWrite x) i"
    and pipe_law:
      "\<lbrakk>good ob; NEXT_PIPE_ID (obj_pipes ob) \<noteq> - 1; create_pipe ob = (k, ob')\<rbrakk>
       \<Longrightarrow> good ob' \<and> (\<forall>i. cnt ob' i = cnt ob i + refs (PipeRead k) i + refs (PipeWrite k) i)"
    and efd_law:
      "\<lbrakk>good ob; NEXT_EVENTFD_ID (obj_efds ob) \<noteq> - 1; eventfd_create v f (obj_efds ob) = (k, es)\<rbrakk>
       \<Longrightarrow> good (ob\<lparr>obj_efds := es\<rparr>) \<and> (\<forall>i. cnt (ob\<lparr>obj_efds := es\<rparr>) i = cnt ob i + refs (EventFd k) i)"
    and io_law:
      "\<lbrakk>data_op op; pipe_apply tbl op (obj_pipes ob, obj_threads ob) = (ps, ts)\<rbrakk>
       \<Longrightarrow> good (ob\<lparr>obj_pipes := ps, obj_threads := ts\<rparr>) = good ob
         \<and> cnt (ob\<lparr>obj_pipes := ps, obj_threads := ts\<rparr>) = cnt ob"

sublocale fd_objects \<subseteq> forks: ref_counted good cnt refs "\<lambda>_. True" fork_ref "drop_entry rel" "2 ^ 32" for rel
  by unfold_locales (use fork_law drop_law in auto)

sublocale fd_objects \<subseteq> dups: ref_counted good cnt refs D dup_ref "drop_entry rel" "2 ^ 32" for rel
  by unfold_locales (use fork_law drop_law dup_law in auto)

sublocale fd_objects \<subseteq> fcntls: ref_counted good cnt refs F fcntl_ref "drop_entry rel" "2 ^ 32" for rel
  by unfold_locales (use fork_law drop_law fcntl_law in auto)

context fd_objects
begin

lemma held_le_length: "held refs (map snd es) i \<le> length es"
proof (induction es)
  case (Cons x es)
  with refs_le [of "snd x" i] show ?case by simp
qed simp

lemma total_le_open: "total refs (map fd_entries (tables w)) i \<le> fds_open w"
proof -
  have "total refs (map fd_entries ts) i \<le> sum_list (map (\<lambda>t. length (fd_entries t)) ts)" for ts
  proof (induction ts)
    case (Cons t ts)
    with held_le_length [of "fd_entries t" i] show ?case by simp
  qed simp
  then show ?thesis by (simp add: fds_open_def)
qed

lemma small_total:
  assumes "room w"
  shows "total refs (map fd_entries (tables w)) i + refs e i < 2 ^ 32"
  using total_le_open [of w i] refs_le [of e i] assms by (simp add: room_def)

lemma new_two:
  assumes "refs_ok good cnt refs w" "h < length (tables w)" "fdt_wf (tables w ! h)" "room w"
    and "good ob" "\<forall>i. cnt ob i = cnt (objs w) i + refs e1 i + refs e2 i"
    and "alloc_fd e1 (tables w ! h) = (fd1, t1)" "alloc_fd e2 t1 = (fd2, t2)" "fd_entries t3 = fd_entries t2"
  shows "refs_ok good cnt refs (put_table h t3 ob w)"
proof -
  let ?ts = "map fd_entries (tables w)" and ?es = "fd_entries (tables w ! h)"
  have len: "length ?es < 2 ^ 31" using length_entries_le [OF assms(2)] assms(4) by (simp add: room_def)
  note a1 = alloc_fd_fresh [OF assms(3) _ assms(7)]
  have t1: "fd_entries t1 = bt_insert fd1 e1 ?es" "map_of ?es fd1 = None" "fdt_wf t1" using a1 len by simp_all
  have len1: "length (fd_entries t1) < 2 ^ 32" using length_bt_insert_le [of fd1 e1 ?es] t1(1) len by simp
  note t2 = alloc_fd_fresh [OF t1(3) len1 assms(8)]
  have wf: "bt_wf ?es" "bt_wf (fd_entries t1)" using assms(3) t1(3) by (simp_all add: fdt_wf_def)
  have 1: "total refs (?ts[h := fd_entries t1]) i = total refs ?ts i + refs e1 i" for i
    using total_insert [of h ?ts fd1 refs e1 i] assms(2) wf(1) t1(1,2) by simp
  have "total refs (?ts[h := fd_entries t2]) i = total refs (?ts[h := fd_entries t1]) i + refs e2 i" for i
    using total_insert [of h "?ts[h := fd_entries t1]" fd2 refs e2 i] assms(2) wf(2) t2(1,2) by simp
  with 1 assms(1,5,6,9) show ?thesis by (simp add: exact_def refs_ok_def map_update)
qed

lemma new_one:
  assumes "refs_ok good cnt refs w" "h < length (tables w)" "fdt_wf (tables w ! h)" "room w"
    and "good ob" "\<forall>i. cnt ob i = cnt (objs w) i + refs e i"
    and "alloc_fd e (tables w ! h) = (fd, t1)" "fd_entries t2 = fd_entries t1"
  shows "refs_ok good cnt refs (put_table h t2 ob w)"
proof -
  let ?ts = "map fd_entries (tables w)" and ?es = "fd_entries (tables w ! h)"
  have len: "length ?es < 2 ^ 32" using length_entries_le [OF assms(2)] assms(4) by (simp add: room_def)
  note t1 = alloc_fd_fresh [OF assms(3) len assms(7)]
  have "total refs (?ts[h := fd_entries t1]) i = total refs ?ts i + refs e i" for i
    using total_insert [of h ?ts fd refs e i] assms(2,3) t1(1,2) by (simp add: fdt_wf_def)
  with assms(1,5,6,8) show ?thesis by (simp add: exact_def refs_ok_def map_update)
qed

lemma copy_in_table:
  assumes "refs_ok good cnt refs w" "h < length (tables w)" "map_of (fd_entries (tables w ! h)) k = Some e"
  shows "\<forall>i. refs e i \<le> total refs (map fd_entries (tables w)) i"
  using total_entry [of h "map fd_entries (tables w)" k e refs] assms(2,3) by simp

lemma dup_exact:
  assumes "refs_ok good cnt refs w" "fdw_wf w" "allowed D F h (FDup fd) w"
  shows "refs_ok good cnt refs (fd_apply tbl h (FDup fd) w)"
proof (cases "get_fd (tables w ! h) fd")
  case None
  with assms(1) show ?thesis by (simp add: sys_dup_def Let_def)
next
  case (Some e)
  let ?t = "tables w ! h"
  have h: "h < length (tables w)" and r: "room w" and d: "D e" using assms(3) Some by (auto simp: allowed_def)
  note wf = fdw_wf_nth [OF assms(2) h]
  have len: "length (fd_entries ?t) < 2 ^ 32" using length_entries_le [OF h] r by (simp add: room_def)
  obtain n t1 where a: "alloc_fd e ?t = (n, t1)" by fastforce
  note t1 = alloc_fd_fresh [OF wf len a]
  have "exact good cnt refs ((map fd_entries (tables w))[h := bt_insert n e (map fd_entries (tables w) ! h)]) (dup_ref e (objs w))"
  proof (rule dups.insert_copy)
    show "\<forall>i. refs e i \<le> total refs (map fd_entries (tables w)) i"
      by (rule copy_in_table [OF assms(1) h]) (use Some in \<open>simp add: get_fd_def\<close>)
  qed (use assms(1) h wf d t1(2) small_total [OF r] in \<open>auto simp: refs_ok_def fdt_wf_def\<close>)
  with Some a t1(1) h show ?thesis by (simp add: sys_dup_def Let_def refs_ok_put)
qed

lemma fcntl_exact:
  assumes "refs_ok good cnt refs w" "fdw_wf w" "allowed D F h (FFcntl fd cmd arg) w"
  shows "refs_ok good cnt refs (fd_apply tbl h (FFcntl fd cmd arg) w)"
proof (cases "fcntl_source (FFcntl fd cmd arg) (tables w ! h)")
  case None
  then have "get_fd (tables w ! h) fd = None \<or> \<not> (cmd = F_DUPFD \<or> cmd = F_DUPFD_CLOEXEC)" by auto
  with assms(1) show ?thesis
    by (cases "get_fd (tables w ! h) fd") (simp_all add: sys_fcntl_def Let_def refs_ok_same)
next
  case (Some e)
  let ?t = "tables w ! h" and ?n = "lowest_available_fd (fd_entries (tables w ! h)) (ucast arg)"
  have e: "get_fd ?t fd = Some e" "cmd = F_DUPFD \<or> cmd = F_DUPFD_CLOEXEC" using Some by (auto split: if_splits)
  have h: "h < length (tables w)" and r: "room w" and f: "F e" and free: "get_fd ?t ?n = None"
    using assms(3) Some by (auto simp: allowed_def)
  note wf = fdw_wf_nth [OF assms(2) h]
  have "exact good cnt refs ((map fd_entries (tables w))[h := bt_insert ?n e (map fd_entries (tables w) ! h)]) (fcntl_ref e (objs w))"
  proof (rule fcntls.insert_copy)
    show "\<forall>i. refs e i \<le> total refs (map fd_entries (tables w)) i"
      by (rule copy_in_table [OF assms(1) h]) (use e in \<open>simp add: get_fd_def\<close>)
  qed (use assms(1) h wf f free small_total [OF r] in \<open>auto simp: refs_ok_def fdt_wf_def get_fd_def\<close>)
  with e h show ?thesis
    by (auto simp: sys_fcntl_def Let_def refs_ok_put alloc_fd_from_def)
qed

lemma dup3_exact:
  assumes "refs_ok good cnt refs w" "fdw_wf w" "allowed D F h (FDup3 oldfd newfd flags) w"
  shows "refs_ok good cnt refs (fd_apply tbl h (FDup3 oldfd newfd flags) w)"
proof (cases "oldfd = newfd \<or> get_fd (tables w ! h) oldfd = None")
  case True
  with assms(1) show ?thesis by (auto simp: sys_dup3_def Let_def)
next
  case False
  let ?ts = "map fd_entries (tables w)" and ?t = "tables w ! h"
  from False obtain e where e: "get_fd ?t oldfd = Some e" by auto
  have h: "h < length (tables w)" and r: "room w" and d: "D e" using assms(3) e by (auto simp: allowed_def)
  note wf = fdw_wf_nth [OF assms(2) h]
  have held: "\<forall>i. refs e i \<le> total refs ?ts i"
    by (rule copy_in_table [OF assms(1) h]) (use e in \<open>simp add: get_fd_def\<close>)
  have ex: "exact good cnt refs (?ts[h := bt_insert newfd e (?ts ! h)])
      (case map_of (fd_entries ?t) newfd of None \<Rightarrow> dup_ref e (objs w)
       | Some x \<Rightarrow> drop_entry dup3_releases x (dup_ref e (objs w)))"
  proof (cases "map_of (fd_entries ?t) newfd")
    case None
    with dups.insert_copy [of ?ts "objs w" h newfd e] assms(1) h wf d held small_total [OF r] show ?thesis
      by (simp add: refs_ok_def fdt_wf_def)
  next
    case (Some x)
    with dups.replace_entry [of ?ts "objs w" h newfd x e] assms(1) h wf d held small_total [OF r] show ?thesis
      by (simp add: refs_ok_def fdt_wf_def)
  qed
  have same: "fd_entries (if flags AND O_CLOEXEC \<noteq> 0 then set_cloexec newfd t else clear_cloexec newfd t) = fd_entries t" for t
    by simp
  from e False ex h same show ?thesis
    by (simp add: sys_dup3_def Let_def swap_fd_def refs_ok_put split: option.splits)
qed

lemma remove_exact:
  assumes "refs_ok good cnt refs w" "fdw_wf w" "h < length (tables w)" "remove_fd fd (tables w ! h) = (Some e, t1)"
    and "fd_entries t2 = fd_entries t1"
  shows "refs_ok good cnt refs (put_table h t2 (drop_entry rel e (objs w)) w)"
proof -
  have "exact good cnt refs ((map fd_entries (tables w))[h := bt_remove fd (map fd_entries (tables w) ! h)])
      (drop_entry rel e (objs w))"
    by (rule forks.close_entry)
      (use assms fdw_wf_nth [OF assms(2,3)] in \<open>auto simp: refs_ok_def fdt_wf_def remove_fd_def\<close>)
  with assms(3-5) show ?thesis by (auto simp: refs_ok_put remove_fd_def)
qed

lemma close_exact:
  assumes "refs_ok good cnt refs w" "fdw_wf w" "h < length (tables w)"
  shows "refs_ok good cnt refs (fd_apply tbl h (FClose fd) w)"
proof -
  obtain o1 t1 where r: "remove_fd fd (tables w ! h) = (o1, t1)" by fastforce
  with assms remove_exact [OF assms] show ?thesis by (cases o1) (simp_all add: sys_close_def)
qed

lemma close_each_exact:
  assumes "refs_ok good cnt refs w" "fdw_wf w" "h < length (tables w)"
  shows "refs_ok good cnt refs (close_each h flags fds w)"
  using assms
proof (induction fds arbitrary: w)
  case (Cons fd fds)
  let ?t = "tables w ! h"
  note wf = fdw_wf_nth [OF Cons.prems(2,3)]
  obtain o1 t1 where r: "remove_fd fd ?t = (o1, t1)" by fastforce
  then have wf1: "fdt_wf t1" using remove_fd_wf [OF wf, of fd] by simp
  show ?case
  proof (cases "flags AND CLOSE_RANGE_CLOEXEC \<noteq> 0")
    case True
    with Cons wf show ?thesis by (simp add: Let_def refs_ok_same fdt_intros)
  next
    case False
    with Cons wf wf1 r remove_exact [OF Cons.prems] show ?thesis
      by (cases o1) (simp_all add: Let_def fdt_intros)
  qed
qed simp

lemma exec_exact:
  assumes "refs_ok good cnt refs w" "fdw_wf w" "h < length (tables w)"
  shows "refs_ok good cnt refs (fd_apply tbl h FExec w)"
proof -
  obtain c es where s: "take_fds (cloexec (tables w ! h)) (fd_entries (tables w ! h)) = (c, es)" by fastforce
  have wf: "bt_wf (fd_entries (tables w ! h))" using fdw_wf_nth [OF assms(2,3)] by (simp add: fdt_wf_def)
  have "exact good cnt refs ((map fd_entries (tables w))[h := es])
      (fold (drop_entry exec_releases) (map snd c) (objs w))"
    by (rule forks.close_table) (use assms take_fds_spec(2) [OF wf s] in \<open>auto simp: refs_ok_def\<close>)
  with s assms(3) show ?thesis by (simp add: exec_close_def close_cloexec_fds_def refs_ok_put)
qed

lemma exit_exact:
  assumes "refs_ok good cnt refs w" "h < length (tables w)"
  shows "refs_ok good cnt refs (fd_apply tbl h FExit w)"
proof -
  have "exact good cnt refs ((map fd_entries (tables w))[h := []])
      (fold (drop_entry close_all_releases) (map snd (fd_entries (tables w ! h))) (objs w))"
    by (rule forks.close_table) (use assms in \<open>auto simp: refs_ok_def\<close>)
  with assms(2) show ?thesis by (simp add: close_all_def Let_def refs_ok_put)
qed

lemma fork_exact:
  assumes "refs_ok good cnt refs w" "h < length (tables w)" "room w"
  shows "refs_ok good cnt refs (fd_apply tbl h FFork w)"
proof -
  let ?ts = "map fd_entries (tables w)"
  have "total refs ?ts i + held refs (map snd (?ts ! h)) i < 2 ^ 32" for i
    using total_le_open [of w i] total_nth [of h ?ts refs i] assms(2,3) by (simp add: room_def)
  with forks.copy_table [of ?ts "objs w" h "filter (\<lambda>(_, e). \<not> is_epoll e) (?ts ! h)"] assms(1,2) show ?thesis
    by (simp add: clone_deep_for_fork_def Let_def refs_ok_def)
qed

lemma pipe2_exact:
  assumes "refs_ok good cnt refs w" "fdw_wf w" "h < length (tables w)" "room w"
  shows "refs_ok good cnt refs (fd_apply tbl h (FPipe2 p flags m) w)"
proof (cases "validate_user_ptr m p 8")
  case False
  with assms(1) show ?thesis by (simp add: sys_pipe2_def)
next
  case True
  obtain k ob where c: "create_pipe (objs w) = (k, ob)" by fastforce
  obtain r t1 where a1: "alloc_fd (PipeRead k) (tables w ! h) = (r, t1)" by fastforce
  obtain x t2 where a2: "alloc_fd (PipeWrite k) t1 = (x, t2)" by fastforce
  have g: "good (objs w)" using assms(1) by (simp add: refs_ok_def exact_def)
  have n: "NEXT_PIPE_ID (obj_pipes (objs w)) \<noteq> - 1" using assms(4) by (auto simp: room_def)
  from pipe_law [OF g n c] have "refs_ok good cnt refs (put_table h t3 ob w)" if "fd_entries t3 = fd_entries t2" for t3
    by (intro new_two [OF assms(1,3) fdw_wf_nth [OF assms(2,3)] assms(4) _ _ a1 a2 that]) auto
  with True c a1 a2 show ?thesis by (simp add: sys_pipe2_def case_prod_beta)
qed

lemma socketpair_exact:
  assumes "refs_ok good cnt refs w" "fdw_wf w" "h < length (tables w)" "room w"
  shows "refs_ok good cnt refs (fd_apply tbl h (FSocketpair domain ty p m) w)"
proof (cases "validate_user_ptr m p 8 \<and> \<not> (domain \<noteq> 1 \<or> ty AND 0xFF \<noteq> 1 \<and> ty AND 0xFF \<noteq> 5)")
  case False
  with assms(1) show ?thesis by (auto simp: sys_socketpair_def Let_def)
next
  case True
  obtain k ob where c1: "create_pipe (objs w) = (k, ob)" by fastforce
  obtain l ob2 where c2: "create_pipe ob = (l, ob2)" by fastforce
  obtain r t1 where a1: "alloc_fd (UnixSocket k l) (tables w ! h) = (r, t1)" by fastforce
  obtain x t2 where a2: "alloc_fd (UnixSocket l k) t1 = (x, t2)" by fastforce
  have g: "good (objs w)" using assms(1) by (simp add: refs_ok_def exact_def)
  have n: "NEXT_PIPE_ID (obj_pipes (objs w)) < - 2" using assms(4) by (auto simp: room_def)
  then have n1: "NEXT_PIPE_ID (obj_pipes (objs w)) \<noteq> - 1" by auto
  have "NEXT_PIPE_ID (obj_pipes ob) = NEXT_PIPE_ID (obj_pipes (objs w)) + 1"
    using c1 by (auto simp: create_pipe_def pipe_create_def pipe_put_def Let_def)
  moreover have "NEXT_PIPE_ID (obj_pipes (objs w)) + 1 = - 1 \<Longrightarrow> NEXT_PIPE_ID (obj_pipes (objs w)) = - 2"
    by (simp add: eq_diff_eq [symmetric])
  ultimately have n2: "NEXT_PIPE_ID (obj_pipes ob) \<noteq> - 1" using n by force
  note l1 = pipe_law [OF g n1 c1]
  note l2 = pipe_law [OF conjunct1 [OF l1] n2 c2]
  have cnt: "\<forall>i. cnt ob2 i = cnt (objs w) i + refs (UnixSocket k l) i + refs (UnixSocket l k) i"
    using l1 l2 by (simp add: unix_law)
  have put: "refs_ok good cnt refs (put_table h t3 ob2 w)" if "fd_entries t3 = fd_entries t2" for t3
    by (rule new_two [OF assms(1,3) fdw_wf_nth [OF assms(2,3)] assms(4) conjunct1 [OF l2] cnt a1 a2 that])
  obtain m1 where m1: "copy_to_user_safe p (two_fds r x) m = (True, m1)"
    using validated_copy_to_user(1) [of m p 8 "two_fds r x"] True
    by (cases "copy_to_user_safe p (two_fds r x) m") (auto simp: two_fds_def)
  show ?thesis using True by (auto simp: sys_socketpair_def Let_def c1 c2 a1 a2 m1 put)
qed

lemma eventfd2_exact:
  assumes "refs_ok good cnt refs w" "fdw_wf w" "h < length (tables w)" "room w"
  shows "refs_ok good cnt refs (fd_apply tbl h (FEventfd2 v flags) w)"
proof -
  obtain k es where c: "eventfd_create v flags (obj_efds (objs w)) = (k, es)" by fastforce
  obtain n t1 where a: "alloc_fd (EventFd k) (tables w ! h) = (n, t1)" by fastforce
  have g: "good (objs w)" using assms(1) by (simp add: refs_ok_def exact_def)
  have "NEXT_EVENTFD_ID (obj_efds (objs w)) \<noteq> - 1" using assms(4) by (simp add: room_def)
  note l = efd_law [OF g this c]
  have "refs_ok good cnt refs (put_table h t2 ((objs w)\<lparr>obj_efds := es\<rparr>) w)" if "fd_entries t2 = fd_entries t1" for t2
    by (rule new_one [OF assms(1,3) fdw_wf_nth [OF assms(2,3)] assms(4) conjunct1 [OF l] conjunct2 [OF l] a that])
  then show ?thesis by (simp add: sys_eventfd2_def Let_def c a)
qed

theorem step_exact:
  assumes "refs_ok good cnt refs w" "fdw_wf w" "allowed D F h op w"
  shows "refs_ok good cnt refs (fd_apply tbl h op w)"
proof -
  have h: "h < length (tables w)" and r: "room w" using assms(3) by (simp_all add: allowed_def)
  show ?thesis
  proof (cases op)
    case (FCloseRange a b flags)
    with assms(1) close_each_exact [OF assms(1,2) h] show ?thesis by (simp add: sys_close_range_def Let_def)
  next
    case (FAlloc e)
    obtain n t1 where a: "alloc_fd e (tables w ! h) = (n, t1)" by fastforce
    have "plain e" using assms(3) FAlloc by (simp add: allowed_def)
    then have "\<forall>i. cnt (objs w) i = cnt (objs w) i + refs e i" using plain_law by simp
    from new_one [OF assms(1) h fdw_wf_nth [OF assms(2) h] r _ this a refl] assms(1) FAlloc a show ?thesis
      by (simp add: refs_ok_def exact_def)
  next
    case FSpawn
    have "held refs (map snd (fd_entries with_stdio)) i = 0" for i
      by (simp add: with_stdio_def plain_law)
    with assms(1) FSpawn show ?thesis by (simp add: refs_ok_def exact_def)
  next
    case (FIO p)
    obtain ps ts where p: "pipe_apply tbl p (obj_pipes (objs w), obj_threads (objs w)) = (ps, ts)" by fastforce
    have "data_op p" using assms(3) FIO by (simp add: allowed_def)
    with assms(1) FIO p io_law [OF _ p] show ?thesis by (simp add: refs_ok_def exact_def)
  next
    case (FDup fd)
    with dup_exact [OF assms(1,2)] assms(3) show ?thesis by blast
  next
    case (FDup3 a b c)
    with dup3_exact [OF assms(1,2)] assms(3) show ?thesis by blast
  next
    case (FClose fd)
    with close_exact [OF assms(1,2) h] show ?thesis by blast
  next
    case (FFcntl a b c)
    with fcntl_exact [OF assms(1,2)] assms(3) show ?thesis by blast
  next
    case (FPipe2 a b c)
    with pipe2_exact [OF assms(1,2) h r] show ?thesis by blast
  next
    case (FSocketpair a b c d)
    with socketpair_exact [OF assms(1,2) h r] show ?thesis by blast
  next
    case (FEventfd2 a b)
    with eventfd2_exact [OF assms(1,2) h r] show ?thesis by blast
  next
    case FFork
    with fork_exact [OF assms(1) h r] show ?thesis by blast
  next
    case FExec
    with exec_exact [OF assms(1,2) h] show ?thesis by blast
  next
    case FExit
    with exit_exact [OF assms(1) h] show ?thesis by blast
  qed
qed

end

section \<open>Pipes\<close>

text \<open>Each pipe has a count per direction; one that nobody holds does not exist.\<close>

fun pipe_refs :: "file_descriptor \<Rightarrow> u32 \<times> bool \<Rightarrow> nat" where
  "pipe_refs (PipeWrite k) i = (if i = (k, True) then 1 else 0)"
| "pipe_refs (PipeRead k) i = (if i = (k, False) then 1 else 0)"
| "pipe_refs (UnixSocket r x) i = (if i = (r, False) \<or> i = (x, True) then 1 else 0)"
| "pipe_refs _ _ = 0"

definition pipe_ends :: "objects \<Rightarrow> u32 \<times> bool \<Rightarrow> nat" where
  "pipe_ends ob i = (case PIPES (obj_pipes ob) (fst i) of
     None \<Rightarrow> 0 | Some p \<Rightarrow> unat (if snd i then write_count p else read_count p))"

definition pipes_good :: "objects \<Rightarrow> bool" where
  "pipes_good ob \<longleftrightarrow> (\<forall>k p. PIPES (obj_pipes ob) k = Some p \<longrightarrow>
     (write_count p \<noteq> 0 \<or> read_count p \<noteq> 0) \<and> k < NEXT_PIPE_ID (obj_pipes ob))"

lemma pipe_ends_clone:
  assumes "pipes_good ob" "0 < pipe_ends ob (k, d)" "pipe_ends ob (k, d) + 1 < 2 ^ 32"
  shows "pipes_good (clone_pipe k d ob)"
    and "pipe_ends (clone_pipe k d ob) = (pipe_ends ob)((k, d) := pipe_ends ob (k, d) + 1)"
proof -
  from assms(2) obtain p where p: "PIPES (obj_pipes ob) k = Some p"
    by (auto simp: pipe_ends_def split: option.splits)
  let ?c = "if d then write_count p else read_count p"
  have c: "unat ?c = pipe_ends ob (k, d)" using p by (simp add: pipe_ends_def)
  have "?c \<noteq> - 1" using c assms(3) by (auto simp: unsigned_minus_1_eq_mask mask_eq_exp_minus_1)
  then have s: "unat (?c + 1) = Suc (unat ?c)" by (rule unat_plus_one)
  then have nz: "?c + 1 \<noteq> 0" by (metis nat.distinct(1) unat_0)
  show "pipes_good (clone_pipe k d ob)"
    using assms(1) p nz by (auto simp: pipes_good_def clone_pipe_def pipe_clone_ref_def pipe_put_def split: if_splits)
  show "pipe_ends (clone_pipe k d ob) = (pipe_ends ob)((k, d) := pipe_ends ob (k, d) + 1)"
    using p s by (auto simp: pipe_ends_def clone_pipe_def pipe_clone_ref_def pipe_put_def fun_eq_iff split: if_splits)
qed

text \<open>Closing an end lowers its count by one, and removes the pipe when both are zero.\<close>

definition lower_end :: "u32 \<Rightarrow> bool \<Rightarrow> objects \<Rightarrow> objects" where
  "lower_end k d ob = (if d then end_write k ob else end_read k ob)"

lemma lower_end_entry:
  assumes "PIPES (obj_pipes ob) k = Some p"
  shows "obj_pipes (lower_end k d ob)
    = (let w = (if d then sat_sub (write_count p) 1 else write_count p);
           r = (if d then read_count p else sat_sub (read_count p) 1);
           q = p\<lparr>write_count := w, read_count := r, pipe_pollers := if d \<and> w = 0 then [] else pipe_pollers p\<rparr>
       in (obj_pipes ob)\<lparr>PIPES := (PIPES (obj_pipes ob))(k := if w = 0 \<and> r = 0 then None else Some q)\<rparr>)"
  using assms
  by (auto simp: lower_end_def end_write_def end_read_def pipe_close_write_def pipe_close_read_def pipe_put_def Let_def)

lemma pipe_ends_lower:
  assumes "pipes_good ob" "0 < pipe_ends ob (k, d)"
  shows "pipes_good (lower_end k d ob)"
    and "pipe_ends (lower_end k d ob) = (pipe_ends ob)((k, d) := pipe_ends ob (k, d) - 1)"
proof -
  from assms(2) obtain p where p: "PIPES (obj_pipes ob) k = Some p"
    by (auto simp: pipe_ends_def split: option.splits)
  let ?c = "if d then write_count p else read_count p"
  have c: "unat (sat_sub ?c 1) = unat ?c - 1" by (simp add: unat_sat_sub)
  show "pipes_good (lower_end k d ob)"
    using assms(1) p by (auto simp: pipes_good_def lower_end_entry [OF p] Let_def split: if_splits)
  show "pipe_ends (lower_end k d ob) = (pipe_ends ob)((k, d) := pipe_ends ob (k, d) - 1)"
  proof
    fix i
    show "pipe_ends (lower_end k d ob) i = ((pipe_ends ob)((k, d) := pipe_ends ob (k, d) - 1)) i"
      using p c by (cases i) (auto simp: pipe_ends_def lower_end_entry [OF p] Let_def split: if_splits)
  qed
qed

lemma fork_ref_pipes:
  assumes "pipes_good ob" "\<forall>i. pipe_refs e i \<le> pipe_ends ob i" "\<forall>i. pipe_ends ob i + pipe_refs e i < 2 ^ 32"
  shows "pipes_good (fork_ref e ob) \<and> (\<forall>i. pipe_ends (fork_ref e ob) i = pipe_ends ob i + pipe_refs e i)"
proof (cases e)
  case (UnixSocket r x)
  have r: "0 < pipe_ends ob (r, False)" "pipe_ends ob (r, False) + 1 < 2 ^ 32"
    using assms(2,3) [rule_format, of "(r, False)"] UnixSocket by simp_all
  note c1 = pipe_ends_clone [OF assms(1) r]
  have x: "0 < pipe_ends (clone_pipe r False ob) (x, True)" "pipe_ends (clone_pipe r False ob) (x, True) + 1 < 2 ^ 32"
    using assms(2,3) [rule_format, of "(x, True)"] UnixSocket by (simp_all add: c1(2))
  from pipe_ends_clone [OF c1(1) x] c1(2) UnixSocket show ?thesis by auto
next
  case (PipeRead k)
  with assms(2,3) [rule_format, of "(k, False)"] pipe_ends_clone [OF assms(1), of k False] show ?thesis by simp
next
  case (PipeWrite k)
  with assms(2,3) [rule_format, of "(k, True)"] pipe_ends_clone [OF assms(1), of k True] show ?thesis by simp
qed (use assms(1) in \<open>simp_all add: pipes_good_def pipe_ends_def\<close>)

lemma drop_entry_pipes:
  assumes "pipes_good ob" "\<forall>i. pipe_refs e i \<le> pipe_ends ob i"
  shows "pipes_good (drop_entry rel e ob) \<and> (\<forall>i. pipe_ends (drop_entry rel e ob) i = pipe_ends ob i - pipe_refs e i)"
proof -
  have rel: "pipes_good (drop_entry rel e ob) = pipes_good (drop_ref e ob)"
    "pipe_ends (drop_entry rel e ob) = pipe_ends (drop_ref e ob)"
    by (simp_all add: drop_entry_def pipes_good_def pipe_ends_def fun_eq_iff)
  have w: "end_write k = lower_end k True" and r: "end_read k = lower_end k False" for k
    by (simp_all add: lower_end_def fun_eq_iff)
  show ?thesis unfolding rel
  proof (cases e)
    case (UnixSocket a b)
    have a: "0 < pipe_ends ob (a, False)" using assms(2) [rule_format, of "(a, False)"] UnixSocket by simp
    note c1 = pipe_ends_lower [OF assms(1) a]
    have b: "0 < pipe_ends (lower_end a False ob) (b, True)"
      using assms(2) [rule_format, of "(b, True)"] UnixSocket by (simp add: c1(2))
    from pipe_ends_lower [OF c1(1) b] c1(2) UnixSocket
    show "pipes_good (drop_ref e ob) \<and> (\<forall>i. pipe_ends (drop_ref e ob) i = pipe_ends ob i - pipe_refs e i)"
      by (auto simp: w r)
  next
    case (PipeRead k)
    with assms(2) [rule_format, of "(k, False)"] pipe_ends_lower [OF assms(1), of k False]
    show "pipes_good (drop_ref e ob) \<and> (\<forall>i. pipe_ends (drop_ref e ob) i = pipe_ends ob i - pipe_refs e i)"
      by (simp add: r)
  next
    case (PipeWrite k)
    with assms(2) [rule_format, of "(k, True)"] pipe_ends_lower [OF assms(1), of k True]
    show "pipes_good (drop_ref e ob) \<and> (\<forall>i. pipe_ends (drop_ref e ob) i = pipe_ends ob i - pipe_refs e i)"
      by (simp add: w)
  qed (use assms(1) in \<open>simp_all add: pipes_good_def pipe_ends_def\<close>)
qed

lemma create_pipe_ends:
  assumes "pipes_good ob" "NEXT_PIPE_ID (obj_pipes ob) \<noteq> - 1" "create_pipe ob = (k, ob')"
  shows "pipes_good ob' \<and> (\<forall>i. pipe_ends ob' i = pipe_ends ob i + pipe_refs (PipeRead k) i + pipe_refs (PipeWrite k) i)"
proof -
  let ?n = "NEXT_PIPE_ID (obj_pipes ob)"
  have fresh: "PIPES (obj_pipes ob) ?n = None" using assms(1) by (cases "PIPES (obj_pipes ob) ?n") (auto simp: pipes_good_def)
  have k: "k = ?n" "obj_pipes ob' = pipe_put ?n \<lparr>buffer = [], write_count = 1, read_count = 1, pipe_pollers = []\<rparr>
      ((obj_pipes ob)\<lparr>NEXT_PIPE_ID := ?n + 1\<rparr>)"
    using assms(3) by (auto simp: create_pipe_def pipe_create_def Let_def)
  have "?n < ?n + 1" using unat_plus_one [OF assms(2)] by (simp add: word_less_nat_alt)
  then have "pipes_good ob'" using assms(1) succ_greater [OF assms(2)]
    by (auto simp: pipes_good_def k pipe_put_def)
  moreover have "pipe_ends ob' i = pipe_ends ob i + pipe_refs (PipeRead k) i + pipe_refs (PipeWrite k) i" for i
    using fresh by (cases i) (auto simp: pipe_ends_def k pipe_put_def)
  ultimately show ?thesis by blast
qed

definition end_counts :: "objects \<Rightarrow> u32 \<Rightarrow> (u32 \<times> u32) option" where
  "end_counts ob k = map_option (\<lambda>p. (write_count p, read_count p)) (PIPES (obj_pipes ob) k)"

lemma pipe_ends_by_counts:
  "pipe_ends ob i = (case end_counts ob (fst i) of None \<Rightarrow> 0 | Some (w, r) \<Rightarrow> unat (if snd i then w else r))"
  "pipes_good ob \<longleftrightarrow> (\<forall>k w r. end_counts ob k = Some (w, r) \<longrightarrow> (w \<noteq> 0 \<or> r \<noteq> 0) \<and> k < NEXT_PIPE_ID (obj_pipes ob))"
  by (auto simp: pipe_ends_def pipes_good_def end_counts_def split: option.splits)

lemma data_op_ends:
  assumes "data_op op" "pipe_apply tbl op (obj_pipes ob, obj_threads ob) = (ps, ts)"
  shows "pipes_good (ob\<lparr>obj_pipes := ps, obj_threads := ts\<rparr>) = pipes_good ob
    \<and> pipe_ends (ob\<lparr>obj_pipes := ps, obj_threads := ts\<rparr>) = pipe_ends ob"
proof -
  have "NEXT_PIPE_ID ps = NEXT_PIPE_ID (obj_pipes ob)
      \<and> end_counts (ob\<lparr>obj_pipes := ps, obj_threads := ts\<rparr>) k = end_counts ob k" for k
    using assms
    by (cases op) (auto simp: pipe_add_poller_def pipe_write_def pipe_read_def pipe_check_set_reader_def pipe_put_def
        Let_def end_counts_def split: option.splits if_splits prod.splits tkill_result.splits)
  then show ?thesis by (simp add: pipe_ends_by_counts fun_eq_iff)
qed

interpretation pipe_objects: fd_objects pipes_good pipe_ends pipe_refs "\<lambda>_. True" "\<lambda>e. \<nexists>r x. e = UnixSocket r x"
proof unfold_locales
  show "pipes_good (dup_ref e ob) = pipes_good (fork_ref e ob) \<and> pipe_ends (dup_ref e ob) = pipe_ends (fork_ref e ob)" for e ob
    by (cases e) (auto simp: pipes_good_def pipe_ends_def fun_eq_iff)
  show "\<nexists>r x. e = UnixSocket r x \<Longrightarrow> pipes_good (fcntl_ref e ob) = pipes_good (fork_ref e ob)
      \<and> pipe_ends (fcntl_ref e ob) = pipe_ends (fork_ref e ob)" for e ob
    by (cases e) (auto simp: pipes_good_def pipe_ends_def fun_eq_iff)
  show "pipe_refs e i \<le> 1" "plain e \<Longrightarrow> pipe_refs e i = 0" for e i by (cases e; simp)+
  show "pipe_refs (UnixSocket r x) i = pipe_refs (PipeRead r) i + pipe_refs (PipeWrite x) i" for r x i by auto
  show "\<lbrakk>pipes_good ob; NEXT_EVENTFD_ID (obj_efds ob) \<noteq> - 1; eventfd_create v f (obj_efds ob) = (k, es)\<rbrakk>
      \<Longrightarrow> pipes_good (ob\<lparr>obj_efds := es\<rparr>) \<and> (\<forall>i. pipe_ends (ob\<lparr>obj_efds := es\<rparr>) i = pipe_ends ob i + pipe_refs (EventFd k) i)"
    for ob v f k es by (simp add: pipes_good_def pipe_ends_def)
qed (use fork_ref_pipes drop_entry_pipes create_pipe_ends data_op_ends in blast)+

section \<open>Event counters\<close>

fun efd_refs :: "file_descriptor \<Rightarrow> u32 \<Rightarrow> nat" where
  "efd_refs (EventFd k) i = (if i = k then 1 else 0)"
| "efd_refs _ _ = 0"

definition efd_count :: "objects \<Rightarrow> u32 \<Rightarrow> nat" where
  "efd_count ob k = (case EVENTFDS (obj_efds ob) k of None \<Rightarrow> 0 | Some e \<Rightarrow> unat (ref_count e))"

definition efds_good :: "objects \<Rightarrow> bool" where
  "efds_good ob \<longleftrightarrow> (\<forall>k e. EVENTFDS (obj_efds ob) k = Some e \<longrightarrow>
     ref_count e \<noteq> 0 \<and> k < NEXT_EVENTFD_ID (obj_efds ob))"

lemma fork_ref_efds:
  assumes "efds_good ob" "\<forall>i. efd_refs e i \<le> efd_count ob i" "\<forall>i. efd_count ob i + efd_refs e i < 2 ^ 32"
  shows "efds_good (fork_ref e ob) \<and> (\<forall>i. efd_count (fork_ref e ob) i = efd_count ob i + efd_refs e i)"
proof (cases e)
  case (EventFd k)
  have c: "0 < efd_count ob k" "efd_count ob k + 1 < 2 ^ 32"
    using assms(2,3) [rule_format, of k] EventFd by simp_all
  then obtain x where x: "EVENTFDS (obj_efds ob) k = Some x" by (auto simp: efd_count_def split: option.splits)
  have "ref_count x \<noteq> - 1" using c(2) x by (auto simp: efd_count_def unsigned_minus_1_eq_mask mask_eq_exp_minus_1)
  then have s: "unat (ref_count x + 1) = Suc (unat (ref_count x))" by (rule unat_plus_one)
  then have "ref_count x + 1 \<noteq> 0" by (metis nat.distinct(1) unat_0)
  with assms(1) x s EventFd show ?thesis
    by (auto simp: efds_good_def efd_count_def eventfd_clone_ref_def efd_put_def)
qed (use assms(1) in \<open>simp_all add: efds_good_def efd_count_def clone_pipe_def\<close>)

lemma drop_ref_other [simp]: "obj_efds (end_write k ob) = obj_efds ob" "obj_efds (end_read k ob) = obj_efds ob"
  by (simp_all add: end_write_def end_read_def case_prod_beta)

lemma drop_entry_efds:
  assumes "efds_good ob" "\<forall>i. efd_refs e i \<le> efd_count ob i"
  shows "efds_good (drop_entry rel e ob) \<and> (\<forall>i. efd_count (drop_entry rel e ob) i = efd_count ob i - efd_refs e i)"
proof (cases e)
  case (EventFd k)
  have "0 < efd_count ob k" using assms(2) [rule_format, of k] EventFd by simp
  then obtain x where x: "EVENTFDS (obj_efds ob) k = Some x" by (auto simp: efd_count_def split: option.splits)
  have c: "unat (sat_sub (ref_count x) 1) = unat (ref_count x) - 1" by (simp add: unat_sat_sub)
  moreover have "unat (ref_count x) - 1 = 0" if "sat_sub (ref_count x) 1 = 0" using c that by simp
  ultimately show ?thesis using assms(1) x EventFd
    by (auto simp: drop_entry_def efds_good_def efd_count_def eventfd_close_def efd_put_def Let_def)
qed (use assms(1) in \<open>simp_all add: drop_entry_def efds_good_def efd_count_def\<close>)

lemma create_efd_count:
  assumes "efds_good ob" "NEXT_EVENTFD_ID (obj_efds ob) \<noteq> - 1" "eventfd_create v f (obj_efds ob) = (k, es)"
  shows "efds_good (ob\<lparr>obj_efds := es\<rparr>) \<and> (\<forall>i. efd_count (ob\<lparr>obj_efds := es\<rparr>) i = efd_count ob i + efd_refs (EventFd k) i)"
proof -
  let ?n = "NEXT_EVENTFD_ID (obj_efds ob)"
  have "EVENTFDS (obj_efds ob) ?n = None" using assms(1) by (cases "EVENTFDS (obj_efds ob) ?n") (auto simp: efds_good_def)
  moreover have "?n < ?n + 1" using unat_plus_one [OF assms(2)] by (simp add: word_less_nat_alt)
  ultimately show ?thesis using assms(1,3) succ_greater [OF assms(2)]
    by (auto simp: efds_good_def efd_count_def eventfd_create_def efd_put_def Let_def split: if_splits)
qed

interpretation efd_objects: fd_objects efds_good efd_count efd_refs "\<lambda>e. \<nexists>k. e = EventFd k" "\<lambda>e. \<nexists>k. e = EventFd k"
proof unfold_locales
  show "\<nexists>k. e = EventFd k \<Longrightarrow> efds_good (dup_ref e ob) = efds_good (fork_ref e ob)
      \<and> efd_count (dup_ref e ob) = efd_count (fork_ref e ob)" for e ob
    by (cases e) (auto simp: efds_good_def efd_count_def fun_eq_iff)
  show "\<nexists>k. e = EventFd k \<Longrightarrow> efds_good (fcntl_ref e ob) = efds_good (fork_ref e ob)
      \<and> efd_count (fcntl_ref e ob) = efd_count (fork_ref e ob)" for e ob
    by (cases e) (auto simp: efds_good_def efd_count_def clone_pipe_def fun_eq_iff)
  show "efd_refs e i \<le> 1" "plain e \<Longrightarrow> efd_refs e i = 0" for e i by (cases e; simp)+
  show "\<lbrakk>efds_good ob; NEXT_PIPE_ID (obj_pipes ob) \<noteq> - 1; create_pipe ob = (k, ob')\<rbrakk>
      \<Longrightarrow> efds_good ob' \<and> (\<forall>i. efd_count ob' i = efd_count ob i + efd_refs (PipeRead k) i + efd_refs (PipeWrite k) i)"
    for ob k ob' by (auto simp: create_pipe_def efds_good_def efd_count_def split: prod.splits)
  show "efds_good (ob\<lparr>obj_pipes := ps, obj_threads := ts\<rparr>) = efds_good ob
      \<and> efd_count (ob\<lparr>obj_pipes := ps, obj_threads := ts\<rparr>) = efd_count ob" for ob ps ts
    by (simp add: efds_good_def efd_count_def fun_eq_iff)
qed (use fork_ref_efds drop_entry_efds create_efd_count in \<open>blast | simp\<close>)+

section \<open>Every reachable state\<close>

lemma reach_wf: "fd_reach D F tbl w \<Longrightarrow> fdw_wf w"
proof (induction rule: fd_reach.induct)
  case (start t)
  show ?case by (simp add: fdw_wf_def boot_def fdt_wf_new)
next
  case (step w h op)
  then show ?case by (simp add: fd_apply_wf allowed_def)
qed

lemma reach_pipes:
  "fd_reach (\<lambda>_. True) (\<lambda>e. \<nexists>r x. e = UnixSocket r x) tbl w \<Longrightarrow> refs_ok pipes_good pipe_ends pipe_refs w"
proof (induction rule: fd_reach.induct)
  case (start t)
  show ?case by (simp add: refs_ok_def exact_def boot_def with_stdio_def pipes_good_def pipe_ends_def pipes_new_def)
next
  case (step w h op)
  then show ?case using pipe_objects.step_exact reach_wf by blast
qed

lemma reach_efds:
  "fd_reach (\<lambda>e. \<nexists>k. e = EventFd k) (\<lambda>e. \<nexists>k. e = EventFd k) tbl w \<Longrightarrow> refs_ok efds_good efd_count efd_refs w"
proof (induction rule: fd_reach.induct)
  case (start t)
  show ?case by (simp add: refs_ok_def exact_def boot_def with_stdio_def efds_good_def efd_count_def eventfds_new_def)
next
  case (step w h op)
  then show ?case using efd_objects.step_exact reach_wf by blast
qed

section \<open>A child that only exits\<close>

text \<open>
  Between copying and closing a table every pipe end of the copy has a count of at least two, so
  only the counts change; \<open>with_ends\<close> sets the counts and leaves everything else of the pipes.
\<close>

definition with_ends :: "pipes \<Rightarrow> (u32 \<times> bool \<Rightarrow> nat) \<Rightarrow> pipes" where
  "with_ends s a = s\<lparr>PIPES := \<lambda>k. map_option
     (\<lambda>p. p\<lparr>write_count := of_nat (a (k, True)), read_count := of_nat (a (k, False))\<rparr>) (PIPES s k)\<rparr>"

lemma with_ends_same: "with_ends (obj_pipes ob) (pipe_ends ob) = obj_pipes ob"
proof -
  have "map_option (\<lambda>p. p\<lparr>write_count := of_nat (pipe_ends ob (k, True)), read_count := of_nat (pipe_ends ob (k, False))\<rparr>)
      (PIPES (obj_pipes ob) k) = PIPES (obj_pipes ob) k" for k
    by (cases "PIPES (obj_pipes ob) k") (simp_all add: pipe_ends_def)
  then show ?thesis by (simp add: with_ends_def)
qed

lemma clone_with_ends:
  assumes "PIPES s k \<noteq> None"
  shows "pipe_clone_ref k d (with_ends s a) = with_ends s (a((k, d) := a (k, d) + 1))"
proof -
  from assms obtain p where p: "PIPES s k = Some p" by blast
  show ?thesis
    using p by (auto simp: pipe_clone_ref_def with_ends_def pipe_put_def fun_eq_iff intro!: pipes.equality)
qed

lemma lower_with_ends:
  assumes "PIPES s k \<noteq> None" "obj_pipes ob = with_ends s a" "2 \<le> a (k, d)" "a (k, d) < 2 ^ 32"
  shows "obj_pipes (lower_end k d ob) = with_ends s (a((k, d) := a (k, d) - 1))"
    and "obj_threads (lower_end k d ob) = obj_threads ob"
proof -
  from assms(1) obtain p where p: "PIPES s k = Some p" by blast
  have "unat (of_nat (a (k, d)) :: u32) = a (k, d)" using assms(4) by (intro unat_of_nat_small) simp
  then have dec: "sat_sub (of_nat (a (k, d))) (1 :: u32) = of_nat (a (k, d) - 1)"
    using assms(3) by (simp add: sat_sub_def word_le_nat_alt of_nat_diff)
  have nz: "of_nat (a (k, d) - 1) \<noteq> (0 :: u32)"
  proof -
    have "unat (of_nat (a (k, d) - 1) :: u32) = a (k, d) - 1" using assms(4) by (intro unat_of_nat_small) simp
    then show ?thesis using assms(3) by (metis One_nat_def Suc_1 diff_is_0_eq not_less_eq_eq unat_0)
  qed
  show "obj_pipes (lower_end k d ob) = with_ends s (a((k, d) := a (k, d) - 1))"
    and "obj_threads (lower_end k d ob) = obj_threads ob"
    using p assms(2) dec nz
    by (auto simp: lower_end_def end_write_def end_read_def pipe_close_write_def pipe_close_read_def with_ends_def
        pipe_put_def Let_def fun_eq_iff intro!: pipes.equality)
qed

definition all_present :: "pipes \<Rightarrow> file_descriptor \<Rightarrow> bool" where
  "all_present s e \<longleftrightarrow> (\<forall>i. 0 < pipe_refs e i \<longrightarrow> PIPES s (fst i) \<noteq> None)"

lemma all_present_end: "all_present s e \<Longrightarrow> 0 < pipe_refs e (k, d) \<Longrightarrow> PIPES s k \<noteq> None"
  unfolding all_present_def by force

lemma fork_ref_with_ends:
  assumes "obj_pipes ob = with_ends s a" "all_present s e"
  shows "obj_pipes (fork_ref e ob) = with_ends s (\<lambda>i. a i + pipe_refs e i) \<and> obj_threads (fork_ref e ob) = obj_threads ob"
proof (cases e)
  case (UnixSocket r x)
  have p: "PIPES s r \<noteq> None" "PIPES s x \<noteq> None"
    using all_present_end [OF assms(2), of r False] all_present_end [OF assms(2), of x True] UnixSocket by simp_all
  have eq: "(\<lambda>i. a i + pipe_refs e i) = (a((r, False) := a (r, False) + 1))((x, True) := (a((r, False) := a (r, False) + 1)) (x, True) + 1)"
    using UnixSocket by (simp add: fun_eq_iff)
  have "obj_pipes (fork_ref e ob) = pipe_clone_ref x True (pipe_clone_ref r False (with_ends s a))"
    using UnixSocket assms(1) by (simp add: clone_pipe_def)
  then have "obj_pipes (fork_ref e ob) = with_ends s (\<lambda>i. a i + pipe_refs e i)"
    unfolding eq clone_with_ends [OF p(1)] clone_with_ends [OF p(2)] .
  with UnixSocket show ?thesis by (simp add: clone_pipe_def)
next
  case (PipeRead k)
  have p: "PIPES s k \<noteq> None" using all_present_end [OF assms(2), of k False] PipeRead by simp
  have eq: "(\<lambda>i. a i + pipe_refs e i) = a((k, False) := a (k, False) + 1)" using PipeRead by (simp add: fun_eq_iff)
  have "obj_pipes (fork_ref e ob) = pipe_clone_ref k False (with_ends s a)"
    using PipeRead assms(1) by (simp add: clone_pipe_def)
  then have "obj_pipes (fork_ref e ob) = with_ends s (\<lambda>i. a i + pipe_refs e i)" unfolding eq clone_with_ends [OF p] .
  with PipeRead show ?thesis by (simp add: clone_pipe_def)
next
  case (PipeWrite k)
  have p: "PIPES s k \<noteq> None" using all_present_end [OF assms(2), of k True] PipeWrite by simp
  have eq: "(\<lambda>i. a i + pipe_refs e i) = a((k, True) := a (k, True) + 1)" using PipeWrite by (simp add: fun_eq_iff)
  have "obj_pipes (fork_ref e ob) = pipe_clone_ref k True (with_ends s a)"
    using PipeWrite assms(1) by (simp add: clone_pipe_def)
  then have "obj_pipes (fork_ref e ob) = with_ends s (\<lambda>i. a i + pipe_refs e i)" unfolding eq clone_with_ends [OF p] .
  with PipeWrite show ?thesis by (simp add: clone_pipe_def)
qed (use assms(1) in \<open>simp_all\<close>)

lemma drop_entry_with_ends:
  assumes "obj_pipes ob = with_ends s a" "all_present s e"
    and "\<And>i. 0 < pipe_refs e i \<Longrightarrow> 2 \<le> a i \<and> a i < 2 ^ 32"
  shows "obj_pipes (drop_entry rel e ob) = with_ends s (\<lambda>i. a i - pipe_refs e i)
    \<and> obj_threads (drop_entry rel e ob) = obj_threads ob"
proof -
  have w: "end_write k = lower_end k True" and r: "end_read k = lower_end k False" for k
    by (simp_all add: lower_end_def fun_eq_iff)
  have one: "obj_pipes (lower_end k d ob) = with_ends s (a((k, d) := a (k, d) - 1))" "obj_threads (lower_end k d ob) = obj_threads ob"
    if "0 < pipe_refs e (k, d)" for k d
    using lower_with_ends [OF all_present_end [OF assms(2) that] assms(1)] assms(3) [OF that] by blast+
  show ?thesis
  proof (cases e)
    case (UnixSocket c x)
    have p: "PIPES s x \<noteq> None" using all_present_end [OF assms(2), of x True] UnixSocket by simp
    note l1 = one [of c False]
    have b: "2 \<le> (a((c, False) := a (c, False) - 1)) (x, True)" "(a((c, False) := a (c, False) - 1)) (x, True) < 2 ^ 32"
      using assms(3) [of "(x, True)"] UnixSocket by simp_all
    have c: "0 < pipe_refs e (c, False)" using UnixSocket by simp
    have l2: "obj_pipes (lower_end x True (lower_end c False ob))
        = with_ends s ((a((c, False) := a (c, False) - 1))((x, True) := (a((c, False) := a (c, False) - 1)) (x, True) - 1))"
      "obj_threads (lower_end x True (lower_end c False ob)) = obj_threads ob"
      using lower_with_ends [OF p l1(1) [OF c] b] unfolding l1(2) [OF c] .
    have eq: "(\<lambda>i. a i - pipe_refs e i)
        = (a((c, False) := a (c, False) - 1))((x, True) := (a((c, False) := a (c, False) - 1)) (x, True) - 1)"
      using UnixSocket by (simp add: fun_eq_iff)
    show ?thesis unfolding eq using UnixSocket l2 by (simp add: drop_entry_def w r del: fun_upd_apply)
  next
    case (PipeRead k)
    have eq: "(\<lambda>i. a i - pipe_refs e i) = a((k, False) := a (k, False) - 1)" using PipeRead by (simp add: fun_eq_iff)
    show ?thesis unfolding eq using PipeRead one [of k False] by (simp add: drop_entry_def r)
  next
    case (PipeWrite k)
    have eq: "(\<lambda>i. a i - pipe_refs e i) = a((k, True) := a (k, True) - 1)" using PipeWrite by (simp add: fun_eq_iff)
    show ?thesis unfolding eq using PipeWrite one [of k True] by (simp add: drop_entry_def w)
  qed (use assms(1) in \<open>simp_all add: drop_entry_def\<close>)
qed

lemma fork_all_with_ends:
  assumes "obj_pipes ob = with_ends s a" "\<forall>e \<in> set es. all_present s e"
  shows "obj_pipes (fold fork_ref es ob) = with_ends s (\<lambda>i. a i + held pipe_refs es i)
    \<and> obj_threads (fold fork_ref es ob) = obj_threads ob"
  using assms
proof (induction es arbitrary: ob a)
  case (Cons e es)
  have e: "obj_pipes (fork_ref e ob) = with_ends s (\<lambda>i. a i + pipe_refs e i) \<and> obj_threads (fork_ref e ob) = obj_threads ob"
    by (rule fork_ref_with_ends) (use Cons.prems in simp_all)
  with Cons.IH [OF conjunct1 [OF e]] Cons.prems(2) show ?case by (simp add: add.assoc)
qed simp

lemma drop_all_with_ends:
  assumes "obj_pipes ob = with_ends s (\<lambda>i. a i + held pipe_refs es i)" "\<forall>e \<in> set es. all_present s e"
    and "\<forall>e \<in> set es. \<forall>i. pipe_refs e i \<le> a i" "\<forall>i. a i + held pipe_refs es i < 2 ^ 32"
  shows "obj_pipes (fold (drop_entry rel) es ob) = with_ends s a \<and> obj_threads (fold (drop_entry rel) es ob) = obj_threads ob"
  using assms
proof (induction es arbitrary: ob)
  case (Cons e es)
  have lim: "2 \<le> a i + held pipe_refs (e # es) i \<and> a i + held pipe_refs (e # es) i < 2 ^ 32" if "0 < pipe_refs e i" for i
  proof -
    have "pipe_refs e i \<le> a i" by (rule Cons.prems(3) [rule_format]) simp
    with that have "2 \<le> a i + held pipe_refs (e # es) i" by simp
    with Cons.prems(4) show ?thesis by blast
  qed
  have e: "obj_pipes (drop_entry rel e ob) = with_ends s (\<lambda>i. a i + held pipe_refs (e # es) i - pipe_refs e i)
      \<and> obj_threads (drop_entry rel e ob) = obj_threads ob"
    by (rule drop_entry_with_ends) (use Cons.prems(1,2) lim in auto)
  have "(\<lambda>i. a i + held pipe_refs (e # es) i - pipe_refs e i) = (\<lambda>i. a i + held pipe_refs es i)" by auto
  with e have e': "obj_pipes (drop_entry rel e ob) = with_ends s (\<lambda>i. a i + held pipe_refs es i)" by simp
  have "\<forall>i. a i + held pipe_refs es i < 2 ^ 32"
  proof
    fix i
    show "a i + held pipe_refs es i < 2 ^ 32" using Cons.prems(4) [rule_format, of i] by simp
  qed
  with Cons.IH [OF e'] Cons.prems(2,3) e show ?case by simp
qed simp

end
