(* ===== verification/Fd_Properties.thy ===== *)
theory Fd_Properties
  imports Fd_Proofs
begin

text \<open>
  The properties of descriptor tables over every reachable state, and what the model shows about
  copies that take no reference and marks that outlive their descriptor.
\<close>

section \<open>Who holds a pipe\<close>

definition open_entries :: "fd_world \<Rightarrow> file_descriptor list" where
  "open_entries w = concat (map (\<lambda>t. map snd (fd_entries t)) (tables w))"

fun writes_to :: "u32 \<Rightarrow> file_descriptor \<Rightarrow> bool" where
  "writes_to k (PipeWrite i) \<longleftrightarrow> i = k"
| "writes_to k (UnixSocket r x) \<longleftrightarrow> x = k"
| "writes_to k _ \<longleftrightarrow> False"

fun reads_from :: "u32 \<Rightarrow> file_descriptor \<Rightarrow> bool" where
  "reads_from k (PipeRead i) \<longleftrightarrow> i = k"
| "reads_from k (UnixSocket r x) \<longleftrightarrow> r = k"
| "reads_from k _ \<longleftrightarrow> False"

definition no_socket_dup :: "file_descriptor \<Rightarrow> bool" where
  "no_socket_dup e \<longleftrightarrow> (\<nexists>r x. e = UnixSocket r x)"

lemma pipe_refs_one:
  "pipe_refs e (k, True) = (if writes_to k e then 1 else 0)" "pipe_refs e (k, False) = (if reads_from k e then 1 else 0)"
  by (cases e; auto)+

lemma held_is_count:
  "held pipe_refs es (k, True) = length (filter (writes_to k) es)"
  "held pipe_refs es (k, False) = length (filter (reads_from k) es)"
  by (induction es) (auto simp: pipe_refs_one)

lemma total_is_count:
  "total pipe_refs (map fd_entries (tables w)) (k, True) = length (filter (writes_to k) (open_entries w))"
  "total pipe_refs (map fd_entries (tables w)) (k, False) = length (filter (reads_from k) (open_entries w))"
proof -
  have sum: "total pipe_refs (map fd_entries ts) i = held pipe_refs (concat (map (\<lambda>t. map snd (fd_entries t)) ts)) i" for ts i
    by (induction ts) simp_all
  show "total pipe_refs (map fd_entries (tables w)) (k, True) = length (filter (writes_to k) (open_entries w))"
    "total pipe_refs (map fd_entries (tables w)) (k, False) = length (filter (reads_from k) (open_entries w))"
    by (simp_all only: sum held_is_count open_entries_def)
qed

lemma reach_counts:
  assumes "fd_reach (\<lambda>_. True) no_socket_dup tbl w"
  shows "pipes_good (objs w)"
    and "pipe_ends (objs w) (k, True) = length (filter (writes_to k) (open_entries w))"
    and "pipe_ends (objs w) (k, False) = length (filter (reads_from k) (open_entries w))"
proof -
  have "no_socket_dup = (\<lambda>e. \<nexists>r x. e = UnixSocket r x)" by (simp add: fun_eq_iff no_socket_dup_def)
  with assms reach_pipes have "refs_ok pipes_good pipe_ends pipe_refs w" by simp
  then show "pipes_good (objs w)"
    and "pipe_ends (objs w) (k, True) = length (filter (writes_to k) (open_entries w))"
    and "pipe_ends (objs w) (k, False) = length (filter (reads_from k) (open_entries w))"
    by (simp_all add: refs_ok_def exact_def total_is_count del: split_paired_All)
qed

lemma no_such: "length (filter P xs) = 0 \<longleftrightarrow> (\<forall>x \<in> set xs. \<not> P x)"
  by (simp add: filter_empty_conv)

definition no_tables :: "nat \<Rightarrow> signal_table option" where
  "no_tables _ = None"

definition pipe_world :: fd_world where
  "pipe_world = fd_apply no_tables 0 (FPipe2 0x2000 0 one_page) (boot threads_new)"

lemma room_boot: "room (boot t)"
  by (simp add: room_def boot_def fds_open_def with_stdio_def pipes_new_def eventfds_new_def word_less_alt)

lemma pipe_world_reached: "fd_reach (\<lambda>_. True) no_socket_dup no_tables pipe_world"
  unfolding pipe_world_def
  by (rule fd_reach.step [OF fd_reach.start]) (use room_boot in \<open>simp add: allowed_def boot_def\<close>)

lemma pipe_world_eq:
  "fd_entries (tables pipe_world ! 0) = [(0, Stdin), (1, Stdout), (2, Stderr), (3, PipeRead 1), (4, PipeWrite 1)]"
  "length (tables pipe_world) = 1"
  "PIPES (obj_pipes (objs pipe_world)) = [1 \<mapsto> \<lparr>buffer = [], write_count = 1, read_count = 1, pipe_pollers = []\<rparr>]"
  "NEXT_PIPE_ID (obj_pipes (objs pipe_world)) = 2" "NEXT_EVENTFD_ID (obj_efds (objs pipe_world)) = 1"
  "cloexec (tables pipe_world ! 0) = []"
proof -
  have v: "validate_user_ptr one_page 0x2000 8" using one_page_valid [of "0x2000" 8] by simp
  have a: "lowest_available_fd [(0, Stdin), (1, Stdout), (2, Stderr)] 0 = 3"
    "lowest_available_fd [(0, Stdin), (1, Stdout), (2, Stderr), (3, PipeRead 1)] 0 = 4"
    by (simp_all add: lowest_available_fd_def)
  show "fd_entries (tables pipe_world ! 0) = [(0, Stdin), (1, Stdout), (2, Stderr), (3, PipeRead 1), (4, PipeWrite 1)]"
    "length (tables pipe_world) = 1"
    "PIPES (obj_pipes (objs pipe_world)) = [1 \<mapsto> \<lparr>buffer = [], write_count = 1, read_count = 1, pipe_pollers = []\<rparr>]"
    "NEXT_PIPE_ID (obj_pipes (objs pipe_world)) = 2" "NEXT_EVENTFD_ID (obj_efds (objs pipe_world)) = 1"
    "cloexec (tables pipe_world ! 0) = []"
    using v a by (simp_all add: pipe_world_def eventfds_new_def sys_pipe2_def boot_def with_stdio_def create_pipe_def pipe_create_def pipes_new_def
        pipe_put_def alloc_fd_def alloc_fd_from_def Let_def case_prod_beta)
qed

lemma pipe_world_open:
  "open_entries pipe_world = [Stdin, Stdout, Stderr, PipeRead 1, PipeWrite 1]" "room pipe_world"
proof -
  obtain t where "tables pipe_world = [t]" using pipe_world_eq(2) by (metis length_Suc_conv One_nat_def length_0_conv)
  with pipe_world_eq show "open_entries pipe_world = [Stdin, Stdout, Stderr, PipeRead 1, PipeWrite 1]" "room pipe_world"
    by (simp_all add: open_entries_def room_def fds_open_def word_less_alt)
qed

section \<open>Properties\<close>





text \<open>C30: a process that forks a child which exits at once leaves every pipe (data, counts, sleepers) and
  every thread exactly as they were.\<close>

theorem fork_exit_restores:
  assumes "fd_reach (\<lambda>_. True) no_socket_dup tbl w" "h < length (tables w)" "room w"
    and "close_all (length (tables w)) (clone_deep_for_fork h w) = w'"
  shows "obj_pipes (objs w') = obj_pipes (objs w) \<and> obj_threads (objs w') = obj_threads (objs w)"
proof -
  let ?es = "map snd (filter (\<lambda>(_, e). \<not> is_epoll e) (fd_entries (tables w ! h)))" and ?ob = "objs w"
  have w': "objs w' = fold (drop_entry close_all_releases) ?es (fold fork_ref ?es ?ob)"
    using assms(4) by (auto simp: close_all_def clone_deep_for_fork_def Let_def)
  have ends: "pipe_ends ?ob i = total pipe_refs (map fd_entries (tables w)) i" for i
    using reach_counts(2,3) [OF assms(1)] total_is_count by (cases i; cases "snd i") auto
  have in_h: "held pipe_refs ?es i \<le> total pipe_refs (map fd_entries (tables w)) i" for i
    using held_filter_le [of pipe_refs "\<lambda>(_, e). \<not> is_epoll e" "fd_entries (tables w ! h)" i] total_nth [of h "map fd_entries (tables w)" pipe_refs i] assms(2)
    by (simp add: le_trans)
  have le: "pipe_refs e i \<le> pipe_ends ?ob i" if "e \<in> set ?es" for e i
    using held_member [OF that, of pipe_refs i] in_h [of i] ends [of i] by linarith
  have pres: "\<forall>e \<in> set ?es. all_present (obj_pipes ?ob) e"
  proof
    fix e
    assume e: "e \<in> set ?es"
    have "PIPES (obj_pipes ?ob) (fst i) \<noteq> None" if "0 < pipe_refs e i" for i
      using le [OF e, of i] that by (auto simp: pipe_ends_def split: option.splits)
    then show "all_present (obj_pipes ?ob) e" by (simp add: all_present_def del: split_paired_All)
  qed
  have lim: "pipe_ends ?ob i + held pipe_refs ?es i < 2 ^ 32" for i
    using in_h [of i] ends [of i] pipe_objects.total_le_open [of w i] assms(3) by (simp add: room_def)
  note f = fork_all_with_ends [OF with_ends_same [symmetric] pres]
  have "obj_pipes (objs w') = with_ends (obj_pipes ?ob) (pipe_ends ?ob) \<and> obj_threads (objs w') = obj_threads (fold fork_ref ?es ?ob)"
    unfolding w' by (rule drop_all_with_ends [OF conjunct1 [OF f] pres]) (use le lim in blast)+
  with f show ?thesis by (simp add: with_ends_same)
qed

theorem fork_exit_restores_witness:
  "obj_pipes (objs (close_all 1 (clone_deep_for_fork 0 pipe_world))) = obj_pipes (objs pipe_world)"
  using fork_exit_restores [OF pipe_world_reached _ pipe_world_open(2) refl, of 0] by (simp add: pipe_world_eq)

text \<open>\<open>dup\<close> of an open descriptor returns the lowest number not in use, which then refers to the same
  object, not marked close-on-exec; nothing else of any table changes. Of a closed one it is
  \<open>EBADF\<close> without effect.\<close>

theorem dup_takes_lowest:
  assumes "fdw_wf w" "h < length (tables w)" "length (fd_entries (tables w ! h)) < 2 ^ 32"
    and "sys_dup (Some h) oldfd w = (r, w')"
  shows "case get_fd (tables w ! h) oldfd of
      None \<Rightarrow> r = EBADF \<and> w' = w
    | Some e \<Rightarrow> \<exists>fd. r = ucast fd \<and> get_fd (tables w ! h) fd = None
        \<and> (\<forall>k < fd. get_fd (tables w ! h) k \<noteq> None)
        \<and> get_fd (tables w' ! h) = (get_fd (tables w ! h))(fd \<mapsto> e)
        \<and> (\<forall>k. is_cloexec (tables w' ! h) k \<longleftrightarrow> k \<noteq> fd \<and> is_cloexec (tables w ! h) k)
        \<and> (\<forall>h'. h' \<noteq> h \<longrightarrow> tables w' ! h' = tables w ! h')"
proof (cases "get_fd (tables w ! h) oldfd")
  case None
  with assms(4) show ?thesis by (simp add: sys_dup_def Let_def)
next
  case (Some e)
  let ?t = "tables w ! h" and ?fd = "lowest_available_fd (fd_entries (tables w ! h)) 0"
  have wf: "bt_wf (fd_entries ?t)" using fdw_wf_nth [OF assms(1,2)] by (simp add: fdt_wf_def)
  have free: "get_fd ?t ?fd = None" using lowest_fd_free [OF wf assms(3)] by (simp add: get_fd_def)
  then have low: "\<forall>k < ?fd. get_fd ?t k \<noteq> None" using lowest_fd [OF wf refl, of 0] by (auto simp: get_fd_def)
  have w': "r = ucast ?fd" "tables w' = (tables w)[h := clear_cloexec ?fd (?t\<lparr>fd_entries := bt_insert ?fd e (fd_entries ?t)\<rparr>)]"
    using assms(4) Some by (auto simp: sys_dup_def Let_def alloc_fd_def alloc_fd_from_def)
  have "get_fd (tables w' ! h) = (get_fd ?t)(?fd \<mapsto> e)"
    using w'(2) assms(2) by (simp add: get_fd_def fun_eq_iff)
  moreover have "is_cloexec (tables w' ! h) k \<longleftrightarrow> k \<noteq> ?fd \<and> is_cloexec ?t k" for k
    using w'(2) assms(2) by (auto simp: is_cloexec_def clear_cloexec_def)
  moreover have "h' \<noteq> h \<Longrightarrow> tables w' ! h' = tables w ! h'" for h' using w'(2) by simp
  ultimately show ?thesis using Some free low w'(1) by (simp only: option.case) blast
qed

theorem dup_takes_lowest_witness:
  "\<exists>r w' fd. sys_dup (Some 0) 4 pipe_world = (r, w') \<and> r = ucast fd \<and> get_fd (tables pipe_world ! 0) fd = None
     \<and> get_fd (tables w' ! 0) fd = Some (PipeWrite 1)"
proof -
  obtain r w' where call: "sys_dup (Some 0) 4 pipe_world = (r, w')" by fastforce
  have "get_fd (tables pipe_world ! 0) 4 = Some (PipeWrite 1)" by (simp add: get_fd_def pipe_world_eq)
  with dup_takes_lowest [OF reach_wf [OF pipe_world_reached] _ _ call] call show ?thesis
    by (auto simp: pipe_world_eq)
qed

text \<open>C31: a successful \<open>execve\<close> closes exactly the descriptors marked close-on-exec, leaves the others as
  they are, and no mark remains.\<close>

theorem exec_closes_marked:
  assumes "fdw_wf w" "h < length (tables w)" "exec_close h w = w'"
  shows "get_fd (tables w' ! h) k = (if is_cloexec (tables w ! h) k then None else get_fd (tables w ! h) k)
    \<and> \<not> is_cloexec (tables w' ! h) k \<and> (\<forall>h'. h' \<noteq> h \<longrightarrow> tables w' ! h' = tables w ! h')"
proof -
  obtain c es where s: "take_fds (cloexec (tables w ! h)) (fd_entries (tables w ! h)) = (c, es)" by fastforce
  have wf: "bt_wf (fd_entries (tables w ! h))" using fdw_wf_nth [OF assms(1,2)] by (simp add: fdt_wf_def)
  have "tables w' = (tables w)[h := (tables w ! h)\<lparr>fd_entries := es, cloexec := []\<rparr>]"
    using assms(3) s by (auto simp: exec_close_def close_cloexec_fds_def)
  with take_fds_spec(3) [OF wf s, of k] assms(2) show ?thesis by (simp add: get_fd_def is_cloexec_def)
qed

theorem exec_closes_marked_witness:
  "\<exists>w'. exec_close 0 (snd (sys_fcntl (Some 0) 4 F_SETFD 1 pipe_world)) = w'
     \<and> get_fd (tables w' ! 0) 4 = None \<and> get_fd (tables w' ! 0) 3 = Some (PipeRead 1)"
proof -
  let ?w = "snd (sys_fcntl (Some 0) 4 F_SETFD 1 pipe_world)"
  have t: "tables ?w ! 0 = set_cloexec 4 (tables pipe_world ! 0)" "length (tables ?w) = 1"
    using pipe_world_eq
    by (simp_all add: sys_fcntl_def get_fd_def F_SETFD_def F_DUPFD_def F_DUPFD_CLOEXEC_def F_GETFD_def FD_CLOEXEC_def)
  have wf: "fdw_wf ?w" using fd_apply_wf [OF reach_wf [OF pipe_world_reached], of 0 no_tables "FFcntl 4 F_SETFD 1"] pipe_world_eq by simp
  show ?thesis
    using exec_closes_marked [OF wf _ refl, of 0 4] exec_closes_marked [OF wf _ refl, of 0 3] t pipe_world_eq
    by (simp add: get_fd_def is_cloexec_def set_cloexec_def)
qed

section \<open>What the calls leave behind\<close>

text \<open>Copies without a reference: the objects do not notice.\<close>

lemma fcntl_dup_socket_uncounted:
  assumes "get_fd (tables w ! h) fd = Some (UnixSocket r x)" "cmd = F_DUPFD \<or> cmd = F_DUPFD_CLOEXEC"
  shows "objs (snd (sys_fcntl (Some h) fd cmd arg w)) = objs w"
  using assms by (auto simp: sys_fcntl_def Let_def case_prod_beta)

lemma dup_eventfd_uncounted:
  assumes "get_fd (tables w ! h) fd = Some (EventFd k)"
  shows "objs (snd (sys_dup (Some h) fd w)) = objs w"
  using assms by (auto simp: sys_dup_def Let_def case_prod_beta)

text \<open>An empty range brings the kernel down.\<close>

lemma close_range_panics: "lst_fd < fst_fd \<Longrightarrow> fst (sys_close_range (Some h) fst_fd lst_fd flags w) = None"
  by (simp add: sys_close_range_def)

text \<open>A child keeps the close-on-exec mark of an epoll descriptor that it does not inherit.\<close>

lemma fork_keeps_epoll_mark:
  assumes "fdw_wf w" "h < length (tables w)" "get_fd (tables w ! h) k = Some (EpollFd i)" "is_cloexec (tables w ! h) k"
  shows "get_fd (tables (clone_deep_for_fork h w) ! length (tables w)) k = None"
    and "is_cloexec (tables (clone_deep_for_fork h w) ! length (tables w)) k"
proof -
  let ?es = "fd_entries (tables w ! h)"
  have "bt_wf ?es" using fdw_wf_nth [OF assms(1,2)] by (simp add: fdt_wf_def)
  then have d: "distinct (map fst ?es)" unfolding bt_wf_def by (simp add: strict_sorted_iff)
  have "(k, e) \<in> set ?es \<Longrightarrow> e = EpollFd i" for e
    using assms(3) map_of_is_SomeI [OF d] by (fastforce simp: get_fd_def)
  then have "map_of (filter (\<lambda>(_, e). \<not> is_epoll e) ?es) k = None"
    by (force simp: map_of_eq_None_iff is_epoll_def)
  then show "get_fd (tables (clone_deep_for_fork h w) ! length (tables w)) k = None"
    by (simp add: clone_deep_for_fork_def Let_def get_fd_def)
  show "is_cloexec (tables (clone_deep_for_fork h w) ! length (tables w)) k"
    using assms(4) by (simp add: clone_deep_for_fork_def Let_def is_cloexec_def)
qed

text \<open>The non-blocking mark of a descriptor closed by \<open>execve\<close> stays for the next one of that number.\<close>

lemma exec_keeps_nonblock:
  assumes "h < length (tables w)"
  shows "nonblock (tables (exec_close h w) ! h) = nonblock (tables w ! h)"
  using assms by (simp add: exec_close_def close_cloexec_fds_def case_prod_beta)

text \<open>When every number from the requested one on is in use, \<open>fcntl\<close> hands out 0, in use or not.\<close>

lemma dupfd_wraps:
  assumes "bt_wf es" "\<forall>k \<ge> n. map_of es k \<noteq> None"
  shows "lowest_available_fd es n = 0"
  using lowest_fd [OF assms(1) refl, of n] assms(2) by blast

end
