(* ===== verification/Mmu_Tables.thy ===== *)
theory Mmu_Tables
  imports Pmm_Global
begin

text \<open>
  Page tables: the descriptor bits of \<open>crates/akuma-exec/src/mmu/types.rs\<close> and the functions of
  \<open>mmu/mod.rs\<close> that walk the four-level tables of a user address space. A table is an array of
  512 descriptors, here a function from 9-bit indices, and the memory that holds tables maps
  the address of a frame to its array. What the hardware makes of the tables is the function
  \<open>view\<close>: the physical address behind a virtual one and the attribute bits that govern it.
\<close>

section \<open>Descriptors\<close>

type_synonym pte_index = "9 word"
type_synonym ptes = "u64 \<Rightarrow> pte_index \<Rightarrow> u64"

definition VALID :: u64 where "VALID = 1"
definition TABLE :: u64 where "TABLE = 2"
definition BLOCK :: u64 where "BLOCK = 0"
definition AF :: u64 where "AF = push_bit 10 1"
definition SH_INNER :: u64 where "SH_INNER = push_bit 8 3"
definition SH_OUTER :: u64 where "SH_OUTER = push_bit 8 2"
definition AP_RW_ALL :: u64 where "AP_RW_ALL = push_bit 6 1"
definition AP_RO_EL1 :: u64 where "AP_RO_EL1 = push_bit 6 2"
definition AP_RO_ALL :: u64 where "AP_RO_ALL = push_bit 6 3"
definition PXN :: u64 where "PXN = push_bit 53 1"
definition UXN :: u64 where "UXN = push_bit 54 1"
definition NG :: u64 where "NG = push_bit 11 1"

definition MAIR_DEVICE_NGNRNE :: u64 where "MAIR_DEVICE_NGNRNE = 0"
definition MAIR_NORMAL_WB :: u64 where "MAIR_NORMAL_WB = 3"

definition attr_index :: "u64 \<Rightarrow> u64" where
  "attr_index i = push_bit 2 (i AND 7)"

lemmas flag_defs = VALID_def TABLE_def BLOCK_def AF_def SH_INNER_def SH_OUTER_def AP_RW_ALL_def
  AP_RO_EL1_def AP_RO_ALL_def PXN_def UXN_def NG_def attr_index_def MAIR_DEVICE_NGNRNE_def
  MAIR_NORMAL_WB_def

definition user_NONE :: u64 where "user_NONE = AP_RO_EL1 OR UXN OR PXN"
definition user_RO :: u64 where "user_RO = AP_RO_ALL"
definition user_RW_NO_EXEC :: u64 where "user_RW_NO_EXEC = AP_RW_ALL OR UXN OR PXN"
definition user_RX :: u64 where "user_RX = AP_RO_ALL OR PXN"

definition from_prot :: "u32 \<Rightarrow> u64" where
  "from_prot prot =
     (if prot = 0 then user_NONE
      else if prot AND 2 \<noteq> 0 then user_RW_NO_EXEC
      else if prot AND 4 \<noteq> 0 then user_RX
      else user_RO)"

text \<open>The three tests the walks repeat on a descriptor.\<close>

definition valid :: "u64 \<Rightarrow> bool" where "valid e \<longleftrightarrow> e AND VALID \<noteq> 0"
definition table :: "u64 \<Rightarrow> bool" where "table e \<longleftrightarrow> e AND TABLE \<noteq> 0"
definition entry_addr :: "u64 \<Rightarrow> u64" where "entry_addr e = e AND 0x0000FFFFFFFFF000"

definition l0_idx :: "u64 \<Rightarrow> pte_index" where "l0_idx va = ucast (drop_bit 39 va)"
definition l1_idx :: "u64 \<Rightarrow> pte_index" where "l1_idx va = ucast (drop_bit 30 va)"
definition l2_idx :: "u64 \<Rightarrow> pte_index" where "l2_idx va = ucast (drop_bit 21 va)"
definition l3_idx :: "u64 \<Rightarrow> pte_index" where "l3_idx va = ucast (drop_bit 12 va)"

definition pte_write :: "u64 \<Rightarrow> pte_index \<Rightarrow> u64 \<Rightarrow> ptes \<Rightarrow> ptes" where
  "pte_write a i e m = m(a := (m a)(i := e))"

section \<open>Walks\<close>

definition is_page_mapped_ptr :: "ptes \<Rightarrow> u64 \<Rightarrow> u64 \<Rightarrow> bool" where
  "is_page_mapped_ptr m l0 va =
     (let l0_entry = m l0 (l0_idx va) in
      if \<not> valid l0_entry then False
      else let l1_entry = m (entry_addr l0_entry) (l1_idx va) in
      if \<not> valid l1_entry then False
      else if \<not> table l1_entry then True
      else let l2_entry = m (entry_addr l1_entry) (l2_idx va) in
      if \<not> valid l2_entry then False
      else if \<not> table l2_entry then True
      else valid (m (entry_addr l2_entry) (l3_idx va)))"

definition is_page_mapped :: "ptes \<Rightarrow> u64 \<Rightarrow> u64 \<Rightarrow> bool" where
  "is_page_mapped m l0 va =
     (let l0_entry = m l0 (l0_idx va) in
      if \<not> valid l0_entry then False
      else let l1_entry = m (entry_addr l0_entry) (l1_idx va) in
      if \<not> valid l1_entry then False
      else if \<not> table l1_entry then True
      else let l2_entry = m (entry_addr l1_entry) (l2_idx va) in
      if \<not> valid l2_entry then False
      else if \<not> table l2_entry then True
      else valid (m (entry_addr l2_entry) (l3_idx va)))"

text \<open>The two queries about the space in the translation register \<open>ttbr\<close>.\<close>

definition is_current_user_page_mapped :: "ptes \<Rightarrow> u64 \<Rightarrow> u64 \<Rightarrow> bool" where
  "is_current_user_page_mapped m ttbr va =
     (if ttbr = 0 then False
      else is_page_mapped_ptr m (ttbr AND 0x0000FFFFFFFFF000) (va AND NOT 0xFFF))"

definition is_current_user_range_mapped :: "ptes \<Rightarrow> u64 \<Rightarrow> u64 \<Rightarrow> u64 \<Rightarrow> bool" where
  "is_current_user_range_mapped m ttbr va_start len =
     (if ttbr = 0 then False
      else let l0_addr = ttbr AND 0x0000FFFFFFFFF000;
               start_page = va_start AND NOT 0xFFF;
               end_page = (va_start + len + 4096 - 1) AND NOT 0xFFF;
               num_pages = unat ((end_page - start_page) div 4096)
           in list_all (\<lambda>i. is_page_mapped_ptr m l0_addr (start_page + of_nat i * 4096)) [0..<num_pages])"

definition translate_user_va :: "ptes \<Rightarrow> u64 \<Rightarrow> u64 \<Rightarrow> u64 option" where
  "translate_user_va m l0 va =
     (let l0_entry = m l0 (l0_idx va) in
      if \<not> valid l0_entry then None
      else let l1_entry = m (entry_addr l0_entry) (l1_idx va) in
      if \<not> valid l1_entry then None
      else if \<not> table l1_entry
        then Some ((l1_entry AND 0x0000FFFFC0000000) OR (va AND 0x3FFFFFFF))
      else let l2_entry = m (entry_addr l1_entry) (l2_idx va) in
      if \<not> valid l2_entry then None
      else if \<not> table l2_entry
        then Some ((l2_entry AND 0x0000FFFFFFE00000) OR (va AND 0x1FFFFF))
      else let l3_entry = m (entry_addr l2_entry) (l3_idx va) in
      if \<not> valid l3_entry then None
      else Some (entry_addr l3_entry OR (va AND 0xFFF)))"

text \<open>
  The walk that unmapping, eviction, zeroing and permission changes share: three levels down,
  testing \<open>VALID\<close> only.
\<close>

definition l3_ptr :: "ptes \<Rightarrow> u64 \<Rightarrow> u64 \<Rightarrow> u64 option" where
  "l3_ptr m l0 va =
     (let l0_entry = m l0 (l0_idx va) in
      if \<not> valid l0_entry then None
      else let l1_entry = m (entry_addr l0_entry) (l1_idx va) in
      if \<not> valid l1_entry then None
      else let l2_entry = m (entry_addr l1_entry) (l2_idx va) in
      if \<not> valid l2_entry then None
      else Some (entry_addr l2_entry))"

definition read_l3_page_entry :: "ptes \<Rightarrow> u64 \<Rightarrow> u64 \<Rightarrow> u64 option" where
  "read_l3_page_entry m l0 va0 =
     (let va = va0 AND NOT 0xFFF in
      case l3_ptr m l0 va of
        None \<Rightarrow> None
      | Some l3 \<Rightarrow> let l3_entry = m l3 (l3_idx va) in if \<not> valid l3_entry then None else Some l3_entry)"

definition phys_addr_for_page_va :: "ptes \<Rightarrow> u64 \<Rightarrow> u64 \<Rightarrow> u64 option" where
  "phys_addr_for_page_va m l0 va =
     (case read_l3_page_entry m l0 va of None \<Rightarrow> None | Some e \<Rightarrow> Some (entry_addr e))"

definition shatter_block_to_pages :: "u64 \<Rightarrow> u64 \<Rightarrow> ptes \<Rightarrow> ptes" where
  "shatter_block_to_pages l3_frame block_entry m =
     (let block_pa = block_entry AND 0x0000FFFFFFE00000;
          attrs = block_entry AND 0xFFF0000000000FFC
      in m(l3_frame := (\<lambda>i. (block_pa + push_bit 12 (ucast i)) OR attrs OR VALID OR TABLE)))"

section \<open>What the tables mean\<close>

text \<open>
  Level 0 is the last one. A descriptor at level \<open>n\<close> covers \<open>2 ^ (12 + 9 * n)\<close> bytes.
\<close>

abbreviation ADDR_MASK :: u64 where "ADDR_MASK \<equiv> 0x0000FFFFFFFFF000"
abbreviation ATTR_MASK :: u64 where "ATTR_MASK \<equiv> 0xFFF0000000000FFC"

definition idx :: "nat \<Rightarrow> u64 \<Rightarrow> pte_index" where
  "idx n va = ucast (drop_bit (12 + 9 * n) va)"

definition leaf :: "nat \<Rightarrow> u64 \<Rightarrow> u64 \<Rightarrow> u64 \<times> u64" where
  "leaf n e va = ((e AND ADDR_MASK AND NOT (mask (12 + 9 * n))) OR (va AND mask (12 + 9 * n)),
                  e AND ATTR_MASK)"

fun view :: "nat \<Rightarrow> ptes \<Rightarrow> u64 \<Rightarrow> u64 \<Rightarrow> (u64 \<times> u64) option" where
  "view 0 m a va = (let e = m a (idx 0 va) in if valid e then Some (leaf 0 e va) else None)"
| "view (Suc n) m a va =
     (let e = m a (idx (Suc n) va) in
      if \<not> valid e then None
      else if \<not> table e then Some (leaf (Suc n) e va)
      else view n m (entry_addr e) va)"

definition is_table :: "u64 \<Rightarrow> bool" where "is_table e \<longleftrightarrow> valid e \<and> table e"

fun tables :: "nat \<Rightarrow> ptes \<Rightarrow> u64 \<Rightarrow> u64 set" where
  "tables 0 m a = {a}"
| "tables (Suc n) m a = insert a (\<Union>i \<in> {i. is_table (m a i)}. tables n m (entry_addr (m a i)))"

text \<open>
  The tables form a tree: no table is reached twice, and the only blocks are those of the
  second-last level, 2 MiB each.
\<close>

fun tree :: "nat \<Rightarrow> ptes \<Rightarrow> u64 \<Rightarrow> bool" where
  "tree 0 m a \<longleftrightarrow> True"
| "tree (Suc n) m a \<longleftrightarrow>
     (\<forall>i. valid (m a i) \<longrightarrow> table (m a i) \<or> n = 0)
     \<and> (\<forall>i. is_table (m a i) \<longrightarrow> a \<notin> tables n m (entry_addr (m a i)) \<and> tree n m (entry_addr (m a i)))
     \<and> (\<forall>i j. i \<noteq> j \<and> is_table (m a i) \<and> is_table (m a j) \<longrightarrow>
          tables n m (entry_addr (m a i)) \<inter> tables n m (entry_addr (m a j)) = {})"

lemma is_page_mapped_same [simp]: "is_page_mapped = is_page_mapped_ptr"
  by (simp add: fun_eq_iff is_page_mapped_def is_page_mapped_ptr_def)

section \<open>Descriptor bits\<close>

lemma valid_bit: "valid e \<longleftrightarrow> bit e 0"
  by (simp add: valid_def VALID_def and_one_eq bit_0 odd_iff_mod_2_eq_one)

lemma table_bit: "table e \<longleftrightarrow> bit e 1"
proof -
  have "e AND 2 = (if bit e 1 then 2 else 0)"
    by (rule bit_word_eqI) (auto simp: bit_simps)
  then show ?thesis by (simp add: table_def TABLE_def)
qed

lemma addr_mask: "ADDR_MASK = push_bit 12 (mask 36)"
  by (simp add: mask_eq_exp_minus_1 push_bit_eq_mult)

lemma bit_addr_mask: "bit ADDR_MASK n \<longleftrightarrow> 12 \<le> n \<and> n < 48"
  unfolding addr_mask by (auto simp: bit_simps)

lemma entry_addr_or: "entry_addr (a OR b) = entry_addr a OR entry_addr b"
  by (simp add: entry_addr_def bit.conj_disj_distrib2)

lemma entry_addr_idem [simp]: "entry_addr (entry_addr e) = entry_addr e"
  by (simp add: entry_addr_def and.assoc)

lemma idx_levels: "l0_idx = idx 3" "l1_idx = idx 2" "l2_idx = idx 1" "l3_idx = idx 0"
  by (simp_all add: fun_eq_iff l0_idx_def l1_idx_def l2_idx_def l3_idx_def idx_def)

text \<open>Two addresses with the same four indices lie in the same page.\<close>

lemma bit_idx: "bit (idx n va) k \<longleftrightarrow> k < 9 \<and> bit va (12 + 9 * n + k)"
  by (simp add: idx_def bit_simps)

lemma same_page_iff:
  "(\<forall>k \<le> 3. idx k va = idx k va') \<longleftrightarrow> entry_addr va = entry_addr va'"
proof
  assume eq: "\<forall>k \<le> 3. idx k va = idx k va'"
  show "entry_addr va = entry_addr va'"
  proof (rule bit_word_eqI)
    fix n assume "n < LENGTH(64)"
    have "bit va n = bit va' n" if "12 \<le> n" "n < 48"
    proof -
      let ?k = "(n - 12) div 9" and ?j = "(n - 12) mod 9"
      have n: "n = 12 + 9 * ?k + ?j" using that by simp
      have "?k \<le> 3" "?j < 9" using that by simp_all
      with eq bit_idx [of ?k _ ?j] n show ?thesis by metis
    qed
    then show "bit (entry_addr va) n = bit (entry_addr va') n"
      unfolding entry_addr_def bit_and_iff bit_addr_mask by blast
  qed
next
  assume eq: "entry_addr va = entry_addr va'"
  show "\<forall>k \<le> 3. idx k va = idx k va'"
  proof (intro allI impI bit_word_eqI)
    fix k n :: nat assume k: "k \<le> 3" and "n < LENGTH(9)"
    then have n: "12 \<le> 12 + 9 * k + n" "12 + 9 * k + n < 48" by simp_all
    from eq have "bit (entry_addr va) (12 + 9 * k + n) = bit (entry_addr va') (12 + 9 * k + n)" by simp
    then have "bit va (12 + 9 * k + n) = bit va' (12 + 9 * k + n)"
      unfolding entry_addr_def bit_and_iff bit_addr_mask using n by blast
    then show "bit (idx k va) n = bit (idx k va') n" by (simp add: bit_idx)
  qed
qed

text \<open>The descriptor of a new table and of a page.\<close>

abbreviation table_entry :: "u64 \<Rightarrow> u64" where
  "table_entry f \<equiv> f OR VALID OR TABLE"

lemma valid_or: "valid (a OR b) \<longleftrightarrow> valid a \<or> valid b" "valid VALID"
  by (simp_all add: valid_bit bit_or_iff VALID_def)

lemma table_or: "table (a OR b) \<longleftrightarrow> table a \<or> table b" "table TABLE"
  by (simp_all add: table_bit bit_or_iff TABLE_def)

lemma or_valid_table [simp]:
  "valid (e OR VALID OR TABLE)" "table (e OR VALID OR TABLE)" "is_table (e OR VALID OR TABLE)"
  by (simp_all add: is_table_def valid_bit table_bit bit_or_iff VALID_def TABLE_def bit_1_iff)

lemma entry_addr_flags: "entry_addr VALID = 0" "entry_addr TABLE = 0"
  by (simp_all add: entry_addr_def flag_defs)

lemma entry_addr_table_entry [simp]: "entry_addr (f OR VALID OR TABLE) = entry_addr f"
  by (simp add: entry_addr_or entry_addr_flags)

lemma not_valid_0 [simp]: "\<not> valid 0" "\<not> is_table 0"
  by (simp_all add: valid_def is_table_def)

section \<open>Trees of tables\<close>

lemma root_in_tables [simp]: "a \<in> tables n m a"
  by (cases n) simp_all

lemma tables_child: "is_table (m a i) \<Longrightarrow> tables n m (entry_addr (m a i)) \<subseteq> tables (Suc n) m a"
  by auto

text \<open>Only the tables of a tree matter to it.\<close>

lemma tables_cong: "\<forall>b \<in> tables n m a. m' b = m b \<Longrightarrow> tables n m' a = tables n m a"
proof (induction n arbitrary: a)
  case (Suc n)
  then have a: "m' a = m a" by simp
  have "tables n m' (entry_addr (m a i)) = tables n m (entry_addr (m a i))" if "is_table (m a i)" for i
    using Suc.IH [of "entry_addr (m a i)"] Suc.prems that by auto
  with a show ?case by auto
qed simp

lemma view_cong: "\<forall>b \<in> tables n m a. m' b = m b \<Longrightarrow> view n m' a va = view n m a va"
proof (induction n arbitrary: a)
  case (Suc n)
  let ?e = "m a (idx (Suc n) va)"
  from Suc.prems have a: "m' a = m a" by simp
  have "view n m' (entry_addr ?e) va = view n m (entry_addr ?e) va" if "is_table ?e"
    by (rule Suc.IH) (use Suc.prems that in auto)
  with a show ?case by (auto simp: is_table_def Let_def)
qed simp

lemma tree_cong: "\<forall>b \<in> tables n m a. m' b = m b \<Longrightarrow> tree n m' a = tree n m a"
proof (induction n arbitrary: a)
  case (Suc n)
  from Suc.prems have a: "m' a = m a" by simp
  have sub: "\<forall>b \<in> tables n m (entry_addr (m a i)). m' b = m b" if "is_table (m a i)" for i
    using Suc.prems that by auto
  have "tree n m' (entry_addr (m a i)) = tree n m (entry_addr (m a i))"
    "tables n m' (entry_addr (m a i)) = tables n m (entry_addr (m a i))" if "is_table (m a i)" for i
    using Suc.IH [OF sub [OF that]] tables_cong [OF sub [OF that]] by simp_all
  with a show ?case by (auto cong: conj_cong)
qed simp

lemmas tree_congs = tables_cong tree_cong

text \<open>
  One descriptor of a table changes, and everything it leads to changes with it: the other
  descriptors of the table lead where they led before.
\<close>

lemma replace_child:
  assumes t: "tree (Suc n) m a"
    and same: "\<forall>j. j \<noteq> i \<longrightarrow> m' a j = m a j"
    and others: "\<forall>j. j \<noteq> i \<and> is_table (m a j) \<longrightarrow> (\<forall>b \<in> tables n m (entry_addr (m a j)). m' b = m b)"
    and ok: "valid (m' a i) \<longrightarrow> table (m' a i) \<or> n = 0"
    and child: "is_table (m' a i) \<longrightarrow> tree n m' (entry_addr (m' a i))
      \<and> a \<notin> tables n m' (entry_addr (m' a i))
      \<and> (\<forall>j. j \<noteq> i \<and> is_table (m a j) \<longrightarrow>
           tables n m' (entry_addr (m' a i)) \<inter> tables n m (entry_addr (m a j)) = {})"
  shows "tree (Suc n) m' a"
    and "idx (Suc n) va \<noteq> i \<Longrightarrow> view (Suc n) m' a va = view (Suc n) m a va"
    and "tables (Suc n) m' a =
      insert a ((\<Union>j \<in> {j. j \<noteq> i \<and> is_table (m a j)}. tables n m (entry_addr (m a j)))
        \<union> (if is_table (m' a i) then tables n m' (entry_addr (m' a i)) else {}))"
proof -
  have kept: "\<forall>b \<in> tables n m (entry_addr (m a j)). m' b = m b" if "j \<noteq> i" "is_table (m a j)" for j
    using others that by blast
  have tab: "tables n m' (entry_addr (m a j)) = tables n m (entry_addr (m a j))"
    "tree n m' (entry_addr (m a j)) = tree n m (entry_addr (m a j))"
    if "j \<noteq> i" "is_table (m a j)" for j
    using tables_cong [OF kept [OF that]] tree_cong [OF kept [OF that]] by blast+
  have eqs: "m' a j = m a j" if "j \<noteq> i" for j using same that by blast
  have t1: "table (m a j) \<or> n = 0" if "valid (m a j)" for j
    using t that unfolding tree.simps by blast
  have t2: "a \<notin> tables n m (entry_addr (m a j))" "tree n m (entry_addr (m a j))" if "is_table (m a j)" for j
    using t that unfolding tree.simps by blast+
  have t3: "tables n m (entry_addr (m a j)) \<inter> tables n m (entry_addr (m a k)) = {}"
    if "j \<noteq> k" "is_table (m a j)" "is_table (m a k)" for j k
    using t that unfolding tree.simps by blast
  show "tree (Suc n) m' a"
  proof (simp only: tree.simps, intro conjI allI impI)
    fix j assume "valid (m' a j)" then show "table (m' a j) \<or> n = 0"
      using t1 [of j] ok eqs [of j] by (cases "j = i") simp_all
  next
    fix j assume "is_table (m' a j)" then show "a \<notin> tables n m' (entry_addr (m' a j))"
      using t2 [of j] child eqs [of j] tab [of j] by (cases "j = i") simp_all
  next
    fix j assume "is_table (m' a j)" then show "tree n m' (entry_addr (m' a j))"
      using t2 [of j] child eqs [of j] tab [of j] by (cases "j = i") simp_all
  next
    fix j k assume jk: "j \<noteq> k \<and> is_table (m' a j) \<and> is_table (m' a k)"
    consider "j = i" "k \<noteq> i" | "k = i" "j \<noteq> i" | "j \<noteq> i" "k \<noteq> i" using jk by blast
    then show "tables n m' (entry_addr (m' a j)) \<inter> tables n m' (entry_addr (m' a k)) = {}"
    proof cases
      case 1 with jk child eqs [of k] tab [of k] show ?thesis by simp
    next
      case 2 with jk child eqs [of j] tab [of j] show ?thesis by (simp add: Int_commute)
    next
      case 3 with jk t3 [of j k] eqs [of j] eqs [of k] tab [of j] tab [of k] show ?thesis by simp
    qed
  qed
  show "view (Suc n) m' a va = view (Suc n) m a va" if "idx (Suc n) va \<noteq> i"
  proof -
    let ?e = "m a (idx (Suc n) va)"
    have e: "m' a (idx (Suc n) va) = ?e" by (rule eqs [OF that])
    have "view n m' (entry_addr ?e) va = view n m (entry_addr ?e) va" if "is_table ?e"
      by (rule view_cong [OF kept [OF \<open>idx (Suc n) va \<noteq> i\<close> that]])
    with e show ?thesis by (auto simp: is_table_def Let_def)
  qed
  show "tables (Suc n) m' a =
      insert a ((\<Union>j \<in> {j. j \<noteq> i \<and> is_table (m a j)}. tables n m (entry_addr (m a j)))
        \<union> (if is_table (m' a i) then tables n m' (entry_addr (m' a i)) else {}))"
  proof -
    have "tables (Suc n) m' a =
        insert a ((\<Union>j \<in> {j. j \<noteq> i \<and> is_table (m' a j)}. tables n m' (entry_addr (m' a j)))
          \<union> (if is_table (m' a i) then tables n m' (entry_addr (m' a i)) else {}))" by auto
    also have "(\<Union>j \<in> {j. j \<noteq> i \<and> is_table (m' a j)}. tables n m' (entry_addr (m' a j)))
        = (\<Union>j \<in> {j. j \<noteq> i \<and> is_table (m a j)}. tables n m (entry_addr (m a j)))"
      by (rule SUP_cong) (auto simp: eqs tab)
    finally show ?thesis .
  qed
qed

text \<open>A subtree is rebuilt in place, with frames from outside the tree at most.\<close>

lemma rebuild_child:
  assumes t: "tree (Suc n) m a" and e: "is_table (m a i)"
    and agree: "\<forall>b \<in> tables (Suc n) m a. b \<notin> tables n m (entry_addr (m a i)) \<longrightarrow> m' b = m b"
    and sub: "tree n m' (entry_addr (m a i))"
    and tabs: "tables n m' (entry_addr (m a i)) = tables n m (entry_addr (m a i)) \<union> X"
    and X: "X \<inter> tables (Suc n) m a = {}"
  shows "m' a = m a" and "tree (Suc n) m' a"
    and "view (Suc n) m' a va =
      (if idx (Suc n) va = i then view n m' (entry_addr (m a i)) va else view (Suc n) m a va)"
    and "tables (Suc n) m' a = tables (Suc n) m a \<union> X"
proof -
  let ?c = "entry_addr (m a i)"
  from t e have na: "a \<notin> tables n m ?c" by simp
  with agree show a: "m' a = m a" by simp
  have dis: "tables n m ?c \<inter> tables n m (entry_addr (m a j)) = {}" if "j \<noteq> i" "is_table (m a j)" for j
    using t e that unfolding tree.simps by blast
  have cj: "tables n m (entry_addr (m a j)) \<subseteq> tables (Suc n) m a" if "is_table (m a j)" for j
    using that by (rule tables_child)
  have others: "\<forall>j. j \<noteq> i \<and> is_table (m a j) \<longrightarrow> (\<forall>b \<in> tables n m (entry_addr (m a j)). m' b = m b)"
    using agree dis cj by blast
  have ok: "valid (m' a i) \<longrightarrow> table (m' a i) \<or> n = 0" using e a by (simp add: is_table_def)
  have child: "is_table (m' a i) \<longrightarrow> tree n m' (entry_addr (m' a i))
      \<and> a \<notin> tables n m' (entry_addr (m' a i))
      \<and> (\<forall>j. j \<noteq> i \<and> is_table (m a j) \<longrightarrow>
           tables n m' (entry_addr (m' a i)) \<inter> tables n m (entry_addr (m a j)) = {})"
    unfolding a using sub tabs na X dis cj root_in_tables [of a "Suc n" m] by blast
  have same: "\<forall>j. j \<noteq> i \<longrightarrow> m' a j = m a j" using a by simp
  note r = replace_child [OF t same others ok child]
  show "tree (Suc n) m' a" by (rule r(1))
  show "view (Suc n) m' a va = (if idx (Suc n) va = i then view n m' ?c va else view (Suc n) m a va)"
    using r(2) e a by (auto simp: is_table_def Let_def)
  have "tables (Suc n) m a =
      insert a ((\<Union>j \<in> {j. j \<noteq> i \<and> is_table (m a j)}. tables n m (entry_addr (m a j))) \<union> tables n m ?c)"
    using e by auto
  then show "tables (Suc n) m' a = tables (Suc n) m a \<union> X"
    unfolding r(3) a using e tabs by auto
qed

text \<open>A table that is not part of the tree is hung into a descriptor that led to no table.\<close>

lemma hang_table:
  assumes t: "tree (Suc n) m a" and e: "\<not> is_table (m a i)"
    and f: "f \<notin> tables (Suc n) m a" "entry_addr f = f"
    and m': "m' = pte_write a i (table_entry f) (m(f := c))"
    and sub: "tree n m' f" "tables n m' f = {f}"
  shows "is_table (m' a i)" "entry_addr (m' a i) = f" "tree (Suc n) m' a"
    and "view (Suc n) m' a va = (if idx (Suc n) va = i then view n m' f va else view (Suc n) m a va)"
    and "tables (Suc n) m' a = insert f (tables (Suc n) m a)"
proof -
  have fa: "f \<noteq> a" using f by auto
  have ai: "m' a i = table_entry f" and aj: "\<And>j. j \<noteq> i \<Longrightarrow> m' a j = m a j"
    and others: "\<And>b. b \<noteq> a \<Longrightarrow> b \<noteq> f \<Longrightarrow> m' b = m b"
    using fa by (simp_all add: m' pte_write_def)
  show e1: "is_table (m' a i)" and e2: "entry_addr (m' a i) = f" unfolding ai by (simp_all add: f)
  have kept: "\<forall>j. j \<noteq> i \<and> is_table (m a j) \<longrightarrow> (\<forall>b \<in> tables n m (entry_addr (m a j)). m' b = m b)"
  proof (intro allI impI ballI)
    fix j b assume "j \<noteq> i \<and> is_table (m a j)" and b: "b \<in> tables n m (entry_addr (m a j))"
    then have "a \<notin> tables n m (entry_addr (m a j))" "tables n m (entry_addr (m a j)) \<subseteq> tables (Suc n) m a"
      using t by auto
    with b f show "m' b = m b" by (intro others) auto
  qed
  have ok: "valid (m' a i) \<longrightarrow> table (m' a i) \<or> n = 0" unfolding ai by simp
  have child: "is_table (m' a i) \<longrightarrow> tree n m' (entry_addr (m' a i))
      \<and> a \<notin> tables n m' (entry_addr (m' a i))
      \<and> (\<forall>j. j \<noteq> i \<and> is_table (m a j) \<longrightarrow>
           tables n m' (entry_addr (m' a i)) \<inter> tables n m (entry_addr (m a j)) = {})"
    unfolding e2 sub(2) using sub(1) fa f by auto
  have same: "\<forall>j. j \<noteq> i \<longrightarrow> m' a j = m a j" using aj by blast
  note r = replace_child [OF t same kept ok child]
  show "tree (Suc n) m' a" by (rule r(1))
  show "view (Suc n) m' a va = (if idx (Suc n) va = i then view n m' f va else view (Suc n) m a va)"
    using r(2) e1 e2 by (auto simp: is_table_def Let_def)
  have "{j. j \<noteq> i \<and> is_table (m a j)} = {j. is_table (m a j)}" using e by auto
  then show "tables (Suc n) m' a = insert f (tables (Suc n) m a)"
    using r(3) e1 unfolding e2 sub(2) by auto
qed

lemma blank_table:
  assumes "m f = (\<lambda>_. 0)"
  shows "tree n m f" "tables n m f = {f}" "view n m f va = None"
  using assms by (cases n; simp)+

text \<open>
  Breaking a 2 MiB block into pages: every address in the block keeps its physical address and
  its attributes.
\<close>

lemma bit_block_mask: "bit (0x0000FFFFFFE00000 :: u64) n \<longleftrightarrow> 21 \<le> n \<and> n < 48"
proof -
  have eq: "(0x0000FFFFFFE00000 :: u64) = push_bit 21 (mask 27)"
    by (simp add: mask_eq_exp_minus_1 push_bit_eq_mult)
  show ?thesis unfolding eq by (auto simp: bit_simps)
qed

lemma shattered_page:
  defines "p \<equiv> \<lambda>e i. ((e AND 0x0000FFFFFFE00000) + push_bit 12 (ucast (i :: pte_index))) OR (e AND ATTR_MASK) OR VALID OR TABLE"
  shows "leaf 0 (p e (idx 0 va)) va = leaf 1 e va"
proof -
  let ?b = "e AND 0x0000FFFFFFE00000" and ?i = "push_bit 12 (ucast (idx 0 va)) :: u64"
  have bi: "bit ?i n \<longleftrightarrow> 12 \<le> n \<and> n < 21 \<and> bit va n" for n
    by (auto simp: bit_simps bit_idx)
  have bb: "bit ?b n \<longleftrightarrow> 21 \<le> n \<and> n < 48 \<and> bit e n" for n
    unfolding bit_and_iff bit_block_mask by blast
  have sum: "?b + ?i = ?b OR ?i"
    by (rule disjunctive_add_eq_or) (rule bit_word_eqI, unfold bit_and_iff [of ?b] bi bb, simp)
  have io: "?i AND ADDR_MASK = ?i"
    by (rule bit_word_eqI) (unfold bit_and_iff bi bit_addr_mask, auto)
  have bo: "?b AND ADDR_MASK = ?b" by (simp add: and.assoc)
  have "p e (idx 0 va) AND ADDR_MASK = ?b OR ?i"
    unfolding p_def sum bit.conj_disj_distrib2 io bo by (simp add: and.assoc flag_defs)
  then have "fst (leaf 0 (p e (idx 0 va)) va) = ((?b OR ?i) AND NOT (mask 12)) OR (va AND mask 12)"
    by (simp add: leaf_def flip: and.assoc)
  also have "\<dots> = fst (leaf 1 e va)"
  proof (rule bit_word_eqI)
    fix n assume "n < LENGTH(64)"
    show "bit (((?b OR ?i) AND NOT (mask 12)) OR (va AND mask 12)) n = bit (fst (leaf 1 e va)) n"
      unfolding leaf_def fst_conv bit_or_iff bit_and_iff bi bit_block_mask bit_addr_mask bit_not_iff bit_mask_iff
      using \<open>n < LENGTH(64)\<close> by auto
  qed
  finally have pa: "fst (leaf 0 (p e (idx 0 va)) va) = fst (leaf 1 e va)" .
  have "?b AND ATTR_MASK = 0" "?i AND ATTR_MASK = 0"
    using arg_cong [OF io, of "\<lambda>x. x AND ATTR_MASK"] by (simp_all add: and.assoc)
  then have "p e (idx 0 va) AND ATTR_MASK = e AND ATTR_MASK"
    unfolding p_def sum bit.conj_disj_distrib2 by (simp add: and.assoc flag_defs)
  with pa show ?thesis by (simp add: leaf_def)
qed

section \<open>Changing one descriptor of the last level\<close>

fun leaf_table :: "nat \<Rightarrow> ptes \<Rightarrow> u64 \<Rightarrow> u64 \<Rightarrow> u64 option" where
  "leaf_table 0 m a va = Some a"
| "leaf_table (Suc n) m a va =
     (let e = m a (idx (Suc n) va) in if is_table e then leaf_table n m (entry_addr e) va else None)"

lemma leaf_table_in: "leaf_table n m a va = Some c \<Longrightarrow> c \<in> tables n m a"
  by (induction n arbitrary: a) (auto simp: Let_def split: if_splits)

lemma write_leaf:
  assumes "tree n m a" "leaf_table n m a va0 = Some c" "m' = pte_write c (idx 0 va0) e m"
  shows "tree n m' a \<and> tables n m' a = tables n m a \<and> leaf_table n m' a va0 = Some c
    \<and> (\<forall>va. view n m' a va =
          (if \<forall>k \<le> n. idx k va = idx k va0 then (if valid e then Some (leaf 0 e va) else None)
           else view n m a va))"
  using assms(1,2)
proof (induction n arbitrary: a)
  case 0
  then show ?case by (simp add: assms(3) pte_write_def)
next
  case (Suc n)
  let ?i = "idx (Suc n) va0"
  let ?d = "entry_addr (m a ?i)"
  from Suc.prems have e: "is_table (m a ?i)" and c: "leaf_table n m ?d va0 = Some c"
    by (simp_all add: Let_def split: if_splits)
  from Suc.prems e have "tree n m ?d" by simp
  from Suc.IH [OF this c] have ih: "tree n m' ?d" "tables n m' ?d = tables n m ?d"
    "leaf_table n m' ?d va0 = Some c"
    "\<And>va. view n m' ?d va =
        (if \<forall>k \<le> n. idx k va = idx k va0 then (if valid e then Some (leaf 0 e va) else None)
         else view n m ?d va)" by blast+
  have cin: "c \<in> tables n m ?d" by (rule leaf_table_in [OF c])
  have agree: "\<forall>b \<in> tables (Suc n) m a. b \<notin> tables n m ?d \<longrightarrow> m' b = m b"
    using cin by (auto simp: assms(3) pte_write_def)
  have tabs: "tables n m' ?d = tables n m ?d \<union> {}" by (simp add: ih)
  note r = rebuild_child [OF Suc.prems(1) e agree ih(1) tabs]
  have a: "m' a = m a" by (rule r(1)) simp
  have "view (Suc n) m' a va =
      (if \<forall>k \<le> Suc n. idx k va = idx k va0 then (if valid e then Some (leaf 0 e va) else None)
       else view (Suc n) m a va)" for va
  proof (cases "idx (Suc n) va = ?i")
    case True
    have "view (Suc n) m a va = view n m ?d va"
      using e True by (simp add: is_table_def)
    with True r(3) [of va] ih(4) [of va] show ?thesis by (auto simp: le_Suc_eq)
  qed (use r(3) [of va] in auto)
  moreover have "tree (Suc n) m' a" by (rule r(2)) simp
  moreover have "tables (Suc n) m' a = tables (Suc n) m a" using r(4) by simp
  moreover have "leaf_table (Suc n) m' a va0 = Some c" using ih(3) e by (simp add: a)
  ultimately show ?case by blast
qed

section \<open>The walks of the code and the meaning of the tables\<close>

definition in_block :: "ptes \<Rightarrow> u64 \<Rightarrow> u64 \<Rightarrow> bool" where
  "in_block m l0 va \<longleftrightarrow>
     (let l0_entry = m l0 (l0_idx va); l1_entry = m (entry_addr l0_entry) (l1_idx va);
          l2_entry = m (entry_addr l1_entry) (l2_idx va)
      in valid l0_entry \<and> valid l1_entry \<and> valid l2_entry \<and> \<not> table l2_entry)"

lemma tree_upper:
  assumes "tree 3 m l0"
  shows "valid (m l0 i) \<Longrightarrow> table (m l0 i)"
    and "valid (m l0 i) \<Longrightarrow> valid (m (entry_addr (m l0 i)) j) \<Longrightarrow> table (m (entry_addr (m l0 i)) j)"
  using assms by (auto simp: numeral_3_eq_3 is_table_def)

lemmas levels = numeral_3_eq_3 numeral_2_eq_2

text \<open>The four levels of a walk in a tree, with the tests that can fail.\<close>

lemma view_3:
  fixes va
  assumes "tree 3 m l0"
  defines "e0 \<equiv> m l0 (l0_idx va)" defines "e1 \<equiv> m (entry_addr e0) (l1_idx va)"
  defines "e2 \<equiv> m (entry_addr e1) (l2_idx va)"
  shows "view 3 m l0 va =
    (if \<not> valid e0 \<or> \<not> valid e1 \<or> \<not> valid e2 then None
     else if \<not> table e2 then Some (leaf 1 e2 va) else view 0 m (entry_addr e2) va)"
    and "leaf_table 3 m l0 va =
    (if \<not> valid e0 \<or> \<not> valid e1 \<or> \<not> valid e2 \<or> \<not> table e2 then None else Some (entry_addr e2))"
    and "valid e0 \<Longrightarrow> table e0" and "valid e0 \<Longrightarrow> valid e1 \<Longrightarrow> table e1"
proof -
  show u0: "table e0" if "valid e0" using tree_upper(1) [OF assms(1)] that by (simp add: e0_def)
  show u1: "table e1" if "valid e0" "valid e1"
    using tree_upper(2) [OF assms(1)] that by (simp add: e0_def e1_def)
  show "view 3 m l0 va =
    (if \<not> valid e0 \<or> \<not> valid e1 \<or> \<not> valid e2 then None
     else if \<not> table e2 then Some (leaf 1 e2 va) else view 0 m (entry_addr e2) va)"
    using u0 u1 unfolding e2_def e1_def e0_def idx_levels levels One_nat_def view.simps Let_def
    by simp
  show "leaf_table 3 m l0 va =
    (if \<not> valid e0 \<or> \<not> valid e1 \<or> \<not> valid e2 \<or> \<not> table e2 then None else Some (entry_addr e2))"
    using u0 u1 unfolding e2_def e1_def e0_def idx_levels levels One_nat_def leaf_table.simps Let_def is_table_def
    by simp
qed

lemma translate_view:
  assumes "tree 3 m l0"
  shows "translate_user_va m l0 va = map_option fst (view 3 m l0 va)"
proof -
  have l2: "fst (leaf 1 e va) = (e AND 0x0000FFFFFFE00000) OR (va AND 0x1FFFFF)"
    and l3: "fst (leaf 0 e va) = entry_addr e OR (va AND 0xFFF)" for e
    by (simp_all add: leaf_def entry_addr_def and.assoc mask_eq_exp_minus_1)
  show ?thesis
    using view_3(3,4) [OF assms, of va]
    unfolding view_3(1) [OF assms] translate_user_va_def Let_def view.simps
    by (simp add: l2 [unfolded One_nat_def] l3 idx_levels)
qed

lemma mapped_view:
  assumes "tree 3 m l0"
  shows "is_page_mapped_ptr m l0 va \<longleftrightarrow> view 3 m l0 va \<noteq> None"
  using view_3(3,4) [OF assms, of va]
  unfolding view_3(1) [OF assms] is_page_mapped_ptr_def Let_def view.simps by (simp add: idx_levels)

lemma l3_ptr_leaf:
  assumes "tree 3 m l0" "\<not> in_block m l0 va"
  shows "l3_ptr m l0 va = leaf_table 3 m l0 va"
  using assms(2) unfolding view_3(2) [OF assms(1)] in_block_def l3_ptr_def Let_def by simp

lemma no_leaf_no_view:
  assumes "tree 3 m l0" "\<not> in_block m l0 va" "leaf_table 3 m l0 va = None"
  shows "view 3 m l0 va = None"
  using assms(2,3) unfolding view_3(1,2) [OF assms(1)] in_block_def Let_def by (auto split: if_splits)

lemma leaf_view:
  assumes "leaf_table n m a va = Some c"
  shows "view n m a va = (let e = m c (idx 0 va) in if valid e then Some (leaf 0 e va) else None)"
  using assms by (induction n arbitrary: a) (auto simp: Let_def is_table_def split: if_splits)

end
