(* ===== verification/Mmu_Space.thy ===== *)
theory Mmu_Space
  imports Mmu_Tables Ordered_Map
begin

text \<open>
  User address spaces, \<open>UserAddressSpace\<close> and the free functions around it in
  \<open>crates/akuma-exec/src/mmu/mod.rs\<close>: creating tables on the way down, mapping, unmapping,
  eviction and permission changes. The crate reaches the frame allocator through function
  pointers, so the allocator is an argument; what the operations rely on is the locale
  \<open>frame_source\<close>. Maintenance of the translation caches is not modelled: the properties speak of
  the tables in memory.
\<close>

section \<open>State\<close>

record user_address_space =
  l0_frame :: u64
  page_table_frames :: "u64 list"
  user_frames :: "(u64 \<times> u32) list"
  asid :: nat
  shared :: bool

text \<open>The memory that holds the tables and the allocator behind \<open>runtime()\<close>.\<close>

record 'p machine =
  tabs :: ptes
  pool :: 'p

type_synonym 'p alloc = "'p \<Rightarrow> u64 option \<times> 'p"
type_synonym 'p space = "user_address_space \<times> 'p machine"

section \<open>Tables on demand\<close>

text \<open>\<open>alloc_page_zeroed\<close>, and the recording of the frame among the space's page tables.\<close>

definition alloc_zeroed :: "'p alloc \<Rightarrow> 'p machine \<Rightarrow> u64 option \<times> 'p machine" where
  "alloc_zeroed al k =
     (case al (pool k) of
        (None, p) \<Rightarrow> (None, k\<lparr>pool := p\<rparr>)
      | (Some f, p) \<Rightarrow> (Some f, k\<lparr>pool := p, tabs := (tabs k)(f := (\<lambda>_. 0))\<rparr>))"

definition track_page_table_frame :: "u64 \<Rightarrow> user_address_space \<Rightarrow> user_address_space" where
  "track_page_table_frame f s = s\<lparr>page_table_frames := page_table_frames s @ [f]\<rparr>"

definition get_or_create_table ::
    "'p alloc \<Rightarrow> u64 \<Rightarrow> pte_index \<Rightarrow> 'p space \<Rightarrow> (string + u64) \<times> 'p space" where
  "get_or_create_table al tbl i sk =
     (case sk of (s, k) \<Rightarrow>
      let entry = tabs k tbl i in
      if valid entry then
        if \<not> table entry then
          (case alloc_zeroed al k of
             (None, k1) \<Rightarrow> (Inl ''Out of memory for page table'', s, k1)
           | (Some f, k1) \<Rightarrow>
               (Inr f, track_page_table_frame f s,
                k1\<lparr>tabs := pte_write tbl i (f OR VALID OR TABLE)
                            (shatter_block_to_pages f entry (tabs k1))\<rparr>))
        else (Inr (entry_addr entry), s, k)
      else
        (case alloc_zeroed al k of
           (None, k1) \<Rightarrow> (Inl ''Out of memory for page table'', s, k1)
         | (Some f, k1) \<Rightarrow>
             (Inr f, track_page_table_frame f s,
              k1\<lparr>tabs := pte_write tbl i (f OR VALID OR TABLE) (tabs k1)\<rparr>)))"

text \<open>The first two and the first three levels of the walk that creates what is missing.\<close>

definition create_l2 :: "'p alloc \<Rightarrow> u64 \<Rightarrow> 'p space \<Rightarrow> (string + u64) \<times> 'p space" where
  "create_l2 al va sk =
     (case get_or_create_table al (l0_frame (fst sk)) (l0_idx va) sk of
        (Inl e, sk1) \<Rightarrow> (Inl e, sk1)
      | (Inr l1, sk1) \<Rightarrow> get_or_create_table al l1 (l1_idx va) sk1)"

definition create_l3 :: "'p alloc \<Rightarrow> u64 \<Rightarrow> 'p space \<Rightarrow> (string + u64) \<times> 'p space" where
  "create_l3 al va sk =
     (case create_l2 al va sk of
        (Inl e, sk1) \<Rightarrow> (Inl e, sk1)
      | (Inr l2, sk1) \<Rightarrow> get_or_create_table al l2 (l2_idx va) sk1)"

definition page_entry :: "u64 \<Rightarrow> u64 \<Rightarrow> u64" where
  "page_entry pa uf = pa OR VALID OR TABLE OR AF OR NG OR attr_index MAIR_NORMAL_WB OR SH_INNER OR uf"

definition write_entry :: "u64 \<Rightarrow> pte_index \<Rightarrow> u64 \<Rightarrow> 'p space \<Rightarrow> 'p space" where
  "write_entry tbl i e sk = (fst sk, (snd sk)\<lparr>tabs := pte_write tbl i e (tabs (snd sk))\<rparr>)"

definition map_page :: "'p alloc \<Rightarrow> u64 \<Rightarrow> u64 \<Rightarrow> u64 \<Rightarrow> 'p space \<Rightarrow> (string + unit) \<times> 'p space" where
  "map_page al va pa uf sk =
     (if va AND 0xFFF \<noteq> 0 \<or> pa AND 0xFFF \<noteq> 0 then (Inl ''Addresses must be page-aligned'', sk)
      else case create_l3 al va sk of
             (Inl e, sk1) \<Rightarrow> (Inl e, sk1)
           | (Inr l3, sk1) \<Rightarrow> (Inr (), write_entry l3 (l3_idx va) (page_entry pa uf) sk1))"

definition map_device_page :: "'p alloc \<Rightarrow> u64 \<Rightarrow> u64 \<Rightarrow> 'p space \<Rightarrow> (string + unit) \<times> 'p space" where
  "map_device_page al va pa sk =
     (if va AND 0xFFF \<noteq> 0 \<or> pa AND 0xFFF \<noteq> 0 then (Inl ''Addresses must be page-aligned'', sk)
      else case create_l3 al va sk of
             (Inl e, sk1) \<Rightarrow> (Inl e, sk1)
           | (Inr l3, sk1) \<Rightarrow>
               (Inr (), write_entry l3 (l3_idx va)
                  (pa OR VALID OR TABLE OR AF OR NG OR attr_index MAIR_DEVICE_NGNRNE OR SH_OUTER OR PXN OR UXN)
                  sk1))"

fun map_range_from :: "'p alloc \<Rightarrow> u64 \<Rightarrow> u64 \<Rightarrow> u64 \<Rightarrow> nat list \<Rightarrow> 'p space \<Rightarrow> (string + unit) \<times> 'p space" where
  "map_range_from al va_start pa_start uf [] sk = (Inr (), sk)"
| "map_range_from al va_start pa_start uf (i # js) sk =
     (case map_page al (va_start + of_nat i * 4096) (pa_start + of_nat i * 4096) uf sk of
        (Inl e, sk1) \<Rightarrow> (Inl e, sk1)
      | (Inr _, sk1) \<Rightarrow> map_range_from al va_start pa_start uf js sk1)"

definition map_range :: "'p alloc \<Rightarrow> u64 \<Rightarrow> u64 \<Rightarrow> u64 \<Rightarrow> u64 \<Rightarrow> 'p space \<Rightarrow> (string + unit) \<times> 'p space" where
  "map_range al va_start pa_start len uf sk =
     (let pages = unat ((len + 4096 - 1) div 4096)
      in map_range_from al va_start pa_start uf [0..<pages] sk)"

definition map_kernel_block_2mb :: "'p alloc \<Rightarrow> u64 \<Rightarrow> u64 \<Rightarrow> 'p space \<Rightarrow> (string + unit) \<times> 'p space" where
  "map_kernel_block_2mb al va pa sk =
     (if va AND 0x1FFFFF \<noteq> 0 \<or> pa AND 0x1FFFFF \<noteq> 0 then (Inl ''2MB block must be 2MB-aligned'', sk)
      else case create_l2 al va sk of
             (Inl e, sk1) \<Rightarrow> (Inl e, sk1)
           | (Inr l2, sk1) \<Rightarrow>
               (Inr (), write_entry l2 (l2_idx va)
                  (pa OR VALID OR AF OR SH_INNER OR attr_index MAIR_NORMAL_WB OR PXN OR UXN) sk1))"

section \<open>User frames\<close>

definition track_user_frame :: "u64 \<Rightarrow> user_address_space \<Rightarrow> user_address_space" where
  "track_user_frame f s =
     s\<lparr>user_frames := bt_insert f ((case map_of (user_frames s) f of Some c \<Rightarrow> c | None \<Rightarrow> 0) + 1) (user_frames s)\<rparr>"

definition remove_user_frame :: "u64 \<Rightarrow> user_address_space \<Rightarrow> bool \<times> user_address_space" where
  "remove_user_frame f s =
     (case map_of (user_frames s) f of
        Some count \<Rightarrow>
          let count1 = count - 1 in
          if count1 = 0 then (True, s\<lparr>user_frames := bt_remove f (user_frames s)\<rparr>)
          else (False, s\<lparr>user_frames := bt_insert f count1 (user_frames s)\<rparr>)
      | None \<Rightarrow> (False, s))"

definition user_frame_count :: "user_address_space \<Rightarrow> nat" where
  "user_frame_count s = length (user_frames s)"

definition user_frame_total_refs :: "user_address_space \<Rightarrow> nat" where
  "user_frame_total_refs s = sum_list (map (\<lambda>(_, c). unat c) (user_frames s))"

definition page_table_frame_count :: "user_address_space \<Rightarrow> nat" where
  "page_table_frame_count s = length (page_table_frames s)"

definition alloc_and_map :: "'p alloc \<Rightarrow> u64 \<Rightarrow> u64 \<Rightarrow> 'p space \<Rightarrow> (string + u64) \<times> 'p space" where
  "alloc_and_map al va uf sk =
     (case alloc_zeroed al (snd sk) of
        (None, k1) \<Rightarrow> (Inl ''Out of memory for user page'', fst sk, k1)
      | (Some f, k1) \<Rightarrow>
          (case map_page al va f uf (track_user_frame f (fst sk), k1) of
             (Inl e, sk2) \<Rightarrow> (Inl e, sk2)
           | (Inr _, sk2) \<Rightarrow> (Inr f, sk2)))"

section \<open>Unmapping and permissions\<close>

definition is_mapped :: "u64 \<Rightarrow> 'p space \<Rightarrow> bool" where
  "is_mapped va sk = is_page_mapped (tabs (snd sk)) (l0_frame (fst sk)) va"

definition is_range_mapped :: "u64 \<Rightarrow> u64 \<Rightarrow> 'p space \<Rightarrow> bool" where
  "is_range_mapped va_start len sk =
     (if len = 0 then True
      else let start_page = va_start AND NOT 0xFFF;
               end_page = (va_start + len + 4096 - 1) AND NOT 0xFFF;
               num_pages = unat ((end_page - start_page) div 4096)
           in list_all (\<lambda>i. is_page_mapped (tabs (snd sk)) (l0_frame (fst sk)) (start_page + of_nat i * 4096))
                [0..<num_pages])"

definition unmap_page_no_flush :: "u64 \<Rightarrow> 'p space \<Rightarrow> (string + unit) \<times> 'p space" where
  "unmap_page_no_flush va sk =
     (case l3_ptr (tabs (snd sk)) (l0_frame (fst sk)) va of
        None \<Rightarrow> (Inr (), sk)
      | Some l3 \<Rightarrow> (Inr (), write_entry l3 (l3_idx va) 0 sk))"

definition unmap_and_free_page_no_flush :: "u64 \<Rightarrow> 'p space \<Rightarrow> u64 option \<times> 'p space" where
  "unmap_and_free_page_no_flush va sk =
     (case l3_ptr (tabs (snd sk)) (l0_frame (fst sk)) va of
        None \<Rightarrow> (None, sk)
      | Some l3 \<Rightarrow>
          let l3_entry = tabs (snd sk) l3 (l3_idx va) in
          if \<not> valid l3_entry then (None, sk)
          else let sk1 = write_entry l3 (l3_idx va) 0 sk;
                   pa = entry_addr l3_entry;
                   (dropped, s2) = remove_user_frame pa (fst sk1)
               in (if dropped then Some pa else None, s2, snd sk1))"

definition try_evict_ro_page :: "u64 \<Rightarrow> 'p space \<Rightarrow> u64 option \<times> 'p space" where
  "try_evict_ro_page va sk =
     (case l3_ptr (tabs (snd sk)) (l0_frame (fst sk)) va of
        None \<Rightarrow> (None, sk)
      | Some l3 \<Rightarrow>
          let l3_entry = tabs (snd sk) l3 (l3_idx va) in
          if \<not> valid l3_entry then (None, sk)
          else if l3_entry AND AP_RO_ALL \<noteq> AP_RO_ALL then (None, sk)
          else let sk1 = write_entry l3 (l3_idx va) 0 sk;
                   pa = entry_addr l3_entry;
                   (dropped, s2) = remove_user_frame pa (fst sk1)
               in (if dropped then Some pa else None, s2, snd sk1))"

definition zero_mapped_page :: "u64 \<Rightarrow> 'p space \<Rightarrow> bool \<times> 'p space" where
  "zero_mapped_page va sk =
     (case l3_ptr (tabs (snd sk)) (l0_frame (fst sk)) va of
        None \<Rightarrow> (False, sk)
      | Some l3 \<Rightarrow>
          let l3_entry = tabs (snd sk) l3 (l3_idx va) in
          if \<not> valid l3_entry then (False, sk)
          else (True, fst sk, (snd sk)\<lparr>tabs := (tabs (snd sk))(entry_addr l3_entry := (\<lambda>_. 0))\<rparr>))"

definition PERM_MASK :: u64 where
  "PERM_MASK = AP_RO_ALL OR AP_RW_ALL OR UXN OR PXN"

definition update_page_flags_no_flush :: "u64 \<Rightarrow> u64 \<Rightarrow> 'p space \<Rightarrow> (string + unit) \<times> 'p space" where
  "update_page_flags_no_flush va new_flags sk =
     (case l3_ptr (tabs (snd sk)) (l0_frame (fst sk)) va of
        None \<Rightarrow> (Inr (), sk)
      | Some l3 \<Rightarrow>
          let old_entry = tabs (snd sk) l3 (l3_idx va) in
          if \<not> valid old_entry then (Inr (), sk)
          else (Inr (), write_entry l3 (l3_idx va) ((old_entry AND NOT PERM_MASK) OR new_flags) sk))"

definition unmap_page :: "u64 \<Rightarrow> 'p space \<Rightarrow> (string + unit) \<times> 'p space" where
  "unmap_page va sk = unmap_page_no_flush va sk"

definition unmap_and_free_page :: "u64 \<Rightarrow> 'p space \<Rightarrow> u64 option \<times> 'p space" where
  "unmap_and_free_page va sk = unmap_and_free_page_no_flush va sk"

definition update_page_flags :: "u64 \<Rightarrow> u64 \<Rightarrow> 'p space \<Rightarrow> (string + unit) \<times> 'p space" where
  "update_page_flags va new_flags sk =
     (case l3_ptr (tabs (snd sk)) (l0_frame (fst sk)) va of
        None \<Rightarrow> (Inr (), sk)
      | Some l3 \<Rightarrow>
          let old_entry = tabs (snd sk) l3 (l3_idx va) in
          if \<not> valid old_entry then (Inr (), sk)
          else (Inr (), write_entry l3 (l3_idx va) ((old_entry AND NOT PERM_MASK) OR new_flags) sk))"

section \<open>Mapping from the fault handler\<close>

text \<open>
  These functions take the root from the translation register and run with interrupts off on the
  core that owns the tables: the compare-and-exchange of a descriptor just read succeeds. When no
  frame is left, the code carries on with table address 0.
\<close>

definition get_or_create_table_atomic ::
    "'p alloc \<Rightarrow> u64 \<Rightarrow> pte_index \<Rightarrow> 'p machine \<Rightarrow> (u64 \<times> u64 option) \<times> 'p machine" where
  "get_or_create_table_atomic al tbl i k =
     (let entry = tabs k tbl i in
      if valid entry then
        if \<not> table entry then
          (case alloc_zeroed al k of
             (Some f, k1) \<Rightarrow>
               ((f, Some f), k1\<lparr>tabs := pte_write tbl i (f OR VALID OR TABLE)
                                        (shatter_block_to_pages f entry (tabs k1))\<rparr>)
           | (None, k1) \<Rightarrow> ((0, None), k1))
        else ((entry_addr entry, None), k)
      else
        (case alloc_zeroed al k of
           (Some f, k1) \<Rightarrow> ((f, Some f), k1\<lparr>tabs := pte_write tbl i (f OR VALID OR TABLE) (tabs k1)\<rparr>)
         | (None, k1) \<Rightarrow> ((0, None), k1)))"

definition push_table :: "u64 option \<Rightarrow> u64 list \<Rightarrow> u64 list" where
  "push_table fo fs = (case fo of Some f \<Rightarrow> fs @ [f] | None \<Rightarrow> fs)"

definition map_user_page_no_flush ::
    "'p alloc \<Rightarrow> u64 \<Rightarrow> u64 \<Rightarrow> u64 \<Rightarrow> u64 \<Rightarrow> 'p machine \<Rightarrow> (u64 list \<times> bool) \<times> 'p machine" where
  "map_user_page_no_flush al ttbr0 va pa uf k =
     (let l0_addr = ttbr0 AND 0x0000FFFFFFFFF000;
          ((l1_addr, l1_frame), k1) = get_or_create_table_atomic al l0_addr (l0_idx va) k;
          fs1 = push_table l1_frame [];
          ((l2_addr, l2_frame), k2) = get_or_create_table_atomic al l1_addr (l1_idx va) k1;
          fs2 = push_table l2_frame fs1;
          ((l3_addr, l3_frame), k3) = get_or_create_table_atomic al l2_addr (l2_idx va) k2;
          fs3 = push_table l3_frame fs2;
          existing = tabs k3 l3_addr (l3_idx va)
      in if valid existing then ((fs3, False), k3)
         else ((fs3, True), k3\<lparr>tabs := pte_write l3_addr (l3_idx va) (page_entry pa uf) (tabs k3)\<rparr>))"

definition map_user_page ::
    "'p alloc \<Rightarrow> u64 \<Rightarrow> u64 \<Rightarrow> u64 \<Rightarrow> u64 \<Rightarrow> 'p machine \<Rightarrow> (u64 list \<times> bool) \<times> 'p machine" where
  "map_user_page al ttbr0 va pa uf k =
     (let l0_addr = ttbr0 AND 0x0000FFFFFFFFF000;
          ((l1_addr, l1_frame), k1) = get_or_create_table_atomic al l0_addr (l0_idx va) k;
          fs1 = push_table l1_frame [];
          ((l2_addr, l2_frame), k2) = get_or_create_table_atomic al l1_addr (l1_idx va) k1;
          fs2 = push_table l2_frame fs1;
          ((l3_addr, l3_frame), k3) = get_or_create_table_atomic al l2_addr (l2_idx va) k2;
          fs3 = push_table l3_frame fs2;
          existing = tabs k3 l3_addr (l3_idx va)
      in if valid existing then ((fs3, False), k3)
         else ((fs3, True), k3\<lparr>tabs := pte_write l3_addr (l3_idx va) (page_entry pa uf) (tabs k3)\<rparr>))"

text \<open>The walk as a recursion over the levels.\<close>

fun ensure :: "'p alloc \<Rightarrow> nat \<Rightarrow> u64 \<Rightarrow> u64 \<Rightarrow> 'p space \<Rightarrow> (string + u64) \<times> 'p space" where
  "ensure al 0 a va sk = (Inr a, sk)"
| "ensure al (Suc n) a va sk =
     (case get_or_create_table al a (idx (Suc n) va) sk of
        (Inl e, sk1) \<Rightarrow> (Inl e, sk1)
      | (Inr c, sk1) \<Rightarrow> ensure al n c va sk1)"

lemma create_l3_ensure: "create_l3 al va sk = ensure al 3 (l0_frame (fst sk)) va sk"
  by (simp add: create_l3_def create_l2_def idx_levels levels split: sum.split prod.split)

lemma page_entry_leaf:
  assumes "entry_addr pa = pa" "entry_addr uf = 0"
  shows "valid (page_entry pa uf)" "leaf 0 (page_entry pa uf) va = (pa OR (va AND 0xFFF), page_entry pa uf AND ATTR_MASK)"
proof -
  show "valid (page_entry pa uf)" by (simp add: page_entry_def valid_or)
  have "entry_addr AF = 0" "entry_addr NG = 0" "entry_addr (attr_index MAIR_NORMAL_WB) = 0" "entry_addr SH_INNER = 0"
    by (simp_all add: entry_addr_def flag_defs)
  then have "entry_addr (page_entry pa uf) = pa"
    by (simp add: page_entry_def entry_addr_or entry_addr_flags assms)
  then show "leaf 0 (page_entry pa uf) va = (pa OR (va AND 0xFFF), page_entry pa uf AND ATTR_MASK)"
    by (simp add: leaf_def entry_addr_def and.assoc mask_eq_exp_minus_1)
qed

section \<open>What the operations rely on\<close>

text \<open>
  The allocator hands out frames of memory that nothing else uses, page aligned and below the
  48 bits an entry can hold.
\<close>

locale frame_source =
  fixes ok :: "'p \<Rightarrow> bool" and avail :: "'p \<Rightarrow> u64 set" and al :: "'p alloc"
  assumes given: "ok p \<Longrightarrow> al p = (Some f, p') \<Longrightarrow> f \<in> avail p \<and> avail p' = avail p - {f} \<and> ok p'"
    and refused: "ok p \<Longrightarrow> al p = (None, p') \<Longrightarrow> ok p' \<and> avail p' = {} \<and> avail p = {}"
    and aligned: "ok p \<Longrightarrow> f \<in> avail p \<Longrightarrow> entry_addr f = f"
begin

text \<open>A tree of tables none of which the allocator may still hand out.\<close>

definition owned :: "nat \<Rightarrow> u64 \<Rightarrow> 'p machine \<Rightarrow> bool" where
  "owned n a k \<longleftrightarrow> ok (pool k) \<and> tree n (tabs k) a \<and> tables n (tabs k) a \<inter> avail (pool k) = {}"

text \<open>
  A step that adds tables to the tree: it takes exactly the frames in \<open>fs\<close>, changes nothing else
  in memory than the tree, and does not change what any address means.
\<close>

definition grows :: "nat \<Rightarrow> u64 \<Rightarrow> u64 list \<Rightarrow> 'p machine \<Rightarrow> 'p machine \<Rightarrow> bool" where
  "grows n a fs k k' \<longleftrightarrow>
     owned n a k' \<and> distinct fs \<and> set fs \<subseteq> avail (pool k) \<and> avail (pool k') = avail (pool k) - set fs
     \<and> tables n (tabs k') a = tables n (tabs k) a \<union> set fs
     \<and> (\<forall>b. b \<notin> tables n (tabs k) a \<union> set fs \<longrightarrow> tabs k' b = tabs k b)
     \<and> (\<forall>va. view n (tabs k') a va = view n (tabs k) a va)"

lemma grows_refl: "owned n a k \<Longrightarrow> grows n a [] k k"
  by (simp add: grows_def)

lemma grows_trans:
  assumes "grows n a fs k k1" "grows n a gs k1 k2"
  shows "grows n a (fs @ gs) k k2"
  using assms unfolding grows_def by auto

lemma owned_child: "owned (Suc n) a k \<Longrightarrow> is_table (tabs k a i) \<Longrightarrow> owned n (entry_addr (tabs k a i)) k"
  unfolding owned_def by auto

lemma grows_child:
  assumes o: "owned (Suc n) a k" and e: "is_table (tabs k a i)"
    and g: "grows n (entry_addr (tabs k a i)) fs k k'"
  shows "grows (Suc n) a fs k k'" "tabs k' a = tabs k a"
proof -
  let ?c = "entry_addr (tabs k a i)"
  have t: "tree (Suc n) (tabs k) a" and free: "tables (Suc n) (tabs k) a \<inter> avail (pool k) = {}"
    using o by (auto simp: owned_def)
  have fs: "set fs \<subseteq> avail (pool k)" and tabs: "tables n (tabs k') ?c = tables n (tabs k) ?c \<union> set fs"
    and sub: "tree n (tabs k') ?c" and out: "\<forall>b. b \<notin> tables n (tabs k) ?c \<union> set fs \<longrightarrow> tabs k' b = tabs k b"
    and vw: "\<And>va. view n (tabs k') ?c va = view n (tabs k) ?c va"
    using g by (auto simp: grows_def owned_def)
  have X: "set fs \<inter> tables (Suc n) (tabs k) a = {}" using fs free by blast
  have agree: "\<forall>b \<in> tables (Suc n) (tabs k) a. b \<notin> tables n (tabs k) ?c \<longrightarrow> tabs k' b = tabs k b"
    using out X by blast
  note r = rebuild_child [OF t e agree sub tabs X]
  show "tabs k' a = tabs k a" by (rule r(1))
  have v: "view (Suc n) (tabs k') a va = view (Suc n) (tabs k) a va" for va
    using r(3) [of va] vw e by (simp add: is_table_def)
  have "tables n (tabs k) ?c \<subseteq> tables (Suc n) (tabs k) a" by (rule tables_child [of "tabs k" a i, OF e])
  then show "grows (Suc n) a fs k k'"
    using g r(2,4) v out X free unfolding grows_def owned_def by blast
qed

lemma get_or_create_table_grows:
  assumes o: "owned (Suc n) a k" and g: "get_or_create_table al a i (s, k) = (r, s', k')"
  shows "\<exists>fs. grows (Suc n) a fs k k' \<and> s' = s\<lparr>page_table_frames := page_table_frames s @ fs\<rparr>
    \<and> length fs \<le> 1 \<and> (\<forall>e. r = Inl e \<longrightarrow> avail (pool k') = {} \<and> fs = [])
    \<and> (\<forall>c. r = Inr c \<longrightarrow> is_table (tabs k' a i) \<and> entry_addr (tabs k' a i) = c)"
proof -
  let ?e = "tabs k a i"
  have t: "tree (Suc n) (tabs k) a" and free: "tables (Suc n) (tabs k) a \<inter> avail (pool k) = {}"
    and okp: "ok (pool k)" using o by (auto simp: owned_def)
  consider "is_table ?e" | "\<not> is_table ?e" by blast
  then show ?thesis
  proof cases
    case 1
    with g have "r = Inr (entry_addr ?e)" "s' = s" "k' = k"
      by (auto simp: get_or_create_table_def is_table_def Let_def)
    with 1 grows_refl [OF o] show ?thesis by (intro exI [of _ "[]"]) simp
  next
    case 2
    define c where "c = (if valid ?e then (shatter_block_to_pages 0 ?e (tabs k)) 0 else (\<lambda>_. 0))"
    show ?thesis
    proof (cases "al (pool k)")
      case (Pair fo p)
      show ?thesis
      proof (cases fo)
        case None
        with Pair refused [OF okp] have p: "ok p" "avail p = {}" "avail (pool k) = {}" by auto
        from g 2 Pair None have r: "r = Inl ''Out of memory for page table''" "s' = s" "k' = k\<lparr>pool := p\<rparr>"
          by (auto simp: get_or_create_table_def is_table_def Let_def alloc_zeroed_def split: if_splits)
        have "grows (Suc n) a [] k k'" using o p by (simp add: grows_def owned_def r)
        with r p show ?thesis by (intro exI [of _ "[]"]) simp
      next
        case (Some f)
        with Pair given [OF okp] have f: "f \<in> avail (pool k)" "avail p = avail (pool k) - {f}" "ok p" by auto
        from g 2 Pair Some have r: "r = Inr f" "s' = s\<lparr>page_table_frames := page_table_frames s @ [f]\<rparr>"
          and k': "k' = k\<lparr>pool := p, tabs := pte_write a i (table_entry f) ((tabs k)(f := c))\<rparr>"
          by (auto simp: get_or_create_table_def is_table_def Let_def alloc_zeroed_def c_def
              track_page_table_frame_def shatter_block_to_pages_def split: if_splits)
        have nf: "f \<notin> tables (Suc n) (tabs k) a" using f free by blast
        then have fa: "f \<noteq> a" by auto
        have m'f: "tabs k' f = c" using fa by (simp add: k' pte_write_def)
        have n0: "n = 0" if "valid ?e" using t 2 that by (auto simp: is_table_def)
        have sub: "tree n (tabs k') f" "tables n (tabs k') f = {f}"
          using n0 blank_table [of "tabs k'" f n] m'f by (cases "valid ?e"; simp add: c_def)+
        have tk': "tabs k' = pte_write a i (table_entry f) ((tabs k)(f := c))" by (simp add: k')
        note h = hang_table [OF t 2 nf aligned [OF okp f(1)] tk' sub]
        have "view (Suc n) (tabs k') a va = view (Suc n) (tabs k) a va" for va
        proof (cases "idx (Suc n) va = i")
          case True
          have "view n (tabs k') f va = view (Suc n) (tabs k) a va"
          proof (cases "valid ?e")
            case v: True
            with n0 have n: "n = 0" by simp
            have "c j = ((?e AND 0x0000FFFFFFE00000) + push_bit 12 (ucast j)) OR (?e AND ATTR_MASK) OR VALID OR TABLE" for j
              using v by (simp add: c_def shatter_block_to_pages_def)
            then show ?thesis using v 2 True shattered_page [of ?e va]
              by (simp add: n m'f is_table_def Let_def valid_or)
          qed (use blank_table(3) [of "tabs k'" f n va] m'f True in \<open>simp add: c_def\<close>)
          with True h(4) [of va] show ?thesis by simp
        qed (use h(4) [of va] in simp)
        moreover have "tabs k' b = tabs k b" if "b \<notin> tables (Suc n) (tabs k) a \<union> {f}" for b
          using that by (auto simp: k' pte_write_def)
        ultimately have "grows (Suc n) a [f] k k'"
          using f h(3,5) free unfolding grows_def owned_def by (auto simp: k')
        with r h(1,2) show ?thesis by (intro exI [of _ "[f]"]) simp
      qed
    qed
  qed
qed

lemma ensure_grows:
  assumes "owned n a k" "ensure al n a va (s, k) = (r, s', k')"
  shows "\<exists>fs. grows n a fs k k' \<and> s' = s\<lparr>page_table_frames := page_table_frames s @ fs\<rparr>
    \<and> length fs \<le> n
    \<and> (\<forall>e. r = Inl e \<longrightarrow> avail (pool k') = {} \<and> length fs < n)
    \<and> (\<forall>c. r = Inr c \<longrightarrow> leaf_table n (tabs k') a va = Some c)"
  using assms
proof (induction n arbitrary: a s k)
  case 0
  then have "r = Inr a" "s' = s" "k' = k" by auto
  with 0 show ?case by (intro exI [of _ "[]"]) (simp add: grows_refl)
next
  case (Suc n)
  let ?i = "idx (Suc n) va"
  obtain r1 s1 k1 where g: "get_or_create_table al a ?i (s, k) = (r1, s1, k1)"
    by (cases "get_or_create_table al a ?i (s, k)") auto
  from get_or_create_table_grows [OF Suc.prems(1) g] obtain fs where
    fs: "grows (Suc n) a fs k k1" "s1 = s\<lparr>page_table_frames := page_table_frames s @ fs\<rparr>" "length fs \<le> 1"
    and l: "\<And>e. r1 = Inl e \<Longrightarrow> avail (pool k1) = {} \<and> fs = []"
    and c: "\<And>c. r1 = Inr c \<Longrightarrow> is_table (tabs k1 a ?i) \<and> entry_addr (tabs k1 a ?i) = c"
    by blast
  show ?case
  proof (cases r1)
    case (Inl e)
    with Suc.prems(2) g have "r = Inl e" "s' = s1" "k' = k1" by simp_all
    with fs l [OF Inl] show ?thesis by (intro exI [of _ "[]"]) simp
  next
    case (Inr d)
    with c have e: "is_table (tabs k1 a ?i)" and d: "d = entry_addr (tabs k1 a ?i)" by auto
    from fs have o1: "owned (Suc n) a k1" by (simp add: grows_def)
    have "ensure al n d va (s1, k1) = (r, s', k')" using Suc.prems(2) g Inr by simp
    from Suc.IH [OF owned_child [OF o1 e, folded d] this] obtain gs where
      gs: "grows n d gs k1 k'" "s' = s1\<lparr>page_table_frames := page_table_frames s1 @ gs\<rparr>" "length gs \<le> n"
      "\<And>e. r = Inl e \<Longrightarrow> avail (pool k') = {} \<and> length gs < n"
      "\<And>c. r = Inr c \<Longrightarrow> leaf_table n (tabs k') d va = Some c" by blast
    note gc = grows_child [OF o1 e gs(1) [unfolded d]]
    have "grows (Suc n) a (fs @ gs) k k'" by (rule grows_trans [OF fs(1) gc(1)])
    moreover have "leaf_table (Suc n) (tabs k') a va = Some c" if "r = Inr c" for c
      using gs(5) [OF that] e by (simp add: gc(2) d)
    moreover have "length (fs @ gs) < Suc n" if "r = Inl e" for e
      using gs(4) [OF that] fs(3) by simp
    ultimately show ?thesis using fs(2,3) gs(2,3,4) by (intro exI [of _ "fs @ gs"]) auto
  qed
qed

text \<open>
  Mapping a page in a tree the allocator does not touch. Either there is an error and every
  address means what it meant, or the page of the address means the frame and permissions given
  and every other address means what it meant.
\<close>

lemma map_page_view:
  assumes o: "owned 3 (l0_frame s) k" and pa: "entry_addr pa = pa" and uf: "entry_addr uf = 0"
    and mp: "map_page al va pa uf (s, k) = (r, s', k')"
  shows "\<exists>fs. s' = s\<lparr>page_table_frames := page_table_frames s @ fs\<rparr>
    \<and> owned 3 (l0_frame s) k'
    \<and> distinct fs \<and> set fs \<subseteq> avail (pool k) \<and> avail (pool k') = avail (pool k) - set fs
    \<and> tables 3 (tabs k') (l0_frame s) = tables 3 (tabs k) (l0_frame s) \<union> set fs
    \<and> (\<forall>b. b \<notin> tables 3 (tabs k) (l0_frame s) \<union> set fs \<longrightarrow> tabs k' b = tabs k b)
    \<and> (\<forall>e. r = Inl e \<longrightarrow> va AND 0xFFF \<noteq> 0 \<or> card (avail (pool k)) < 3)
    \<and> (\<forall>va'. view 3 (tabs k') (l0_frame s) va' =
          (if r = Inr () \<and> entry_addr va' = entry_addr va
           then Some (pa OR (va' AND 0xFFF), page_entry pa uf AND ATTR_MASK)
           else view 3 (tabs k) (l0_frame s) va'))"
proof (cases "va AND 0xFFF \<noteq> 0 \<or> pa AND 0xFFF \<noteq> 0")
  case True
  have "pa AND 0xFFF = 0"
    using arg_cong [OF pa, of "\<lambda>x. x AND 0xFFF"] by (simp add: entry_addr_def and.assoc)
  with True have "va AND 0xFFF \<noteq> 0" by simp
  moreover from True mp have "r = Inl ''Addresses must be page-aligned''" "s' = s" "k' = k"
    by (auto simp: map_page_def)
  ultimately show ?thesis using grows_refl [OF o] by (intro exI [of _ "[]"]) (simp add: grows_def)
next
  case False
  let ?l0 = "l0_frame s"
  obtain r1 s1 k1 where c: "create_l3 al va (s, k) = (r1, s1, k1)" by (cases "create_l3 al va (s, k)") auto
  then have "ensure al 3 ?l0 va (s, k) = (r1, s1, k1)" by (simp add: create_l3_ensure)
  from ensure_grows [OF o this] obtain fs where
    fs: "grows 3 ?l0 fs k k1" "s1 = s\<lparr>page_table_frames := page_table_frames s @ fs\<rparr>"
    and l: "\<And>e. r1 = Inl e \<Longrightarrow> avail (pool k1) = {} \<and> length fs < 3"
    and d: "\<And>c. r1 = Inr c \<Longrightarrow> leaf_table 3 (tabs k1) ?l0 va = Some c" by blast
  show ?thesis
  proof (cases r1)
    case (Inl e)
    with mp c False have r: "r = Inl e" "s' = s1" "k' = k1" by (simp_all add: map_page_def)
    have "avail (pool k) = set fs" using fs(1) l [OF Inl] by (auto simp: grows_def)
    with l [OF Inl] fs(1) have "card (avail (pool k)) < 3" by (simp add: grows_def distinct_card)
    with fs r show ?thesis by (intro exI [of _ fs]) (simp add: grows_def)
  next
    case (Inr l3)
    let ?e = "page_entry pa uf"
    from mp c False Inr have r: "r = Inr ()" "s' = s1"
      and k': "k' = k1\<lparr>tabs := pte_write l3 (idx 0 va) ?e (tabs k1)\<rparr>"
      by (simp_all add: map_page_def write_entry_def idx_levels)
    from fs have t1: "tree 3 (tabs k1) ?l0" by (simp add: grows_def owned_def)
    have "tabs k' = pte_write l3 (idx 0 va) ?e (tabs k1)" by (simp add: k')
    from write_leaf [OF t1 d [OF Inr] this] have
      w: "tree 3 (tabs k') ?l0" "tables 3 (tabs k') ?l0 = tables 3 (tabs k1) ?l0"
      and v: "\<And>va'. view 3 (tabs k') ?l0 va' = (if \<forall>i \<le> 3. idx i va' = idx i va
          then (if valid ?e then Some (leaf 0 ?e va') else None) else view 3 (tabs k1) ?l0 va')"
      by blast+
    have "view 3 (tabs k') ?l0 va' = (if entry_addr va' = entry_addr va
        then Some (pa OR (va' AND 0xFFF), ?e AND ATTR_MASK) else view 3 (tabs k) ?l0 va')" for va'
      using v [of va'] fs(1) page_entry_leaf [OF pa uf] unfolding same_page_iff by (simp add: grows_def)
    moreover have "l3 \<in> tables 3 (tabs k1) ?l0" by (rule leaf_table_in [OF d [OF Inr]])
    then have "tabs k' b = tabs k b" if "b \<notin> tables 3 (tabs k) ?l0 \<union> set fs" for b
      using fs(1) that by (auto simp: grows_def k' pte_write_def)
    moreover have "owned 3 ?l0 k'"
    proof -
      have "owned 3 ?l0 k1" using fs(1) unfolding grows_def by blast
      then show ?thesis using w unfolding owned_def w(2) by (simp add: k')
    qed
    moreover have "avail (pool k') = avail (pool k) - set fs" using fs(1) by (simp add: grows_def k')
    ultimately show ?thesis
      using fs w r by (intro exI [of _ fs]) (simp add: grows_def)
  qed
qed

end

end
