(* ===== verification/Mmu_Proofs.thy ===== *)
theory Mmu_Proofs
  imports Mmu_Space
begin

text \<open>
  The operations that change one descriptor of an existing last-level table, the physical memory
  manager as the source of page-table frames, and the invariant of an address space under any
  sequence of operations.
\<close>

section \<open>Clearing and changing a page's descriptor\<close>

lemma view_leaf_write:
  fixes e
  assumes t: "tree 3 m l0" and c: "leaf_table 3 m l0 va = Some c"
  defines "m' \<equiv> pte_write c (idx 0 va) e m"
  shows "tree 3 m' l0" "tables 3 m' l0 = tables 3 m l0"
    and "view 3 m' l0 va' =
      (if entry_addr va' = entry_addr va then (if valid e then Some (leaf 0 e va') else None)
       else view 3 m l0 va')"
  using write_leaf [OF t c m'_def [THEN meta_eq_to_obj_eq]] unfolding same_page_iff by blast+

lemma view_same_page:
  assumes "leaf_table 3 m l0 va = Some c" "entry_addr va' = entry_addr va"
  shows "view 3 m l0 va' = (let e = m c (idx 0 va) in if valid e then Some (leaf 0 e va') else None)"
proof -
  have i: "idx k va' = idx k va" if "k \<le> 3" for k
    using assms(2) that unfolding same_page_iff [symmetric] by blast
  have "leaf_table n m a va' = leaf_table n m a va" if "n \<le> 3" for n a
    using that by (induction n arbitrary: a) (simp_all add: i Let_def)
  with leaf_view [of 3 m l0 va' c] assms(1) i [of 0] show ?thesis by simp
qed

text \<open>What a change of permissions does to a descriptor.\<close>

lemma update_entry:
  assumes "valid e" "nf AND PERM_MASK = nf"
  shows "valid ((e AND NOT PERM_MASK) OR nf)"
    and "leaf 0 ((e AND NOT PERM_MASK) OR nf) va =
      (fst (leaf 0 e va), (snd (leaf 0 e va) AND NOT PERM_MASK) OR nf)"
proof -
  have v: "valid (e AND NOT PERM_MASK) = valid e"
    by (simp add: valid_def VALID_def PERM_MASK_def flag_defs and.assoc)
  with assms(1) show "valid ((e AND NOT PERM_MASK) OR nf)" by (simp add: valid_or)
  have pm: "PERM_MASK AND ADDR_MASK = 0" "PERM_MASK AND ATTR_MASK = PERM_MASK"
    "NOT PERM_MASK AND ADDR_MASK = ADDR_MASK"
    by (simp_all add: PERM_MASK_def flag_defs)
  have nf: "nf AND x = nf AND (PERM_MASK AND x)" for x
    using assms(2) by (simp flip: and.assoc)
  have nf: "nf AND ADDR_MASK = 0" "nf AND ATTR_MASK = nf"
    using nf [of ADDR_MASK] nf [of ATTR_MASK] assms(2) by (simp_all only: pm and_zero_eq)
  have "((e AND NOT PERM_MASK) OR nf) AND ADDR_MASK = e AND ADDR_MASK"
    unfolding bit.conj_disj_distrib2 nf by (simp add: and.assoc pm)
  moreover have "((e AND NOT PERM_MASK) OR nf) AND ATTR_MASK = ((e AND ATTR_MASK) AND NOT PERM_MASK) OR nf"
    unfolding bit.conj_disj_distrib2 nf by (simp add: ac_simps)
  ultimately show "leaf 0 ((e AND NOT PERM_MASK) OR nf) va =
      (fst (leaf 0 e va), (snd (leaf 0 e va) AND NOT PERM_MASK) OR nf)"
    by (simp add: leaf_def flip: and.assoc)
qed

text \<open>Addresses of one page take the same path.\<close>

lemma idx_same:
  assumes "entry_addr va' = entry_addr va"
  shows "l0_idx va' = l0_idx va" "l1_idx va' = l1_idx va" "l2_idx va' = l2_idx va" "l3_idx va' = l3_idx va"
  using assms unfolding same_page_iff [symmetric] idx_levels by simp_all

lemma unmapped_page:
  assumes "tree 3 m l0" "\<not> in_block m l0 va" "l3_ptr m l0 va = None" "entry_addr va' = entry_addr va"
  shows "view 3 m l0 va' = None"
proof -
  have "\<not> in_block m l0 va'" "l3_ptr m l0 va' = None"
    using assms(2,3) unfolding in_block_def l3_ptr_def idx_same [OF assms(4)] .
  with no_leaf_no_view [OF assms(1)] l3_ptr_leaf [OF assms(1)] show ?thesis by simp
qed

text \<open>
  At most the meaning of one page changes: the tables stay the same tree, no frame is taken, and
  the addresses of the page mean what \<open>g\<close> makes of them.
\<close>

definition page_change ::
    "u64 \<Rightarrow> u64 \<Rightarrow> ((u64 \<times> u64) option \<Rightarrow> (u64 \<times> u64) option) \<Rightarrow> 'p machine \<Rightarrow> 'p machine \<Rightarrow> bool" where
  "page_change l0 va g k k' \<longleftrightarrow>
     pool k' = pool k \<and> tree 3 (tabs k') l0 \<and> tables 3 (tabs k') l0 = tables 3 (tabs k) l0
     \<and> (\<forall>va'. view 3 (tabs k') l0 va' =
          (if entry_addr va' = entry_addr va then g (view 3 (tabs k) l0 va') else view 3 (tabs k) l0 va'))"

lemma page_change_none:
  assumes "tree 3 (tabs k) l0" "\<not> in_block (tabs k) l0 va" "l3_ptr (tabs k) l0 va = None" "g None = None"
  shows "page_change l0 va g k k"
  using assms(1,4) unmapped_page [OF assms(1-3)] by (auto simp: page_change_def)

lemma page_change_write:
  assumes t: "tree 3 (tabs k) l0" and c: "leaf_table 3 (tabs k) l0 va = Some c"
    and k': "k' = k\<lparr>tabs := pte_write c (idx 0 va) e (tabs k)\<rparr>"
    and g: "\<And>va'. g (let e = tabs k c (idx 0 va) in if valid e then Some (leaf 0 e va') else None)
              = (if valid e then Some (leaf 0 e va') else None)"
  shows "page_change l0 va g k k'"
  using view_leaf_write [OF t c, of e] view_same_page [OF c] g by (auto simp: page_change_def k')

lemma page_change_invalid:
  assumes t: "tree 3 (tabs k) l0" and c: "leaf_table 3 (tabs k) l0 va = Some c"
    and e: "\<not> valid (tabs k c (idx 0 va))" and g: "g None = None"
  shows "page_change l0 va g k k"
  using t g view_same_page [OF c] e by (auto simp: page_change_def)

section \<open>Unmapping\<close>

lemma unmap_view:
  assumes t: "tree 3 (tabs k) (l0_frame s)" and nb: "\<not> in_block (tabs k) (l0_frame s) va"
    and u: "unmap_page_no_flush va (s, k) = (r, s', k')"
  shows "r = Inr ()" "s' = s" "page_change (l0_frame s) va (\<lambda>_. None) k k'"
proof -
  show "r = Inr ()" "s' = s"
    using u by (auto simp: unmap_page_no_flush_def write_entry_def split: option.splits)
  show "page_change (l0_frame s) va (\<lambda>_. None) k k'"
  proof (cases "l3_ptr (tabs k) (l0_frame s) va")
    case None
    with u have "k' = k" by (auto simp: unmap_page_no_flush_def)
    with page_change_none [OF t nb None] show ?thesis by simp
  next
    case (Some c)
    with u have k': "k' = k\<lparr>tabs := pte_write c (idx 0 va) 0 (tabs k)\<rparr>"
      by (auto simp: unmap_page_no_flush_def write_entry_def idx_levels)
    have c: "leaf_table 3 (tabs k) (l0_frame s) va = Some c" using Some l3_ptr_leaf [OF t nb] by simp
    show ?thesis by (rule page_change_write [OF t c k']) simp
  qed
qed

text \<open>
  Unmapping with release, as \<open>munmap\<close> and eviction use it: when the page was mapped, its frame
  loses one of its counted mappings, and the frame is returned exactly when that was the last.
\<close>

definition released :: "u64 option \<Rightarrow> user_address_space \<Rightarrow> user_address_space \<Rightarrow> u64 \<Rightarrow> bool" where
  "released r s s' pa \<longleftrightarrow>
     s'\<lparr>user_frames := user_frames s\<rparr> = s
     \<and> (case map_of (user_frames s) pa of
          None \<Rightarrow> r = None \<and> user_frames s' = user_frames s
        | Some n \<Rightarrow> r = (if n = 1 then Some pa else None)
            \<and> map_of (user_frames s') = (map_of (user_frames s))(pa := if n = 1 then None else Some (n - 1)))"

lemma remove_user_frame_released:
  "remove_user_frame pa s = (b, s') \<Longrightarrow> released (if b then Some pa else None) s s' pa"
  by (auto simp: remove_user_frame_def released_def Let_def split: option.splits if_splits)

lemma leaf_page_addr: "fst (leaf 0 e (entry_addr va)) = entry_addr e"
  by (simp add: leaf_def entry_addr_def and.assoc mask_eq_exp_minus_1)

lemma unmap_and_free_view:
  assumes t: "tree 3 (tabs k) (l0_frame s)" and nb: "\<not> in_block (tabs k) (l0_frame s) va"
    and u: "unmap_and_free_page_no_flush va (s, k) = (r, s', k')"
  shows "page_change (l0_frame s) va (\<lambda>_. None) k k'"
    and "case view 3 (tabs k) (l0_frame s) (entry_addr va) of
       None \<Rightarrow> r = None \<and> s' = s
     | Some (pa, _) \<Rightarrow> released r s s' pa"
proof -
  have "page_change (l0_frame s) va (\<lambda>_. None) k k' \<and>
    (case view 3 (tabs k) (l0_frame s) (entry_addr va) of
       None \<Rightarrow> r = None \<and> s' = s
     | Some (pa, _) \<Rightarrow> released r s s' pa)"
  proof (cases "l3_ptr (tabs k) (l0_frame s) va")
    case None
    with u have "r = None" "s' = s" "k' = k" by (auto simp: unmap_and_free_page_no_flush_def)
    with page_change_none [OF t nb None] unmapped_page [OF t nb None] show ?thesis by simp
  next
    case (Some c)
    let ?e = "tabs k c (idx 0 va)"
    have c: "leaf_table 3 (tabs k) (l0_frame s) va = Some c" using Some l3_ptr_leaf [OF t nb] by simp
    have v: "view 3 (tabs k) (l0_frame s) (entry_addr va)
        = (if valid ?e then Some (leaf 0 ?e (entry_addr va)) else None)"
      using view_same_page [OF c, of "entry_addr va"] by (simp add: Let_def)
    show ?thesis
    proof (cases "valid ?e")
      case False
      with u Some have "r = None" "s' = s" "k' = k"
        by (auto simp: unmap_and_free_page_no_flush_def Let_def idx_levels)
      with page_change_invalid [OF t c False] v False show ?thesis by simp
    next
      case True
      obtain b s2 where rm: "remove_user_frame (entry_addr ?e) s = (b, s2)"
        by (cases "remove_user_frame (entry_addr ?e) s")
      with u Some True have r: "r = (if b then Some (entry_addr ?e) else None)" "s' = s2"
        and k': "k' = k\<lparr>tabs := pte_write c (idx 0 va) 0 (tabs k)\<rparr>"
        by (auto simp: unmap_and_free_page_no_flush_def write_entry_def Let_def idx_levels)
      have "page_change (l0_frame s) va (\<lambda>_. None) k k'"
        by (rule page_change_write [OF t c k']) simp
      moreover have "released r s s' (entry_addr ?e)"
        using remove_user_frame_released [OF rm] by (simp only: r)
      ultimately show ?thesis
        using v True leaf_page_addr [of ?e va] by (auto split: prod.split)
    qed
  qed
  then show "page_change (l0_frame s) va (\<lambda>_. None) k k'"
    and "case view 3 (tabs k) (l0_frame s) (entry_addr va) of
       None \<Rightarrow> r = None \<and> s' = s
     | Some (pa, _) \<Rightarrow> released r s s' pa" by blast+
qed

text \<open>Eviction takes only pages that are read-only at both levels, and those it unmaps.\<close>

lemma evict_cases:
  assumes t: "tree 3 (tabs k) (l0_frame s)" and nb: "\<not> in_block (tabs k) (l0_frame s) va"
  shows "try_evict_ro_page va (s, k) =
    (case view 3 (tabs k) (l0_frame s) va of
       None \<Rightarrow> (None, s, k)
     | Some (_, attrs) \<Rightarrow>
         if attrs AND AP_RO_ALL = AP_RO_ALL then unmap_and_free_page_no_flush va (s, k) else (None, s, k))"
proof (cases "l3_ptr (tabs k) (l0_frame s) va")
  case None
  with unmapped_page [OF t nb None, of va] show ?thesis by (simp add: try_evict_ro_page_def)
next
  case (Some c)
  let ?e = "tabs k c (idx 0 va)"
  have "leaf_table 3 (tabs k) (l0_frame s) va = Some c" using Some l3_ptr_leaf [OF t nb] by simp
  from view_same_page [OF this, of va] have
    v: "view 3 (tabs k) (l0_frame s) va = (if valid ?e then Some (leaf 0 ?e va) else None)" by (simp add: Let_def)
  have "(?e AND ATTR_MASK) AND AP_RO_ALL = ?e AND AP_RO_ALL" by (simp add: and.assoc AP_RO_ALL_def)
  with Some v show ?thesis
    by (simp add: try_evict_ro_page_def unmap_and_free_page_no_flush_def Let_def idx_levels leaf_def)
qed

section \<open>Permissions\<close>

definition with_perms :: "u64 \<Rightarrow> u64 \<times> u64 \<Rightarrow> u64 \<times> u64" where
  "with_perms nf v = (fst v, (snd v AND NOT PERM_MASK) OR nf)"

lemma update_flags_view:
  assumes t: "tree 3 (tabs k) (l0_frame s)" and nb: "\<not> in_block (tabs k) (l0_frame s) va"
    and nf: "nf AND PERM_MASK = nf" and u: "update_page_flags_no_flush va nf (s, k) = (r, s', k')"
  shows "r = Inr ()" "s' = s" "page_change (l0_frame s) va (map_option (with_perms nf)) k k'"
proof -
  show "r = Inr ()" "s' = s"
    using u by (auto simp: update_page_flags_no_flush_def write_entry_def Let_def split: option.splits if_splits)
  show "page_change (l0_frame s) va (map_option (with_perms nf)) k k'"
  proof (cases "l3_ptr (tabs k) (l0_frame s) va")
    case None
    with u have "k' = k" by (auto simp: update_page_flags_no_flush_def)
    with page_change_none [OF t nb None] show ?thesis by simp
  next
    case (Some c)
    let ?e = "tabs k c (idx 0 va)"
    have c: "leaf_table 3 (tabs k) (l0_frame s) va = Some c" using Some l3_ptr_leaf [OF t nb] by simp
    show ?thesis
    proof (cases "valid ?e")
      case False
      with u Some have "k' = k" by (auto simp: update_page_flags_no_flush_def Let_def idx_levels)
      with page_change_invalid [OF t c False] show ?thesis by simp
    next
      case True
      with u Some have k': "k' = k\<lparr>tabs := pte_write c (idx 0 va) ((?e AND NOT PERM_MASK) OR nf) (tabs k)\<rparr>"
        by (auto simp: update_page_flags_no_flush_def Let_def idx_levels write_entry_def)
      show ?thesis
        by (rule page_change_write [OF t c k'])
          (simp add: True update_entry [OF True nf] with_perms_def)
    qed
  qed
qed

end
