(* ===== verification/Mmu_Steps.thy ===== *)
theory Mmu_Steps
  imports Mmu_Proofs
begin

text \<open>
  Address spaces under sequences of operations: the invariant that ties the tables reachable from
  the root to the frames the space has recorded and to what the allocator may still hand out, and
  the physical memory manager as the allocator.
\<close>

section \<open>Sequences of operations\<close>

datatype mmu_op =
    MapPage u64 u64 u64
  | AllocMap u64 u64
  | Fault u64 u64 u64
  | Unmap u64
  | UnmapFree u64
  | Evict u64
  | Protect u64 u64

text \<open>The fault handler records the tables that \<open>map_user_page\<close> reports.\<close>

fun space_step :: "'p alloc \<Rightarrow> mmu_op \<Rightarrow> 'p space \<Rightarrow> 'p space" where
  "space_step al (MapPage va pa uf) sk = snd (map_page al va pa uf sk)"
| "space_step al (AllocMap va uf) sk = snd (alloc_and_map al va uf sk)"
| "space_step al (Fault va pa uf) (s, k) =
     (case map_user_page al (l0_frame s) va pa uf k of
        ((fs, _), k1) \<Rightarrow> (fold track_page_table_frame fs s, k1))"
| "space_step al (Unmap va) sk = snd (unmap_page_no_flush va sk)"
| "space_step al (UnmapFree va) sk = snd (unmap_and_free_page_no_flush va sk)"
| "space_step al (Evict va) sk = snd (try_evict_ro_page va sk)"
| "space_step al (Protect va nf) sk = snd (update_page_flags_no_flush va nf sk)"

text \<open>
  What callers provide: frame addresses and permission bits in the form a descriptor holds, no
  unmapping or protecting inside a 2 MiB block of the kernel's identity map, and frames for the
  missing tables when a fault is served.
\<close>

fun op_ok :: "'p alloc \<Rightarrow> mmu_op \<Rightarrow> 'p space \<Rightarrow> bool" where
  "op_ok al (MapPage va pa uf) sk \<longleftrightarrow> entry_addr pa = pa \<and> entry_addr uf = 0"
| "op_ok al (AllocMap va uf) sk \<longleftrightarrow> entry_addr uf = 0"
| "op_ok al (Fault va pa uf) sk \<longleftrightarrow> entry_addr pa = pa \<and> entry_addr uf = 0
     \<and> (case fst (create_l3 al va sk) of Inr _ \<Rightarrow> True | Inl _ \<Rightarrow> False)"
| "op_ok al (Unmap va) sk \<longleftrightarrow> \<not> in_block (tabs (snd sk)) (l0_frame (fst sk)) va"
| "op_ok al (UnmapFree va) sk \<longleftrightarrow> \<not> in_block (tabs (snd sk)) (l0_frame (fst sk)) va"
| "op_ok al (Evict va) sk \<longleftrightarrow> \<not> in_block (tabs (snd sk)) (l0_frame (fst sk)) va"
| "op_ok al (Protect va nf) sk \<longleftrightarrow> \<not> in_block (tabs (snd sk)) (l0_frame (fst sk)) va \<and> nf AND PERM_MASK = nf"

text \<open>An operation whose arguments are not of this form is not performed.\<close>

fun space_run :: "'p alloc \<Rightarrow> mmu_op list \<Rightarrow> 'p space \<Rightarrow> 'p space" where
  "space_run al [] sk = sk"
| "space_run al (op # ops) sk = space_run al ops (if op_ok al op sk then space_step al op sk else sk)"

section \<open>Mapping from the fault handler\<close>

text \<open>
  As long as frames are left, the lock-free walk does what the walk of \<open>map_page\<close> does, and
  reports the tables it made.
\<close>

lemma atomic_table:
  assumes "get_or_create_table al tbl i (s, k) = (Inr c, s', k')"
  obtains fo where "get_or_create_table_atomic al tbl i k = ((c, fo), k')"
    "s' = s\<lparr>page_table_frames := push_table fo (page_table_frames s)\<rparr>"
proof -
  have "\<exists>fo. get_or_create_table_atomic al tbl i k = ((c, fo), k')
      \<and> s' = s\<lparr>page_table_frames := push_table fo (page_table_frames s)\<rparr>"
    using assms
    by (auto simp: get_or_create_table_def get_or_create_table_atomic_def Let_def push_table_def
        track_page_table_frame_def split: if_splits prod.splits option.splits)
  then show thesis using that by blast
qed

lemma push_tables: "fold track_page_table_frame fs s = s\<lparr>page_table_frames := page_table_frames s @ fs\<rparr>"
  by (induction fs arbitrary: s) (simp_all add: track_page_table_frame_def)

lemma map_user_page_create:
  assumes "create_l3 al va (s, k) = (Inr c, s', k3)" "entry_addr (l0_frame s) = l0_frame s"
  obtains fs where "s' = s\<lparr>page_table_frames := page_table_frames s @ fs\<rparr>"
    "map_user_page al (l0_frame s) va pa uf k =
       (if valid (tabs k3 c (l3_idx va)) then ((fs, False), k3)
        else ((fs, True), k3\<lparr>tabs := pte_write c (l3_idx va) (page_entry pa uf) (tabs k3)\<rparr>))"
proof -
  from assms(1) obtain l1 l2 s1 k1 s2 k2 where
    g: "get_or_create_table al (l0_frame s) (l0_idx va) (s, k) = (Inr l1, s1, k1)"
      "get_or_create_table al l1 (l1_idx va) (s1, k1) = (Inr l2, s2, k2)"
      "get_or_create_table al l2 (l2_idx va) (s2, k2) = (Inr c, s', k3)"
    by (auto simp: create_l3_def create_l2_def split: prod.splits sum.splits)
  from g(1) obtain f1 where a1: "get_or_create_table_atomic al (l0_frame s) (l0_idx va) k = ((l1, f1), k1)"
    "s1 = s\<lparr>page_table_frames := push_table f1 (page_table_frames s)\<rparr>" by (rule atomic_table)
  from g(2) obtain f2 where a2: "get_or_create_table_atomic al l1 (l1_idx va) k1 = ((l2, f2), k2)"
    "s2 = s1\<lparr>page_table_frames := push_table f2 (page_table_frames s1)\<rparr>" by (rule atomic_table)
  from g(3) obtain f3 where a3: "get_or_create_table_atomic al l2 (l2_idx va) k2 = ((c, f3), k3)"
    "s' = s2\<lparr>page_table_frames := push_table f3 (page_table_frames s2)\<rparr>" by (rule atomic_table)
  let ?fs = "push_table f3 (push_table f2 (push_table f1 []))"
  have "s' = s\<lparr>page_table_frames := page_table_frames s @ ?fs\<rparr>"
    using a1(2) a2(2) a3(2)
    by (cases f1; cases f2; cases f3) (simp_all add: push_table_def)
  moreover have "map_user_page al (l0_frame s) va pa uf k =
       (if valid (tabs k3 c (l3_idx va)) then ((?fs, False), k3)
        else ((?fs, True), k3\<lparr>tabs := pte_write c (l3_idx va) (page_entry pa uf) (tabs k3)\<rparr>))"
    using a1(1) a2(1) a3(1) assms(2) by (simp add: map_user_page_def Let_def entry_addr_def)
  ultimately show thesis by (rule that)
qed

section \<open>The invariant of an address space\<close>

context frame_source
begin

text \<open>
  The tables reachable from the root are the root, the tables the space has recorded and the
  shared device tables \<open>D\<close>, each once; none of them, and no user frame, is free or has two roles.
\<close>

definition space_ok :: "u64 set \<Rightarrow> 'p space \<Rightarrow> bool" where
  "space_ok D sk \<longleftrightarrow> (case sk of (s, k) \<Rightarrow>
     entry_addr (l0_frame s) = l0_frame s \<and> owned 3 (l0_frame s) k
     \<and> distinct (l0_frame s # page_table_frames s) \<and> D \<inter> insert (l0_frame s) (set (page_table_frames s)) = {}
     \<and> tables 3 (tabs k) (l0_frame s) = insert (l0_frame s) (set (page_table_frames s)) \<union> D
     \<and> fst ` set (user_frames s) \<inter> (tables 3 (tabs k) (l0_frame s) \<union> avail (pool k)) = {})"

lemma space_ok_grow:
  assumes i: "space_ok D (s, k)"
    and s': "s' = s\<lparr>page_table_frames := page_table_frames s @ fs\<rparr>"
    and o: "owned 3 (l0_frame s) k'" and fs: "distinct fs" "set fs \<subseteq> avail (pool k)"
    and av: "avail (pool k') = avail (pool k) - set fs"
    and tb: "tables 3 (tabs k') (l0_frame s) = tables 3 (tabs k) (l0_frame s) \<union> set fs"
  shows "space_ok D (s', k')"
proof -
  have dj: "tables 3 (tabs k) (l0_frame s) \<inter> avail (pool k) = {}"
    using i by (auto simp: space_ok_def owned_def)
  then have "(insert (l0_frame s) (set (page_table_frames s)) \<union> D) \<inter> set fs = {}"
    using i fs by (auto simp: space_ok_def)
  moreover have "fst ` set (user_frames s) \<inter> set fs = {}" using i fs by (auto simp: space_ok_def)
  moreover have f: "l0_frame s' = l0_frame s" "page_table_frames s' = page_table_frames s @ fs"
    "user_frames s' = user_frames s" by (simp_all add: s')
  ultimately show ?thesis using i o fs unfolding space_ok_def prod.case f tb av by auto
qed

lemma space_ok_page_change:
  assumes i: "space_ok D (s, k)" and pc: "page_change (l0_frame s) va g k k'"
    and s': "s'\<lparr>user_frames := user_frames s\<rparr> = s" and uf: "fst ` set (user_frames s') \<subseteq> fst ` set (user_frames s)"
  shows "space_ok D (s', k')"
proof -
  have f: "l0_frame s' = l0_frame s" "page_table_frames s' = page_table_frames s"
    using arg_cong [OF s', of l0_frame] arg_cong [OF s', of page_table_frames] by simp_all
  have p: "pool k' = pool k" "tables 3 (tabs k') (l0_frame s) = tables 3 (tabs k) (l0_frame s)"
    "tree 3 (tabs k') (l0_frame s)" using pc by (simp_all add: page_change_def)
  have "fst ` set (user_frames s) \<inter> (tables 3 (tabs k) (l0_frame s) \<union> avail (pool k)) = {}"
    using i unfolding space_ok_def prod.case by blast
  with uf have "fst ` set (user_frames s') \<inter> (tables 3 (tabs k) (l0_frame s) \<union> avail (pool k)) = {}"
    by blast
  then show ?thesis using i p(3) unfolding space_ok_def owned_def prod.case f p(1,2) by blast
qed

lemma map_page_ok:
  assumes "space_ok D (s, k)" "entry_addr pa = pa" "entry_addr uf = 0"
  shows "space_ok D (snd (map_page al va pa uf (s, k)))"
proof -
  obtain r s' k' where m: "map_page al va pa uf (s, k) = (r, s', k')"
    by (cases "map_page al va pa uf (s, k)") auto
  have "owned 3 (l0_frame s) k" using assms(1) by (simp add: space_ok_def)
  from map_page_view [OF this assms(2,3) m] obtain fs where
    "s' = s\<lparr>page_table_frames := page_table_frames s @ fs\<rparr>" "owned 3 (l0_frame s) k'"
    "distinct fs" "set fs \<subseteq> avail (pool k)" "avail (pool k') = avail (pool k) - set fs"
    "tables 3 (tabs k') (l0_frame s) = tables 3 (tabs k) (l0_frame s) \<union> set fs" by blast
  from space_ok_grow [OF assms(1) this] show ?thesis by (simp add: m)
qed

text \<open>A frame taken for the user's data.\<close>

lemma alloc_zeroed_ok:
  assumes i: "space_ok D (s, k)" and a: "alloc_zeroed al k = (r, k')"
  shows "case r of None \<Rightarrow> space_ok D (s, k') | Some f \<Rightarrow> space_ok D (track_user_frame f s, k') \<and> entry_addr f = f"
proof (cases "al (pool k)")
  case (Pair fo p)
  have okp: "ok (pool k)" and dj: "tables 3 (tabs k) (l0_frame s) \<inter> avail (pool k) = {}"
    using i by (auto simp: space_ok_def owned_def)
  show ?thesis
  proof (cases fo)
    case None
    with Pair refused [OF okp] have "ok p" "avail p = {}" by auto
    with i a Pair None show ?thesis by (auto simp: alloc_zeroed_def space_ok_def owned_def)
  next
    case (Some f)
    with Pair given [OF okp] have f: "f \<in> avail (pool k)" "avail p = avail (pool k) - {f}" "ok p" by auto
    from a Pair Some have r: "r = Some f" and k': "k' = k\<lparr>pool := p, tabs := (tabs k)(f := (\<lambda>_. 0))\<rparr>"
      by (auto simp: alloc_zeroed_def)
    have nf: "f \<notin> tables 3 (tabs k) (l0_frame s)" using f dj by blast
    then have ag: "\<forall>b \<in> tables 3 (tabs k) (l0_frame s). tabs k' b = tabs k b" by (auto simp: k')
    have tb: "tables 3 (tabs k') (l0_frame s) = tables 3 (tabs k) (l0_frame s)" by (rule tables_cong [OF ag])
    have tr: "tree 3 (tabs k') (l0_frame s) = tree 3 (tabs k) (l0_frame s)" by (rule tree_cong [OF ag])
    have uf: "fst ` set (user_frames (track_user_frame f s)) = insert f (fst ` set (user_frames s))"
      unfolding track_user_frame_def using keys_bt_insert by (simp flip: set_map)
    have s': "l0_frame (track_user_frame f s) = l0_frame s"
      "page_table_frames (track_user_frame f s) = page_table_frames s"
      by (simp_all add: track_user_frame_def)
    have pk: "pool k' = p" by (simp add: k')
    have "space_ok D (track_user_frame f s, k')"
      using i nf f unfolding space_ok_def owned_def prod.case s' tb tr uf pk by auto
    with r aligned [OF okp f(1)] show ?thesis by simp
  qed
qed

lemma alloc_and_map_ok:
  assumes i: "space_ok D (s, k)" and uf: "entry_addr uf = 0"
  shows "space_ok D (snd (alloc_and_map al va uf (s, k)))"
proof -
  obtain r k1 where a: "alloc_zeroed al k = (r, k1)" by (cases "alloc_zeroed al k")
  note ok1 = alloc_zeroed_ok [OF i a]
  show ?thesis
  proof (cases r)
    case None
    with ok1 a show ?thesis by (simp add: alloc_and_map_def)
  next
    case (Some f)
    with ok1 have "space_ok D (track_user_frame f s, k1)" "entry_addr f = f" by simp_all
    from map_page_ok [OF this uf, of va] a Some show ?thesis
      by (simp add: alloc_and_map_def split: prod.split sum.split) (metis snd_conv)
  qed
qed

lemma released_keys:
  assumes "released r s s' pa"
  shows "s'\<lparr>user_frames := user_frames s\<rparr> = s" "fst ` set (user_frames s') \<subseteq> fst ` set (user_frames s)"
proof -
  show "s'\<lparr>user_frames := user_frames s\<rparr> = s" using assms by (simp add: released_def)
  have "dom (map_of (user_frames s')) \<subseteq> dom (map_of (user_frames s))"
    using assms by (auto simp: released_def split: option.splits if_splits)
  then show "fst ` set (user_frames s') \<subseteq> fst ` set (user_frames s)" by (simp add: dom_map_of_conv_image_fst)
qed

lemma unmap_and_free_ok:
  assumes i: "space_ok D (s, k)" and nb: "\<not> in_block (tabs k) (l0_frame s) va"
    and u: "unmap_and_free_page_no_flush va (s, k) = (r, s', k')"
  shows "space_ok D (s', k')"
proof -
  have t: "tree 3 (tabs k) (l0_frame s)" using i by (simp add: space_ok_def owned_def)
  note v = unmap_and_free_view [OF t nb u]
  have "s'\<lparr>user_frames := user_frames s\<rparr> = s \<and> fst ` set (user_frames s') \<subseteq> fst ` set (user_frames s)"
    using v(2) by (auto split: option.splits dest: released_keys)
  with space_ok_page_change [OF i v(1)] show ?thesis by blast
qed

text \<open>
  Serving a fault with frames at hand: a page that means something already is left alone, whatever
  frame was offered; one that means nothing gets the frame and permissions offered.
\<close>

lemma map_user_page_view:
  assumes o: "owned 3 (l0_frame s) k" and l0: "entry_addr (l0_frame s) = l0_frame s"
    and pa: "entry_addr pa = pa" and uf: "entry_addr uf = 0"
    and c: "create_l3 al va (s, k) = (Inr c, s1, k1)"
    and m: "map_user_page al (l0_frame s) va pa uf k = ((fs, inst), k')"
  shows "owned 3 (l0_frame s) k' \<and> distinct fs \<and> set fs \<subseteq> avail (pool k)
    \<and> avail (pool k') = avail (pool k) - set fs
    \<and> tables 3 (tabs k') (l0_frame s) = tables 3 (tabs k) (l0_frame s) \<union> set fs
    \<and> inst = (view 3 (tabs k) (l0_frame s) va = None)
    \<and> (\<forall>va'. view 3 (tabs k') (l0_frame s) va' =
          (if inst \<and> entry_addr va' = entry_addr va
           then Some (pa OR (va' AND 0xFFF), page_entry pa uf AND ATTR_MASK)
           else view 3 (tabs k) (l0_frame s) va'))"
proof -
  let ?l0 = "l0_frame s" and ?e = "tabs k1 c (l3_idx va)"
  from map_user_page_create [OF c l0, of pa uf] obtain gs where
    gs: "s1 = s\<lparr>page_table_frames := page_table_frames s @ gs\<rparr>"
    and mu: "map_user_page al ?l0 va pa uf k =
       (if valid ?e then ((gs, False), k1)
        else ((gs, True), k1\<lparr>tabs := pte_write c (l3_idx va) (page_entry pa uf) (tabs k1)\<rparr>))" by blast
  have fs: "gs = fs" using mu m by (simp split: if_splits)
  have "ensure al 3 ?l0 va (s, k) = (Inr c, s1, k1)" using c by (simp add: create_l3_ensure)
  from ensure_grows [OF o this] obtain hs where
    g: "grows 3 ?l0 hs k k1" and hs: "s1 = s\<lparr>page_table_frames := page_table_frames s @ hs\<rparr>"
    and d: "leaf_table 3 (tabs k1) ?l0 va = Some c" by blast
  have "hs = fs" using arg_cong [OF hs, of page_table_frames] gs fs by simp
  with g have g: "grows 3 ?l0 fs k k1" by simp
  then have t1: "tree 3 (tabs k1) ?l0" by (simp add: grows_def owned_def)
  have v1: "view 3 (tabs k) ?l0 va' = view 3 (tabs k1) ?l0 va'" for va' using g by (simp add: grows_def)
  have none: "view 3 (tabs k) ?l0 va = None \<longleftrightarrow> \<not> valid ?e"
    unfolding v1 using leaf_view [OF d] by (simp add: Let_def idx_levels)
  have base: "owned 3 ?l0 k1" "distinct fs" "set fs \<subseteq> avail (pool k)" "avail (pool k1) = avail (pool k) - set fs"
    "tables 3 (tabs k1) ?l0 = tables 3 (tabs k) ?l0 \<union> set fs" using g by (simp_all add: grows_def)
  show ?thesis
  proof (cases "valid ?e")
    case True
    with mu m have "k' = k1" "\<not> inst" by simp_all
    with base none True v1 show ?thesis by simp
  next
    case False
    with mu m have k': "k' = k1\<lparr>tabs := pte_write c (idx 0 va) (page_entry pa uf) (tabs k1)\<rparr>" and inst
      by (auto simp: idx_levels)
    note w = view_leaf_write [OF t1 d, of "page_entry pa uf"]
    have "owned 3 ?l0 k'" using base(1) w(1,2) unfolding owned_def by (simp add: k')
    moreover have "view 3 (tabs k') ?l0 va' =
          (if entry_addr va' = entry_addr va
           then Some (pa OR (va' AND 0xFFF), page_entry pa uf AND ATTR_MASK)
           else view 3 (tabs k) ?l0 va')" for va'
      using w(3) [of va'] page_entry_leaf [OF pa uf] v1 [of va'] by (simp add: k')
    ultimately show ?thesis using base none False \<open>inst\<close> w(2) by (simp add: k')
  qed
qed

lemma space_step_ok:
  assumes i: "space_ok D sk" and ok: "op_ok al op sk"
  shows "space_ok D (space_step al op sk)"
proof -
  obtain s k where sk: "sk = (s, k)" by (cases sk)
  have i: "space_ok D (s, k)" using i sk by simp
  then have o: "owned 3 (l0_frame s) k" and l0: "entry_addr (l0_frame s) = l0_frame s"
    and t: "tree 3 (tabs k) (l0_frame s)" unfolding space_ok_def owned_def prod.case by blast+
  show ?thesis
  proof (cases op)
    case (MapPage va pa uf)
    with map_page_ok [OF i] ok sk show ?thesis by simp
  next
    case (AllocMap va uf)
    with alloc_and_map_ok [OF i] ok sk show ?thesis by simp
  next
    case (Fault va pa uf)
    with ok sk obtain c s1 k1 where c: "create_l3 al va (s, k) = (Inr c, s1, k1)"
      by (cases "create_l3 al va (s, k)") (auto split: sum.splits)
    obtain fs inst k' where m: "map_user_page al (l0_frame s) va pa uf k = ((fs, inst), k')"
      by (cases "map_user_page al (l0_frame s) va pa uf k") auto
    from Fault ok have "entry_addr pa = pa" "entry_addr uf = 0" by simp_all
    from map_user_page_view [OF o l0 this c m] have
      "owned 3 (l0_frame s) k'" "distinct fs" "set fs \<subseteq> avail (pool k)" "avail (pool k') = avail (pool k) - set fs"
      "tables 3 (tabs k') (l0_frame s) = tables 3 (tabs k) (l0_frame s) \<union> set fs" by blast+
    from space_ok_grow [OF i refl this] show ?thesis by (simp add: Fault sk m push_tables)
  next
    case (Unmap va)
    obtain r s' k' where u: "unmap_page_no_flush va (s, k) = (r, s', k')"
      by (cases "unmap_page_no_flush va (s, k)") auto
    have nb: "\<not> in_block (tabs k) (l0_frame s) va" using ok Unmap sk by simp
    note v = unmap_view [OF t nb u]
    from space_ok_page_change [OF i v(3), of s'] v(2) show ?thesis by (simp add: Unmap sk u)
  next
    case (UnmapFree va)
    obtain r s' k' where u: "unmap_and_free_page_no_flush va (s, k) = (r, s', k')"
      by (cases "unmap_and_free_page_no_flush va (s, k)") auto
    have nb: "\<not> in_block (tabs k) (l0_frame s) va" using ok UnmapFree sk by simp
    from unmap_and_free_ok [OF i nb u] show ?thesis by (simp add: UnmapFree sk u)
  next
    case (Evict va)
    have nb: "\<not> in_block (tabs k) (l0_frame s) va" using ok Evict sk by simp
    obtain r s' k' where u: "unmap_and_free_page_no_flush va (s, k) = (r, s', k')"
      by (cases "unmap_and_free_page_no_flush va (s, k)") auto
    have "space_ok D (s', k')" by (rule unmap_and_free_ok [OF i nb u])
    with i u show ?thesis unfolding Evict sk space_step.simps evict_cases [OF t nb]
      by (simp split: option.split)
  next
    case (Protect va nf)
    obtain r s' k' where u: "update_page_flags_no_flush va nf (s, k) = (r, s', k')"
      by (cases "update_page_flags_no_flush va nf (s, k)") auto
    have nb: "\<not> in_block (tabs k) (l0_frame s) va" "nf AND PERM_MASK = nf" using ok Protect sk by simp_all
    note v = update_flags_view [OF t nb u]
    from space_ok_page_change [OF i v(3), of s'] v(2) show ?thesis by (simp add: Protect sk u)
  qed
qed

lemma space_run_ok: "space_ok D sk \<Longrightarrow> space_ok D (space_run al ops sk)"
  by (induction ops arbitrary: sk) (simp_all add: space_step_ok)

end

section \<open>The physical memory manager as frame source\<close>

text \<open>
  \<open>runtime().alloc_page_zeroed\<close> is the physical memory manager's, on a heap that has no pages to
  give back.
\<close>

definition pmm_source :: "pmm_state \<Rightarrow> u64 option \<times> pmm_state" where
  "pmm_source s =
     (case alloc_page_zeroed (\<lambda>s. (0, s)) s of (fo, s') \<Rightarrow> (map_option (\<lambda>f. of_nat (addr f)) fo, s'))"

definition pmm_ready :: "pmm_state \<Rightarrow> bool" where
  "pmm_ready s \<longleftrightarrow> pmm_ok s \<and> base_addr (PMM s) + total_pages (PMM s) * 4096 \<le> 2 ^ 48"

definition pmm_free :: "pmm_state \<Rightarrow> u64 set" where
  "pmm_free s = (\<lambda>p. of_nat (base_addr (PMM s) + p * 4096)) ` free_set (PMM s)"

lemma entry_addr_of_nat:
  assumes "x < 2 ^ 48" "x mod 4096 = 0"
  shows "entry_addr (of_nat x) = of_nat x"
proof -
  obtain q where x: "x = q * 2 ^ 12" using assms(2) by auto
  then have q: "q < 2 ^ 36" using assms(1) by simp
  have nb: "\<not> bit q j" if "36 \<le> j" for j
  proof -
    have "q < 2 ^ j" using q power_increasing [OF that, of "2 :: nat"] by simp
    then show ?thesis by (simp add: bit_iff_odd)
  qed
  have eq: "(of_nat x :: u64) = push_bit 12 (of_nat q)" by (simp add: x push_bit_eq_mult mult.commute)
  have b: "bit (of_nat x :: u64) n \<longleftrightarrow> n < 64 \<and> 12 \<le> n \<and> bit q (n - 12)" for n
    unfolding eq by (auto simp: bit_simps bit_push_bit_iff)
  have "bit (of_nat x :: u64) n \<longrightarrow> 12 \<le> n \<and> n < 48" for n
    using nb [of "n - 12"] b [of n] by (cases "n < 48") auto
  then show ?thesis
    unfolding entry_addr_def by (intro bit_word_eqI) (unfold bit_and_iff bit_addr_mask, blast)
qed

lemma pmm_addr_inj:
  assumes "pmm_ready s" "p < total_pages (PMM s)" "q < total_pages (PMM s)"
    "(of_nat (base_addr (PMM s) + p * 4096) :: u64) = of_nat (base_addr (PMM s) + q * 4096)"
  shows "p = q"
proof -
  have b: "base_addr (PMM s) + r * 4096 < 2 ^ LENGTH(64)" if "r < total_pages (PMM s)" for r
  proof -
    have "r * 4096 \<le> total_pages (PMM s) * 4096" using that by simp
    moreover have "(2 :: nat) ^ 48 < 2 ^ LENGTH(64)" by simp
    ultimately show ?thesis using assms(1) unfolding pmm_ready_def by linarith
  qed
  have "base_addr (PMM s) + p * 4096 = unat (of_nat (base_addr (PMM s) + p * 4096) :: u64)"
    by (rule unat_of_nat_small [OF b [OF assms(2)], symmetric])
  also have "\<dots> = base_addr (PMM s) + q * 4096"
    unfolding assms(4) by (rule unat_of_nat_small [OF b [OF assms(3)]])
  finally show ?thesis by simp
qed

lemma pmm_source_Some:
  assumes r: "pmm_ready s" and al: "pmm_source s = (Some f, s')"
  shows "f \<in> pmm_free s \<and> pmm_free s' = pmm_free s - {f} \<and> pmm_ready s'"
proof -
  have ok: "pmm_ok s" using r by (simp add: pmm_ready_def)
  then have wf: "ba_wf (PMM s)" by (simp add: pmm_ok_def)
  from al obtain fr where fr: "alloc_page_zeroed (\<lambda>s. (0, s)) s = (Some fr, s')" "f = of_nat (addr fr)"
    by (auto simp: pmm_source_def split: prod.splits)
  have ne: "free_set (PMM s) \<noteq> {}"
  proof
    assume e: "free_set (PMM s) = {}"
    obtain r1 s1 where once: "alloc_page_once s = (r1, s1)" by (cases "alloc_page_once s")
    with alloc_page_once_Some(2) [OF ok] e have "r1 = None" by (cases r1) auto
    with once fr(1) show False by (simp add: alloc_page_zeroed_def alloc_page_def)
  qed
  from alloc_page_zeroed_direct [OF ok ne, of "\<lambda>s. (0, s)"] obtain g t p where
    g: "alloc_page_zeroed (\<lambda>s. (0, s)) s = (Some g, t)" "pmm_ok t" "p \<in> free_set (PMM s)"
      "g = page_frame (PMM s) p" "taken (PMM s) [p] (PMM t)" by metis
  with fr have "fr = page_frame (PMM s) p" and t: "t = s'" by simp_all
  with fr(2) have fp: "f = of_nat (base_addr (PMM s) + p * 4096)"
    by (simp only: addr_page_frame [OF wf] PAGE_SIZE_def)
  have tk: "free_set (PMM s') = free_set (PMM s) - {p}" "base_addr (PMM s') = base_addr (PMM s)"
    "total_pages (PMM s') = total_pages (PMM s)" using g(5) by (simp_all add: taken_def t)
  have lt: "q < total_pages (PMM s)" if "q \<in> free_set (PMM s)" for q using that by (simp add: free_set_def)
  have "q = p" if "q \<in> free_set (PMM s)" "(of_nat (base_addr (PMM s) + q * 4096) :: u64) = f" for q
    using pmm_addr_inj [OF r lt [OF that(1)] lt [OF g(3)]] that(2) fp by simp
  then have "pmm_free s' = pmm_free s - {f}" unfolding pmm_free_def tk using fp by auto
  moreover have "f \<in> pmm_free s" unfolding pmm_free_def fp using g(3) by blast
  moreover have "pmm_ready s'" using r g(2) tk by (simp add: pmm_ready_def t)
  ultimately show ?thesis by blast
qed

lemma pmm_source_None:
  assumes r: "pmm_ready s" and al: "pmm_source s = (None, s')"
  shows "pmm_ready s' \<and> pmm_free s' = {} \<and> pmm_free s = {}"
proof -
  have ok: "pmm_ok s" using r by (simp add: pmm_ready_def)
  obtain r1 s1 where once: "alloc_page_once s = (r1, s1)" by (cases "alloc_page_once s")
  with al have "r1 = None" by (cases r1) (auto simp: pmm_source_def alloc_page_zeroed_def alloc_page_def)
  with alloc_page_once_None [OF ok] once have "s1 = s" "free_set (PMM s) = {}" by auto
  moreover from this once \<open>r1 = None\<close> al have "s' = s"
    by (auto simp: pmm_source_def alloc_page_zeroed_def alloc_page_def)
  ultimately show ?thesis using r by (simp add: pmm_free_def)
qed

interpretation pmm_tables: frame_source pmm_ready pmm_free pmm_source
proof unfold_locales
  show "f \<in> pmm_free s \<and> pmm_free s' = pmm_free s - {f} \<and> pmm_ready s'"
    if "pmm_ready s" "pmm_source s = (Some f, s')" for s f s'
    by (rule pmm_source_Some [OF that])
  show "pmm_ready s' \<and> pmm_free s' = {} \<and> pmm_free s = {}"
    if "pmm_ready s" "pmm_source s = (None, s')" for s s'
    by (rule pmm_source_None [OF that])
  show "entry_addr f = f" if r: "pmm_ready s" and f: "f \<in> pmm_free s" for s f
  proof -
    from f obtain p where p: "p < total_pages (PMM s)" "f = of_nat (base_addr (PMM s) + p * 4096)"
      by (auto simp: pmm_free_def free_set_def)
    have "p * 4096 < total_pages (PMM s) * 4096" using p(1) by simp
    then have "base_addr (PMM s) + p * 4096 < 2 ^ 48" using r unfolding pmm_ready_def by linarith
    moreover have "(base_addr (PMM s) + p * 4096) mod 4096 = 0"
      using r by (simp add: pmm_ready_def pmm_ok_def ba_wf_def PAGE_SIZE_def)
    ultimately show ?thesis unfolding p(2) by (rule entry_addr_of_nat)
  qed
qed

end
