(* ===== verification/Mmu_Ranges.thy ===== *)
theory Mmu_Ranges
  imports Mmu_Steps
begin

text \<open>
  Walks over address ranges, used by fork: \<open>collect_mapped_pages_sparse\<close>,
  \<open>collect_mapped_pages_with_flags\<close> and \<open>demote_range_to_ro\<close> of \<open>mmu/mod.rs\<close>. The three functions
  repeat one loop, which skips what a missing table covers in one go and visits the descriptors of
  a last-level table in turn. It is proved to do what a visit of every single page does.
\<close>

section \<open>The loop\<close>

text \<open>The low bits to skip over, or the last-level table that covers the address.\<close>

definition range_walk :: "ptes \<Rightarrow> u64 \<Rightarrow> u64 \<Rightarrow> u64 + u64" where
  "range_walk m l0 va =
     (let l0_entry = m l0 (l0_idx va) in
      if \<not> valid l0_entry then Inl 0x7FFFFFFFFF
      else let l1_entry = m (entry_addr l0_entry) (l1_idx va) in
      if \<not> valid l1_entry then Inl 0x3FFFFFFF
      else if \<not> table l1_entry then Inl 0x3FFFFFFF
      else let l2_entry = m (entry_addr l1_entry) (l2_idx va) in
      if \<not> valid l2_entry then Inl 0x1FFFFF
      else if \<not> table l2_entry then Inl 0x1FFFFF
      else Inr (entry_addr l2_entry))"

text \<open>
  \<open>op l3 i page_va\<close> is what the loop does at descriptor \<open>i\<close> of the table at \<open>l3\<close>. At the top of the
  address space \<open>(va | mask) + 1\<close> wraps around to 0 and the loop need not end.
\<close>

partial_function (option) range_loop ::
    "('s \<Rightarrow> ptes) \<Rightarrow> (u64 \<Rightarrow> pte_index \<Rightarrow> u64 \<Rightarrow> 's \<Rightarrow> 's) \<Rightarrow> u64 \<Rightarrow> u64 \<Rightarrow> u64 \<Rightarrow> 's \<Rightarrow> 's option" where
  "range_loop get op l0 va_end va s =
     (if va < va_end then
        (case range_walk (get s) l0 va of
           Inl low \<Rightarrow> range_loop get op l0 va_end (min ((va OR low) + 1) va_end) s
         | Inr l3 \<Rightarrow>
             (let l3_start = unat (drop_bit 12 va AND 0x1FF);
                  l2_range_end = min ((va OR 0x1FFFFF) + 1) va_end;
                  l3_end_idx = (if l2_range_end = va_end then unat (drop_bit 12 (va_end - 1) AND 0x1FF) + 1 else 512)
              in range_loop get op l0 va_end l2_range_end
                   (fold (\<lambda>i. op l3 (of_nat i) ((va AND NOT 0x1FFFFF) OR push_bit 12 (of_nat i)))
                      [l3_start..<l3_end_idx] s)))
      else Some s)"

text \<open>\<open>va_start.checked_add(pages.saturating_mul(PAGE_SIZE))\<close>.\<close>

definition range_end :: "u64 \<Rightarrow> u64 \<Rightarrow> u64 option" where
  "range_end va_start pages =
     (let len = (if unat pages * 4096 < 2 ^ 64 then pages * 4096 else - 1)
      in if unat va_start + unat len < 2 ^ 64 then Some (va_start + len) else None)"

definition collect_mapped_pages_sparse :: "ptes \<Rightarrow> u64 \<Rightarrow> u64 \<Rightarrow> u64 \<Rightarrow> (u64 \<times> u64) list option" where
  "collect_mapped_pages_sparse m l0 va_start pages =
     (if pages = 0 then Some []
      else case range_end va_start pages of
             None \<Rightarrow> Some []
           | Some va_end \<Rightarrow>
               range_loop (\<lambda>_. m)
                 (\<lambda>l3 i page_va result.
                    let l3_entry = m l3 i in
                    if valid l3_entry then result @ [(page_va, entry_addr l3_entry OR (page_va AND 0xFFF))]
                    else result)
                 l0 va_end va_start [])"

definition collect_mapped_pages_with_flags ::
    "ptes \<Rightarrow> u64 \<Rightarrow> u64 \<Rightarrow> u64 \<Rightarrow> (u64 \<times> u64 \<times> u64) list option" where
  "collect_mapped_pages_with_flags m l0 va_start pages =
     (if pages = 0 then Some []
      else case range_end va_start pages of
             None \<Rightarrow> Some []
           | Some va_end \<Rightarrow>
               range_loop (\<lambda>_. m)
                 (\<lambda>l3 i page_va result.
                    let l3_entry = m l3 i in
                    if valid l3_entry
                    then result @ [(page_va, entry_addr l3_entry, l3_entry AND (AP_RO_ALL OR UXN OR PXN))]
                    else result)
                 l0 va_end va_start [])"

definition demote_entry :: "u64 \<Rightarrow> pte_index \<Rightarrow> u64 \<Rightarrow> ptes \<times> nat \<Rightarrow> ptes \<times> nat" where
  "demote_entry l3 i page_va s =
     (case s of (m, demoted) \<Rightarrow>
      let entry = m l3 i; AP_MASK = AP_RO_ALL OR AP_RW_ALL in
      if \<not> valid entry then (m, demoted)
      else if entry AND AP_MASK = AP_RW_ALL
        then (pte_write l3 i ((entry AND NOT AP_MASK) OR AP_RO_ALL) m, demoted + 1)
      else (m, demoted))"

definition demote_range_to_ro :: "ptes \<Rightarrow> u64 \<Rightarrow> u64 \<Rightarrow> u64 \<Rightarrow> (ptes \<times> nat) option" where
  "demote_range_to_ro m l0 va_start pages =
     (if pages = 0 then Some (m, 0)
      else case range_end va_start pages of
             None \<Rightarrow> Some (m, 0)
           | Some va_end \<Rightarrow> range_loop fst demote_entry l0 va_end va_start (m, 0))"

section \<open>Page by page\<close>

definition visit ::
    "('s \<Rightarrow> ptes) \<Rightarrow> (u64 \<Rightarrow> pte_index \<Rightarrow> u64 \<Rightarrow> 's \<Rightarrow> 's) \<Rightarrow> u64 \<Rightarrow> nat \<Rightarrow> 's \<Rightarrow> 's" where
  "visit get op l0 n s =
     (case range_walk (get s) l0 (of_nat (n * 4096)) of
        Inl _ \<Rightarrow> s
      | Inr l3 \<Rightarrow> op l3 (of_nat n) (of_nat (n * 4096)) s)"

text \<open>Page numbers of an address range.\<close>

definition page_numbers :: "nat \<Rightarrow> nat \<Rightarrow> nat list" where
  "page_numbers a b = [a div 4096..<(b + 4095) div 4096]"

lemma fold_id_on: "(\<And>x. x \<in> set xs \<Longrightarrow> f x s = s) \<Longrightarrow> fold f xs s = s"
  by (induction xs) simp_all

subsection \<open>Regions\<close>

lemma idx_nat: "idx n va = of_nat (unat va div 2 ^ (12 + 9 * n))"
proof -
  have "idx n va = of_nat (unat (drop_bit (12 + 9 * n) va))" by (simp only: idx_def of_nat_unat)
  then show ?thesis unfolding unat_drop_bit_eq by (simp only: drop_bit_eq_div)
qed

lemma idx_region:
  assumes "unat x div 2 ^ j = unat y div 2 ^ j" "j \<le> 12 + 9 * n"
  shows "idx n x = idx n y"
proof -
  have "z div 2 ^ (12 + 9 * n) = z div 2 ^ j div 2 ^ (12 + 9 * n - j)" for z :: nat
    using assms(2) by (simp flip: div_mult2_eq power_add)
  then show ?thesis unfolding idx_nat by (simp only: assms(1))
qed

lemma range_walk_region:
  assumes "unat x div 2 ^ 21 = unat y div 2 ^ 21"
  shows "range_walk m l0 x = range_walk m l0 y"
proof -
  have "l0_idx x = l0_idx y" "l1_idx x = l1_idx y" "l2_idx x = l2_idx y"
    unfolding idx_levels using idx_region [OF assms] by simp_all
  then show ?thesis unfolding range_walk_def Let_def by simp
qed

lemma range_walk_skip:
  assumes "range_walk m l0 x = Inl low"
  obtains j where "low = mask j" "21 \<le> j" "j \<le> 39"
    "\<And>y. unat y div 2 ^ j = unat x div 2 ^ j \<Longrightarrow> range_walk m l0 y = Inl low"
proof -
  consider "low = mask 39" "\<not> valid (m l0 (l0_idx x))"
    | "low = mask 30" "valid (m l0 (l0_idx x))"
      "let e = m (entry_addr (m l0 (l0_idx x))) (l1_idx x) in \<not> valid e \<or> \<not> table e"
    | "low = mask 21"
    using assms by (auto simp: range_walk_def Let_def mask_eq_exp_minus_1 split: if_splits)
  then show thesis
  proof cases
    case 1
    show thesis
    proof (rule that [of 39])
      fix y :: u64 assume y: "unat y div 2 ^ 39 = unat x div 2 ^ 39"
      have "l0_idx y = l0_idx x" unfolding idx_levels by (rule idx_region [OF y]) simp
      with 1 show "range_walk m l0 y = Inl low" by (simp add: range_walk_def mask_eq_exp_minus_1)
    qed (use 1 in simp_all)
  next
    case 2
    show thesis
    proof (rule that [of 30])
      fix y :: u64 assume y: "unat y div 2 ^ 30 = unat x div 2 ^ 30"
      have "l0_idx y = l0_idx x" unfolding idx_levels by (rule idx_region [OF y]) simp
      moreover have "l1_idx y = l1_idx x" unfolding idx_levels by (rule idx_region [OF y]) simp
      ultimately show "range_walk m l0 y = Inl low"
        using 2 by (simp add: range_walk_def Let_def mask_eq_exp_minus_1)
    qed (use 2 in simp_all)
  next
    case 3
    show thesis
    proof (rule that [of 21])
      fix y :: u64 assume y: "unat y div 2 ^ 21 = unat x div 2 ^ 21"
      show "range_walk m l0 y = Inl low" using range_walk_region [OF y, of m l0] assms by simp
    qed (use 3 in simp_all)
  qed
qed

text \<open>The first address after the region of an address.\<close>

lemma unat_or_mask:
  assumes "j \<le> 39" "unat (va :: u64) < 2 ^ 48"
  shows "unat ((va OR mask j) + 1) = (unat va div 2 ^ j + 1) * 2 ^ j"
proof -
  have "unat (mask j :: u64) = mask j"
    using assms(1) by (intro bit_eqI) (auto simp: bit_unsigned_iff bit_mask_iff)
  then have "unat (va OR mask j) = (unat va OR mask j)" by (simp add: unsigned_or_eq)
  also have "\<dots> = push_bit j (unat va div 2 ^ j) OR mask j"
    by (rule bit_eqI) (auto simp: bit_or_iff bit_mask_iff bit_push_bit_iff bit_drop_bit_eq simp flip: drop_bit_eq_div)
  also have "\<dots> = push_bit j (unat va div 2 ^ j) + mask j"
    by (rule disjunctive_add_eq_or [symmetric]) (rule bit_eqI, auto simp: bit_and_iff bit_mask_iff bit_push_bit_iff)
  finally have u: "unat (va OR mask j) + 1 = (unat va div 2 ^ j + 1) * 2 ^ j"
    by (simp add: push_bit_eq_mult mask_eq_exp_minus_1 algebra_simps)
  have "unat va div 2 ^ j * 2 ^ j \<le> unat va" by simp
  moreover have "(2 :: nat) ^ j \<le> 2 ^ 39" using assms(1) by (rule power_increasing) simp
  moreover have "(2 :: nat) ^ 48 + 2 ^ 39 < 2 ^ LENGTH(64)" by simp
  ultimately have "unat (va OR mask j) + 1 < 2 ^ LENGTH(64)"
    using assms(2) unfolding u distrib_right mult_1 by linarith
  then have "unat ((va OR mask j) + 1) = unat (va OR mask j) + 1"
    using unat_add_lem [of "va OR mask j" 1] by simp
  with u show ?thesis by simp
qed

text \<open>The addresses and indices of the pages of one 2 MiB region.\<close>

lemma region_page:
  assumes "i < 512" "unat (va :: u64) < 2 ^ 48"
  defines "c \<equiv> unat va div 2 ^ 21"
  shows "(va AND NOT 0x1FFFFF) OR push_bit 12 (of_nat i) = of_nat ((c * 512 + i) * 4096)"
    and "unat (of_nat ((c * 512 + i) * 4096) :: u64) div 2 ^ 21 = c"
    and "(of_nat (c * 512 + i) :: pte_index) = of_nat i"
proof -
  have ni: "\<not> bit i j" if "9 \<le> j" for j
  proof -
    have "i < 2 ^ j" using assms(1) power_increasing [OF that, of "2 :: nat"] by simp
    then show ?thesis by (simp add: bit_iff_odd)
  qed
  have "unat (drop_bit 21 va) = c" unfolding c_def unat_drop_bit_eq by (simp only: drop_bit_eq_div)
  then have dc: "drop_bit 21 va = of_nat c" by (metis of_nat_unat ucast_id)
  have m21: "(0x1FFFFF :: u64) = mask 21" by (simp add: mask_eq_exp_minus_1)
  have "va AND NOT 0x1FFFFF = push_bit 21 (drop_bit 21 va)"
    unfolding m21 by (rule bit_word_eqI) (auto simp: bit_simps)
  then have hi: "va AND NOT 0x1FFFFF = push_bit 21 (of_nat c)" by (simp only: dc)
  have lo: "bit (push_bit 12 (of_nat i) :: u64) n \<Longrightarrow> n < 21" for n
    using ni [of "n - 12"] by (cases "n < 21") (auto simp: bit_simps bit_push_bit_iff)
  have "(push_bit 21 (of_nat c) :: u64) OR push_bit 12 (of_nat i) = push_bit 21 (of_nat c) + push_bit 12 (of_nat i)"
    by (rule disjunctive_add_eq_or [symmetric])
      (rule bit_word_eqI, use lo in \<open>fastforce simp: bit_and_iff bit_push_bit_iff [of 21]\<close>)
  also have "\<dots> = of_nat ((c * 512 + i) * 4096)" by (simp add: push_bit_eq_mult algebra_simps)
  finally show "(va AND NOT 0x1FFFFF) OR push_bit 12 (of_nat i) = of_nat ((c * 512 + i) * 4096)"
    unfolding hi .
  have n: "(c * 512 + i) * 4096 = c * 2 ^ 21 + i * 4096" by simp
  have "c * 2 ^ 21 \<le> unat va" by (simp add: c_def)
  moreover have "i * 4096 < 2 ^ 21" using assms(1) by simp
  moreover have "(2 :: nat) ^ 48 + 2 ^ 21 < 2 ^ LENGTH(64)" by simp
  ultimately have "(c * 512 + i) * 4096 < 2 ^ LENGTH(64)" using assms(2) unfolding n by linarith
  from unat_of_nat_small [OF this] \<open>i * 4096 < 2 ^ 21\<close>
  show "unat (of_nat ((c * 512 + i) * 4096) :: u64) div 2 ^ 21 = c" unfolding n by simp
  have z: "(512 :: pte_index) = 0" using word_exp_length_eq_0 [where 'a = 9] by simp
  show "(of_nat (c * 512 + i) :: pte_index) = of_nat i"
    by (simp only: of_nat_add of_nat_mult of_nat_numeral z mult_zero_right add_0)
qed

lemma split_upt: "i \<le> j \<Longrightarrow> j \<le> k \<Longrightarrow> [i..<k] = [i..<j] @ [j..<k]"
  using upt_add_eq_append [of i j "k - j"] by simp

lemma shift_upt: "[n + a..<n + b] = map ((+) n) [a..<b]"
  by (induction b) (auto simp: le_Suc_eq)

lemma l3_idx_page: "l3_idx (of_nat (n * 4096)) = of_nat n"
proof (rule bit_word_eqI)
  fix k assume "k < LENGTH(9)"
  have "(of_nat (n * 4096) :: u64) = push_bit 12 (of_nat n)" by (simp add: push_bit_eq_mult mult.commute)
  then show "bit (l3_idx (of_nat (n * 4096))) k = bit (of_nat n :: pte_index) k"
    using \<open>k < LENGTH(9)\<close> unfolding idx_levels bit_idx by (simp only:) (auto simp: bit_simps)
qed

text \<open>Visiting keeps the tables above the last level.\<close>

lemma fold_region:
  assumes stable: "\<And>l3 p s. P s \<Longrightarrow> range_walk (get s) l0 p = Inr l3 \<Longrightarrow>
      P (op l3 (l3_idx p) p s) \<and> range_walk (get (op l3 (l3_idx p) p s)) l0 = range_walk (get s) l0"
    and va: "unat va < 2 ^ 48" and xs: "\<forall>i \<in> set xs. i < 512"
    and s: "P s" "range_walk (get s) l0 va = Inr l3"
  shows "fold (\<lambda>i. op l3 (of_nat i) ((va AND NOT 0x1FFFFF) OR push_bit 12 (of_nat i))) xs s
    = fold (visit get op l0) (map ((+) (unat va div 2 ^ 21 * 512)) xs) s"
  using xs s
proof (induction xs arbitrary: s)
  case (Cons i xs)
  let ?n = "unat va div 2 ^ 21 * 512 + i"
  let ?p = "of_nat (?n * 4096) :: u64"
  have i: "i < 512" using Cons.prems(1) by simp
  note r = region_page [OF i va]
  have rw: "range_walk (get s) l0 ?p = Inr l3"
    using range_walk_region [OF r(2), of "get s" l0] Cons.prems(3) by simp
  then have "visit get op l0 ?n s = op l3 (of_nat i) ?p s" unfolding visit_def r(3) by simp
  moreover have "P (op l3 (of_nat i) ?p s)" "range_walk (get (op l3 (of_nat i) ?p s)) l0 va = Inr l3"
    using stable [OF Cons.prems(2) rw] Cons.prems(3) unfolding l3_idx_page r(3) by simp_all
  ultimately show ?case using Cons.IH [of "op l3 (of_nat i) ?p s"] Cons.prems(1) r(1) by simp
qed simp

lemma fold_stable:
  assumes stable: "\<And>l3 p s. P s \<Longrightarrow> range_walk (get s) l0 p = Inr l3 \<Longrightarrow>
      P (op l3 (l3_idx p) p s) \<and> range_walk (get (op l3 (l3_idx p) p s)) l0 = range_walk (get s) l0"
    and "P s"
  shows "P (fold (visit get op l0) ns s)
    \<and> range_walk (get (fold (visit get op l0) ns s)) l0 = range_walk (get s) l0"
  using assms(2)
proof (induction ns arbitrary: s)
  case (Cons n ns)
  have "P (visit get op l0 n s) \<and> range_walk (get (visit get op l0 n s)) l0 = range_walk (get s) l0"
    using stable [OF Cons.prems, of "of_nat (n * 4096)"] Cons.prems unfolding l3_idx_page visit_def
    by (simp split: sum.split)
  with Cons.IH [of "visit get op l0 n s"] show ?case by simp
qed simp

lemma page_in_region:
  assumes "a div 4096 \<le> n" "n < (b + 4095) div 4096" "b \<le> (a div 2 ^ j + 1) * 2 ^ j" "12 \<le> j"
  shows "n * 4096 < b" "n * 4096 div 2 ^ j = (a :: nat) div 2 ^ j"
proof -
  from assms(2) show lt: "n * 4096 < b" by linarith
  have j: "(2 :: nat) ^ j = 4096 * 2 ^ (j - 12)"
    using assms(4) power_add [of "2 :: nat" 12 "j - 12"] by simp
  have "n * 4096 div 2 ^ j \<le> a div 2 ^ j"
    using less_mult_imp_div_less [of "n * 4096" "a div 2 ^ j + 1" "2 ^ j"] lt assms(3) by linarith
  moreover have "a div 2 ^ j = a div 4096 div 2 ^ (j - 12)" unfolding j by (rule div_mult2_eq)
  moreover have "n * 4096 div 2 ^ j = n div 2 ^ (j - 12)" unfolding j by (simp add: div_mult2_eq)
  moreover have "a div 4096 div 2 ^ (j - 12) \<le> n div 2 ^ (j - 12)" using assms(1) by (rule div_le_mono)
  ultimately show "n * 4096 div 2 ^ j = a div 2 ^ j" by linarith
qed

lemma unat_low9: "unat (drop_bit 12 (x :: u64) AND 0x1FF) = unat x div 4096 mod 512"
proof -
  have "(0x1FF :: u64) = mask 9" by (simp add: mask_eq_exp_minus_1)
  then have "drop_bit 12 x AND 0x1FF = take_bit 9 (drop_bit 12 x)" by (simp only: take_bit_eq_mask)
  then have "unat (drop_bit 12 x AND 0x1FF) = take_bit 9 (drop_bit 12 (unat x))"
    by (simp only: unsigned_take_bit_eq unat_drop_bit_eq)
  then show ?thesis by (simp add: take_bit_eq_mod drop_bit_eq_div)
qed

text \<open>
  Below the 48 bits an address can have, the loop ends and has visited every page of the range.
\<close>

lemma range_loop_visits:
  assumes stable: "\<And>l3 p s. P s \<Longrightarrow> range_walk (get s) l0 p = Inr l3 \<Longrightarrow>
      P (op l3 (l3_idx p) p s) \<and> range_walk (get (op l3 (l3_idx p) p s)) l0 = range_walk (get s) l0"
    and e: "unat va_end \<le> 2 ^ 48"
  shows "P s \<Longrightarrow> va \<le> va_end \<Longrightarrow> range_loop get op l0 va_end va s =
    Some (fold (visit get op l0) (if va < va_end then page_numbers (unat va) (unat va_end) else []) s)"
proof (induction "unat va_end - unat va" arbitrary: va s rule: less_induct)
  case less
  show ?case
  proof (cases "va < va_end")
    case False
    then show ?thesis by (simp add: range_loop.simps [of _ _ _ _ va])
  next
    case True
    let ?A = "unat va" and ?E = "unat va_end"
    have AE: "?A < ?E" using True by (simp add: word_less_nat_alt)
    then have A: "?A < 2 ^ 48" using e by linarith
    define stop where "stop j = (?A div 2 ^ j + 1) * 2 ^ j" for j :: nat
    have A_stop: "?A < stop j" for j
    proof -
      have "?A = ?A div 2 ^ j * 2 ^ j + ?A mod 2 ^ j" by (rule div_mult_mod_eq [symmetric])
      moreover have "?A mod 2 ^ j < 2 ^ j" by simp
      ultimately show ?thesis unfolding stop_def distrib_right mult_1 by linarith
    qed
    define nxt where "nxt j = min ((va OR mask j) + 1) va_end" for j
    have un: "unat (nxt j) = min (stop j) ?E" if "j \<le> 39" for j
      using unat_or_mask [OF that A] unfolding nxt_def stop_def min_def word_le_nat_alt by simp
    have rest: "range_loop get op l0 va_end (nxt j) t =
        Some (fold (visit get op l0) [(min (stop j) ?E + 4095) div 4096..<(?E + 4095) div 4096] t)"
      if j: "12 \<le> j" "j \<le> 39" and t: "P t" for j t
    proof -
      have u: "unat (nxt j) = min (stop j) ?E" by (rule un [OF j(2)])
      have le: "nxt j \<le> va_end" by (simp add: nxt_def)
      have "unat va_end - unat (nxt j) < unat va_end - ?A" using u AE A_stop [of j] unfolding u min_def by presburger
      from less.hyps [OF this t le] have
        rl: "range_loop get op l0 va_end (nxt j) t =
          Some (fold (visit get op l0) (if nxt j < va_end then page_numbers (unat (nxt j)) ?E else []) t)" .
      show ?thesis
      proof (cases "stop j < ?E")
        case lt: True
        have "(4096 :: nat) dvd 2 ^ j" using le_imp_power_dvd [OF j(1), of "2 :: nat"] by simp
        then have "4096 dvd stop j" unfolding stop_def by (rule dvd_mult)
        then have "stop j div 4096 = (stop j + 4095) div 4096" by (elim dvdE) simp
        moreover have "nxt j < va_end" using u lt by (simp add: word_less_nat_alt)
        ultimately show ?thesis using rl u lt by (simp add: page_numbers_def min_def)
      next
        case False
        then have "\<not> nxt j < va_end" using u by (simp add: word_less_nat_alt min_def)
        with rl False show ?thesis by (simp add: min_def)
      qed
    qed
    have upto: "page_numbers ?A ?E = [?A div 4096..<(min (stop j) ?E + 4095) div 4096]
        @ [(min (stop j) ?E + 4095) div 4096..<(?E + 4095) div 4096]" for j
    proof -
      have "?A div 4096 \<le> (min (stop j) ?E + 4095) div 4096"
        using A_stop [of j] AE by (intro div_le_mono) simp
      moreover have "(min (stop j) ?E + 4095) div 4096 \<le> (?E + 4095) div 4096" by (intro div_le_mono) simp
      ultimately show ?thesis unfolding page_numbers_def by (rule split_upt)
    qed
    show ?thesis
    proof (cases "range_walk (get s) l0 va")
      case (Inl low)
      obtain j where j: "low = mask j" "21 \<le> j" "j \<le> 39"
        "\<And>y. unat y div 2 ^ j = ?A div 2 ^ j \<Longrightarrow> range_walk (get s) l0 y = Inl low"
        using range_walk_skip [OF Inl] by blast
      have "visit get op l0 n s = s" if "n \<in> set [?A div 4096..<(min (stop j) ?E + 4095) div 4096]" for n
      proof -
        from that have n: "?A div 4096 \<le> n" "n < (min (stop j) ?E + 4095) div 4096" by auto
        have "min (stop j) ?E \<le> (?A div 2 ^ j + 1) * 2 ^ j" "12 \<le> j" using j(2) by (simp_all add: stop_def)
        note pr = page_in_region [OF n this]
        have "unat (of_nat (n * 4096) :: u64) = n * 4096"
          by (rule unat_of_nat_small) (use pr(1) e in simp)
        with pr(2) j(4) [of "of_nat (n * 4096)"] show ?thesis by (simp only: visit_def sum.case)
      qed
      then have skip: "fold (visit get op l0) [?A div 4096..<(min (stop j) ?E + 4095) div 4096] s = s"
        by (rule fold_id_on)
      have "range_loop get op l0 va_end va s = range_loop get op l0 va_end (nxt j) s"
        using True Inl by (simp add: range_loop.simps [of _ _ _ _ va] j(1) nxt_def)
      also have "\<dots> = Some (fold (visit get op l0) (page_numbers ?A ?E) s)"
        using rest [of j s] j(2,3) less.prems(1) unfolding upto [of j] fold_append comp_apply skip by simp
      finally show ?thesis using True by simp
    next
      case (Inr l3)
      let ?c = "?A div 2 ^ 21"
      define a where "a = ?A div 4096 mod 512"
      define b where "b = (if nxt 21 = va_end then (?E - 1) div 4096 mod 512 + 1 else 512)"
      have c: "z div 2 ^ 21 = z div 4096 div 512" for z :: nat by (simp flip: div_mult2_eq)
      have ca: "?c * 512 + a = ?A div 4096" unfolding c a_def by simp
      have eq: "nxt 21 = va_end \<longleftrightarrow> ?E \<le> stop 21"
        using un [of 21] by (auto simp: word_unat_eq_iff min_def)
      have cb: "?c * 512 + b = (min (stop 21) ?E + 4095) div 4096"
      proof (cases "?E \<le> stop 21")
        case le: True
        have "(?E - 1) div 2 ^ 21 = ?c"
        proof (rule antisym)
          show "(?E - 1) div 2 ^ 21 \<le> ?c"
            using less_mult_imp_div_less [of "?E - 1" "?c + 1" "2 ^ 21"] le AE unfolding stop_def by simp
          show "?c \<le> (?E - 1) div 2 ^ 21" using AE by (intro div_le_mono) simp
        qed
        then have "?c * 512 + (?E - 1) div 4096 mod 512 = (?E - 1) div 4096"
          using div_mult_mod_eq [of "(?E - 1) div 4096" 512] unfolding c by simp
        moreover have "(?E + 4095) div 4096 = (?E - 1) div 4096 + 1" using AE by simp
        ultimately show ?thesis using le eq by (simp add: b_def min_def)
      next
        case gt: False
        have "(stop 21 + 4095) div 4096 = ?c * 512 + 512" by (simp add: stop_def)
        with gt eq show ?thesis by (simp add: b_def min_def)
      qed
      have "(?E - 1) div 4096 mod 512 < 512" by (rule mod_less_divisor) simp
      then have b512: "b \<le> 512" unfolding b_def by (auto simp only: split: if_split)
      have "unat (va_end - 1) = ?E - 1" using AE by (intro unat_minus_one) auto
      then have "range_loop get op l0 va_end va s = range_loop get op l0 va_end (nxt 21)
          (fold (\<lambda>i. op l3 (of_nat i) ((va AND NOT 0x1FFFFF) OR push_bit 12 (of_nat i))) [a..<b] s)"
        using True Inr
        by (simp add: range_loop.simps [of _ _ _ _ va] unat_low9 a_def b_def nxt_def Let_def mask_eq_exp_minus_1)
      also have "fold (\<lambda>i. op l3 (of_nat i) ((va AND NOT 0x1FFFFF) OR push_bit 12 (of_nat i))) [a..<b] s
          = fold (visit get op l0) [?A div 4096..<(min (stop 21) ?E + 4095) div 4096] s"
        using fold_region [of P get l0 op, OF stable A _ less.prems(1) Inr, of "[a..<b]"] b512
        unfolding ca [symmetric] cb [symmetric] shift_upt by simp
      also have "range_loop get op l0 va_end (nxt 21) \<dots> = Some (fold (visit get op l0) (page_numbers ?A ?E) s)"
        using rest [of 21 "fold (visit get op l0) [?A div 4096..<(min (stop 21) ?E + 4095) div 4096] s"]
          fold_stable [of P get l0 op, OF stable less.prems(1)]
        unfolding upto [of 21] fold_append comp_apply by simp
      finally show ?thesis using True by simp
    qed
  qed
qed

section \<open>Upper tables\<close>

fun uppers :: "nat \<Rightarrow> ptes \<Rightarrow> u64 \<Rightarrow> u64 set" where
  "uppers 0 m a = {}"
| "uppers (Suc n) m a = insert a (\<Union>i \<in> {i. is_table (m a i)}. uppers n m (entry_addr (m a i)))"

lemma uppers_tables: "uppers n m a \<subseteq> tables n m a"
  by (induction n arbitrary: a) auto

lemma leaf_not_upper: "tree n m a \<Longrightarrow> leaf_table n m a va = Some c \<Longrightarrow> c \<notin> uppers n m a"
proof (induction n arbitrary: a)
  case (Suc n)
  let ?i = "idx (Suc n) va"
  from Suc.prems have e: "is_table (m a ?i)" and c: "leaf_table n m (entry_addr (m a ?i)) va = Some c"
    by (simp_all add: Let_def split: if_splits)
  have cin: "c \<in> tables n m (entry_addr (m a ?i))" by (rule leaf_table_in [OF c])
  have "c \<notin> uppers n m (entry_addr (m a j))" if j: "is_table (m a j)" for j
  proof (cases "j = ?i")
    case True
    with Suc.IH [OF _ c] Suc.prems(1) e show ?thesis by simp
  next
    case False
    then have "tables n m (entry_addr (m a ?i)) \<inter> tables n m (entry_addr (m a j)) = {}"
      using Suc.prems(1) e j unfolding tree.simps by (metis (no_types, lifting))
    with cin uppers_tables [of n m "entry_addr (m a j)"] show ?thesis by blast
  qed
  moreover have "c \<noteq> a" using cin e Suc.prems(1) by auto
  ultimately show ?case by auto
qed simp

text \<open>The first three levels of a walk read upper tables only.\<close>

lemma uppers_walk:
  fixes va
  assumes t: "tree 3 m l0"
  defines "e0 \<equiv> m l0 (l0_idx va)"
  defines "e1 \<equiv> m (entry_addr e0) (l1_idx va)"
  shows "l0 \<in> uppers 3 m l0" "valid e0 \<Longrightarrow> entry_addr e0 \<in> uppers 3 m l0"
    "valid e0 \<Longrightarrow> valid e1 \<Longrightarrow> entry_addr e1 \<in> uppers 3 m l0"
proof -
  show "l0 \<in> uppers 3 m l0" by (simp add: levels)
  show "entry_addr e0 \<in> uppers 3 m l0" if "valid e0"
  proof -
    have "is_table e0" using tree_upper(1) [OF t] that by (simp add: is_table_def e0_def)
    then show ?thesis unfolding levels uppers.simps e0_def by blast
  qed
  show "entry_addr e1 \<in> uppers 3 m l0" if "valid e0" "valid e1"
  proof -
    have "is_table e0" "is_table e1"
      using tree_upper [OF t] that by (simp_all add: is_table_def e0_def e1_def)
    then show ?thesis unfolding levels uppers.simps e0_def e1_def by blast
  qed
qed

lemma range_walk_uppers:
  assumes t: "tree 3 m l0" and eq: "\<And>b. b \<in> uppers 3 m l0 \<Longrightarrow> m' b = m b"
  shows "range_walk m' l0 va = range_walk m l0 va"
  using eq [OF uppers_walk(2) [OF t]] eq [OF uppers_walk(3) [OF t]]
  unfolding range_walk_def Let_def eq [OF uppers_walk(1) [OF t]] by simp

lemma range_walk_leaf:
  assumes "tree 3 m l0"
  shows "range_walk m l0 va = Inr c \<longleftrightarrow> leaf_table 3 m l0 va = Some c"
  using view_3(3,4) [OF assms, of va] unfolding view_3(2) [OF assms] range_walk_def Let_def by auto

lemma range_walk_write:
  assumes t: "tree 3 m l0" and c: "range_walk m l0 p = Inr c"
  shows "range_walk (pte_write c i e m) l0 = range_walk m l0"
proof
  fix va
  have "c \<notin> uppers 3 m l0" using leaf_not_upper [OF t] c range_walk_leaf [OF t] by blast
  then show "range_walk (pte_write c i e m) l0 va = range_walk m l0 va"
    by (intro range_walk_uppers [OF t]) (auto simp: pte_write_def)
qed

section \<open>Collecting\<close>

definition range_pages :: "u64 \<Rightarrow> u64 \<Rightarrow> nat list" where
  "range_pages va_start pages =
     (if pages = 0 then [] else page_numbers (unat va_start) (unat va_start + unat pages * 4096))"

abbreviation page_va :: "nat \<Rightarrow> u64" where "page_va n \<equiv> of_nat (n * 4096)"

lemma range_end_small:
  assumes "unat va_start + unat pages * 4096 \<le> 2 ^ 48"
  obtains e where "range_end va_start pages = Some e" "unat e = unat va_start + unat pages * 4096"
    "pages \<noteq> 0 \<Longrightarrow> va_start < e"
proof -
  have b: "(2 :: nat) ^ 48 < 2 ^ 64" by simp
  have "unat pages * 4096 < 2 ^ LENGTH(64)" using assms b unfolding len_num1 by simp
  then have p: "unat (pages * 4096) = unat pages * 4096"
    using unat_mult_lem [of pages 4096] by simp
  have "unat va_start + unat (pages * 4096) < 2 ^ LENGTH(64)" using assms b p by simp
  then have s: "unat (va_start + pages * 4096) = unat va_start + unat pages * 4096"
    using unat_add_lem [of va_start "pages * 4096"] p by simp
  have "range_end va_start pages = Some (va_start + pages * 4096)"
    using assms b p unfolding range_end_def by simp
  moreover have "va_start < va_start + pages * 4096" if "pages \<noteq> 0"
    unfolding word_less_nat_alt s using that by (simp add: unat_gt_0)
  ultimately show thesis using that s by blast
qed

lemma fold_collect:
  assumes "\<And>n r. f n r = (case g n of Some x \<Rightarrow> r @ [x] | None \<Rightarrow> r)"
  shows "fold f ns r = r @ List.map_filter g ns"
  by (induction ns arbitrary: r) (auto simp: assms map_filter_simps split: option.split)

text \<open>The descriptor of a page that is mapped on its own and not as part of a block.\<close>

definition small_page :: "ptes \<Rightarrow> u64 \<Rightarrow> u64 \<Rightarrow> u64 option" where
  "small_page m l0 va =
     (case range_walk m l0 va of
        Inl _ \<Rightarrow> None
      | Inr l3 \<Rightarrow> let e = m l3 (l3_idx va) in if valid e then Some e else None)"

lemma small_page_walks:
  assumes "tree 3 m l0"
  shows "(if in_block m l0 va then None else translate_user_va m l0 va)
      = map_option (\<lambda>e. entry_addr e OR (va AND 0xFFF)) (small_page m l0 va)"
    and "va AND NOT 0xFFF = va \<Longrightarrow>
      (if in_block m l0 va then None else read_l3_page_entry m l0 va) = small_page m l0 va"
  using view_3(3,4) [OF assms, of va]
  unfolding small_page_def range_walk_def translate_user_va_def read_l3_page_entry_def l3_ptr_def in_block_def Let_def
  by (simp_all split: if_split)

lemma page_va_aligned: "page_va n AND NOT 0xFFF = page_va n" "page_va n AND 0xFFF = 0"
proof -
  have p: "page_va n = push_bit 12 (of_nat n)" by (simp add: push_bit_eq_mult mult.commute)
  have m: "(0xFFF :: u64) = mask 12" by (simp add: mask_eq_exp_minus_1)
  show "page_va n AND NOT 0xFFF = page_va n" "page_va n AND 0xFFF = 0"
    unfolding p m by (rule bit_word_eqI, auto simp: bit_simps)+
qed

lemma collect_visits:
  assumes b: "unat va_start + unat pages * 4096 \<le> 2 ^ 48"
    and op: "\<And>l3 n r. op l3 (of_nat n) (page_va n) r =
      (let e = m l3 (of_nat n) in if valid e then r @ [h n e] else r)"
  shows "(if pages = 0 then Some [] else case range_end va_start pages of
            None \<Rightarrow> Some [] | Some va_end \<Rightarrow> range_loop (\<lambda>_. m) op l0 va_end va_start [])
    = Some (List.map_filter (\<lambda>n. map_option (h n) (small_page m l0 (page_va n))) (range_pages va_start pages))"
proof (cases "pages = 0")
  case True
  then show ?thesis by (simp add: range_pages_def map_filter_simps)
next
  case False
  obtain e where e: "range_end va_start pages = Some e" "unat e = unat va_start + unat pages * 4096"
    "va_start < e" using range_end_small [OF b] False by metis
  have "range_loop (\<lambda>_. m) op l0 e va_start []
      = Some (fold (visit (\<lambda>_. m) op l0) (range_pages va_start pages) [])"
    using range_loop_visits [of "\<lambda>_. True" "\<lambda>_. m" l0 op e "[]" va_start] e False b
    by (simp add: range_pages_def)
  also have "fold (visit (\<lambda>_. m) op l0) (range_pages va_start pages) []
      = [] @ List.map_filter (\<lambda>n. map_option (h n) (small_page m l0 (page_va n))) (range_pages va_start pages)"
    by (rule fold_collect) (simp only: visit_def small_page_def l3_idx_page op Let_def split: sum.split option.split, simp)
  finally show ?thesis using e False by simp
qed

lemma range_walk_page:
  assumes "entry_addr x = entry_addr y"
  shows "range_walk m l0 x = range_walk m l0 y"
  unfolding range_walk_def idx_same [OF assms] ..

section \<open>Demoting\<close>

definition read_only :: "u64 \<times> u64 \<Rightarrow> u64 \<times> u64" where
  "read_only v = (fst v, if snd v AND (AP_RO_ALL OR AP_RW_ALL) = AP_RW_ALL
                         then (snd v AND NOT (AP_RO_ALL OR AP_RW_ALL)) OR AP_RO_ALL else snd v)"

definition user_writable :: "(u64 \<times> u64) option \<Rightarrow> bool" where
  "user_writable v \<longleftrightarrow> (case v of None \<Rightarrow> False | Some (_, attrs) \<Rightarrow> attrs AND (AP_RO_ALL OR AP_RW_ALL) = AP_RW_ALL)"

abbreviation has_table :: "ptes \<Rightarrow> u64 \<Rightarrow> u64 \<Rightarrow> bool" where
  "has_table m l0 va \<equiv> (\<exists>l3. range_walk m l0 va = Inr l3)"

lemma demoted_leaf:
  assumes "valid e"
  defines "e' \<equiv> (if e AND (AP_RO_ALL OR AP_RW_ALL) = AP_RW_ALL
                 then (e AND NOT (AP_RO_ALL OR AP_RW_ALL)) OR AP_RO_ALL else e)"
  shows "valid e'" "leaf 0 e' va = read_only (leaf 0 e va)"
    "user_writable (Some (leaf 0 e va)) \<longleftrightarrow> e AND (AP_RO_ALL OR AP_RW_ALL) = AP_RW_ALL"
proof -
  let ?ap = "AP_RO_ALL OR AP_RW_ALL"
  have ap: "?ap = 0xC0" "AP_RO_ALL = 0xC0" "AP_RW_ALL = 0x40" by (simp_all add: flag_defs)
  have at: "(e AND ATTR_MASK) AND ?ap = e AND ?ap" by (simp add: ap and.assoc)
  show "user_writable (Some (leaf 0 e va)) \<longleftrightarrow> e AND ?ap = AP_RW_ALL"
    unfolding user_writable_def leaf_def using at by simp
  have "valid (e AND NOT ?ap) = valid e" by (simp add: valid_def VALID_def ap and.assoc)
  with assms(1) show "valid e'" by (simp add: e'_def valid_or)
  have "((e AND NOT ?ap) OR AP_RO_ALL) AND ADDR_MASK = e AND ADDR_MASK"
    unfolding bit.conj_disj_distrib2 ap by (simp add: and.assoc)
  moreover have "((e AND NOT ?ap) OR AP_RO_ALL) AND ATTR_MASK = ((e AND ATTR_MASK) AND NOT ?ap) OR AP_RO_ALL"
    unfolding bit.conj_disj_distrib2 ap by (simp add: and.assoc)
  ultimately show "leaf 0 e' va = read_only (leaf 0 e va)"
    unfolding e'_def read_only_def leaf_def fst_conv snd_conv at by (simp flip: and.assoc)
qed

lemma demote_visit:
  assumes t: "tree 3 m l0" and n: "entry_addr (page_va n) = page_va n"
    and v: "visit fst demote_entry l0 n (m, c) = (m', c')"
  shows "tree 3 m' l0 \<and> range_walk m' l0 = range_walk m l0
    \<and> (\<forall>va. view 3 m' l0 va = (if entry_addr va = page_va n \<and> has_table m l0 va
          then map_option read_only (view 3 m l0 va) else view 3 m l0 va))
    \<and> c' = c + (if has_table m l0 (page_va n) \<and> user_writable (view 3 m l0 (page_va n)) then 1 else 0)"
proof (cases "range_walk m l0 (page_va n)")
  case (Inl x)
  have "\<not> has_table m l0 va" if "entry_addr va = page_va n" for va
    using Inl range_walk_page [of va "page_va n" m l0] that n by simp
  with Inl v t show ?thesis by (auto simp: visit_def)
next
  case (Inr l3)
  let ?p = "page_va n"
  let ?e = "m l3 (l3_idx ?p)"
  have lt: "leaf_table 3 m l0 ?p = Some l3" using Inr range_walk_leaf [OF t] by blast
  have ht: "has_table m l0 va" if "entry_addr va = ?p" for va
    using Inr range_walk_page [of va ?p m l0] that n by auto
  have vw: "view 3 m l0 va = (if valid ?e then Some (leaf 0 ?e va) else None)" if "entry_addr va = ?p" for va
    using view_same_page [OF lt, of va] that n by (simp add: Let_def idx_levels)
  have d: "demote_entry l3 (l3_idx ?p) ?p (m, c) = (m', c')"
    using v Inr unfolding visit_def fst_conv l3_idx_page by simp
  show ?thesis
  proof (cases "valid ?e \<and> ?e AND (AP_RO_ALL OR AP_RW_ALL) = AP_RW_ALL")
    case False
    with d have "m' = m" "c' = c" by (auto simp: demote_entry_def Let_def split: if_splits)
    moreover have "map_option read_only (view 3 m l0 va) = view 3 m l0 va" if "entry_addr va = ?p" for va
      using False vw [OF that] demoted_leaf(2) [of ?e va] by (auto simp: read_only_def)
    moreover have "\<not> user_writable (view 3 m l0 ?p)"
      using False vw [OF n] demoted_leaf(3) [of ?e ?p] by (auto simp: user_writable_def)
    ultimately show ?thesis using t by auto
  next
    case True
    let ?e' = "(?e AND NOT (AP_RO_ALL OR AP_RW_ALL)) OR AP_RO_ALL"
    from True d have m': "m' = pte_write l3 (l3_idx ?p) ?e' m" and c': "c' = c + 1"
      by (auto simp: demote_entry_def Let_def)
    have dl: "valid ?e'" "\<And>va. leaf 0 ?e' va = read_only (leaf 0 ?e va)"
      using demoted_leaf(1,2) [of ?e] True by simp_all
    note w = view_leaf_write [OF t lt, of ?e']
    have m'2: "m' = pte_write l3 (idx 0 ?p) ?e' m" by (simp only: m' idx_levels)
    have "view 3 m' l0 va = (if entry_addr va = ?p \<and> has_table m l0 va
        then map_option read_only (view 3 m l0 va) else view 3 m l0 va)" for va
      using w(3) [of va] dl vw [of va] ht [of va] n True unfolding m'2 by auto
    moreover have "range_walk m' l0 = range_walk m l0" unfolding m' by (rule range_walk_write [OF t Inr])
    moreover have "user_writable (view 3 m l0 ?p)"
      using True vw [OF n] demoted_leaf(3) [of ?e ?p] by simp
    ultimately show ?thesis using w(1) ht [OF n] c' unfolding m'2 by auto
  qed
qed

lemma demote_visits:
  assumes "tree 3 m l0" "distinct ns" "\<forall>n \<in> set ns. entry_addr (page_va n) = page_va n"
    "inj_on (\<lambda>n. page_va n) (set ns)" "fold (visit fst demote_entry l0) ns (m, c) = (m', c')"
  shows "tree 3 m' l0 \<and> range_walk m' l0 = range_walk m l0
    \<and> (\<forall>va. view 3 m' l0 va = (if entry_addr va \<in> page_va ` set ns \<and> has_table m l0 va
          then map_option read_only (view 3 m l0 va) else view 3 m l0 va))
    \<and> c' = c + length (filter (\<lambda>n. has_table m l0 (page_va n) \<and> user_writable (view 3 m l0 (page_va n))) ns)"
  using assms
proof (induction ns arbitrary: m c)
  case (Cons n ns)
  obtain m1 c1 where v: "visit fst demote_entry l0 n (m, c) = (m1, c1)"
    by (cases "visit fst demote_entry l0 n (m, c)")
  have n: "entry_addr (page_va n) = page_va n" using Cons.prems(3) by simp
  from demote_visit [OF Cons.prems(1) n v] have
    d: "tree 3 m1 l0" "range_walk m1 l0 = range_walk m l0"
    and dv: "\<And>va. view 3 m1 l0 va = (if entry_addr va = page_va n \<and> has_table m l0 va
          then map_option read_only (view 3 m l0 va) else view 3 m l0 va)"
    and dc: "c1 = c + (if has_table m l0 (page_va n) \<and> user_writable (view 3 m l0 (page_va n)) then 1 else 0)"
    by blast+
  have nn: "page_va n \<notin> page_va ` set ns" using Cons.prems(2,4) by (auto simp: inj_on_def)
  have "fold (visit fst demote_entry l0) ns (m1, c1) = (m', c')" using Cons.prems(5) v by simp
  from Cons.IH [OF d(1) _ _ _ this] Cons.prems(2,3,4) have
    i: "tree 3 m' l0" "range_walk m' l0 = range_walk m1 l0"
    and iv: "\<And>va. view 3 m' l0 va = (if entry_addr va \<in> page_va ` set ns \<and> has_table m1 l0 va
          then map_option read_only (view 3 m1 l0 va) else view 3 m1 l0 va)"
    and ic: "c' = c1 + length (filter (\<lambda>n. has_table m1 l0 (page_va n) \<and> user_writable (view 3 m1 l0 (page_va n))) ns)"
    by (auto simp: inj_on_def)
  have "view 3 m1 l0 (page_va k) = view 3 m l0 (page_va k)" if "k \<in> set ns" for k
  proof -
    have "page_va k \<noteq> page_va n" using nn that by (metis imageI)
    moreover have "entry_addr (page_va k) = page_va k" using Cons.prems(3) that by simp
    ultimately show ?thesis using dv [of "page_va k"] by simp
  qed
  then have "filter (\<lambda>n. has_table m1 l0 (page_va n) \<and> user_writable (view 3 m1 l0 (page_va n))) ns
      = filter (\<lambda>n. has_table m l0 (page_va n) \<and> user_writable (view 3 m l0 (page_va n))) ns"
    by (intro filter_cong) (simp_all add: d(2))
  moreover have "view 3 m' l0 va = (if entry_addr va \<in> page_va ` set (n # ns) \<and> has_table m l0 va
          then map_option read_only (view 3 m l0 va) else view 3 m l0 va)" for va
    using iv [of va] dv [of va] nn unfolding d(2) by auto
  ultimately show ?case using i d(2) ic dc by simp
qed simp

end
