(* ===== verification/Mmu_Lifetime.thy ===== *)
theory Mmu_Lifetime
  imports Mmu_Steps
begin

text \<open>
  Birth and death of address spaces: the allocator of address space identifiers,
  \<open>crates/akuma-exec/src/mmu/asid.rs\<close>, and the sharing of one set of tables by the threads of a
  process (\<open>UserAddressSpace::new_shared\<close> and the \<open>Drop\<close> of \<open>mmu/mod.rs\<close>), in which the last one
  out frees the frames.
\<close>

section \<open>Address space identifiers\<close>

definition MAX_ASID :: nat where "MAX_ASID = 256"

record asid_allocator =
  next_asid :: nat
  used :: "u64 list"

definition AsidAllocator_new :: asid_allocator where
  "AsidAllocator_new = \<lparr>next_asid = 1, used = [0, 0, 0, 0]\<rparr>"

definition bump_asid :: "nat \<Rightarrow> nat" where
  "bump_asid a = (if a + 1 \<ge> MAX_ASID then 1 else a + 1)"

partial_function (option) asid_loop ::
    "nat \<Rightarrow> nat \<Rightarrow> asid_allocator \<Rightarrow> (nat option \<times> asid_allocator) option" where
  "asid_loop start a s =
     (let word = a div 64; b = a mod 64 in
      if word < length (used s) \<and> used s ! word AND push_bit b 1 = 0
      then Some (Some a, s\<lparr>used := (used s)[word := used s ! word OR push_bit b 1], next_asid := bump_asid a\<rparr>)
      else let a' = bump_asid a in
           if a' = start then Some (None, s) else asid_loop start a' s)"

definition asid_alloc :: "asid_allocator \<Rightarrow> (nat option \<times> asid_allocator) option" where
  "asid_alloc s = (let start = next_asid s in asid_loop start start s)"

definition asid_free :: "nat \<Rightarrow> asid_allocator \<Rightarrow> asid_allocator" where
  "asid_free a s =
     (if a > 0 \<and> a < MAX_ASID
      then let word = a div 64; b = a mod 64 in
           if word < length (used s) then s\<lparr>used := (used s)[word := used s ! word AND NOT (push_bit b 1)]\<rparr> else s
      else s)"

subsection \<open>What the allocator promises\<close>

definition asid_wf :: "asid_allocator \<Rightarrow> bool" where
  "asid_wf s \<longleftrightarrow> length (used s) = 4 \<and> 0 < next_asid s \<and> next_asid s < MAX_ASID"

definition in_use :: "asid_allocator \<Rightarrow> nat \<Rightarrow> bool" where
  "in_use s a \<longleftrightarrow> bit (used s ! (a div 64)) (a mod 64)"

lemma free_bit: "(w :: u64) AND push_bit b 1 = 0 \<longleftrightarrow> \<not> bit w b" if "b < 64"
proof -
  have "w AND push_bit b 1 = (if bit w b then push_bit b 1 else 0)"
    by (rule bit_word_eqI) (use that in \<open>auto simp: bit_simps\<close>)
  moreover have "bit (push_bit b 1 :: u64) b" using that by (simp add: bit_simps)
  then have "(push_bit b 1 :: u64) \<noteq> 0" by (metis bit_0_eq bot_apply bot_bool_def)
  ultimately show ?thesis by simp
qed

lemma in_use_set:
  assumes "x < 256" "y < 256" "length (used s) = 4"
  shows "in_use (s\<lparr>used := (used s)[x div 64 := used s ! (x div 64) OR push_bit (x mod 64) 1], next_asid := n\<rparr>) y
    \<longleftrightarrow> y = x \<or> in_use s y"
    and "in_use (s\<lparr>used := (used s)[x div 64 := used s ! (x div 64) AND NOT (push_bit (x mod 64) 1)]\<rparr>) y
    \<longleftrightarrow> y \<noteq> x \<and> in_use s y"
proof -
  have w: "x div 64 < length (used s)" using assms by simp
  have eq: "y = x \<longleftrightarrow> y div 64 = x div 64 \<and> y mod 64 = x mod 64"
    by (metis div_mult_mod_eq)
  have b: "x mod 64 < 64" "y mod 64 < 64" by simp_all
  show "in_use (s\<lparr>used := (used s)[x div 64 := used s ! (x div 64) OR push_bit (x mod 64) 1], next_asid := n\<rparr>) y
    \<longleftrightarrow> y = x \<or> in_use s y"
    unfolding in_use_def eq using w b
    by (cases "y div 64 = x div 64") (auto simp: bit_or_iff bit_push_bit_iff bit_1_iff)
  show "in_use (s\<lparr>used := (used s)[x div 64 := used s ! (x div 64) AND NOT (push_bit (x mod 64) 1)]\<rparr>) y
    \<longleftrightarrow> y \<noteq> x \<and> in_use s y"
    unfolding in_use_def eq using w b
    by (cases "y div 64 = x div 64") (auto simp: bit_and_iff bit_not_iff bit_push_bit_iff bit_1_iff)
qed

text \<open>The identifiers after a given one, in the order of the search.\<close>

fun bumps :: "nat \<Rightarrow> nat \<Rightarrow> nat" where
  "bumps 0 a = a"
| "bumps (Suc n) a = bump_asid (bumps n a)"

lemma bumps_mod:
  assumes "0 < a" "a < 256"
  shows "bumps n a = (a - 1 + n) mod 255 + 1"
proof (induction n)
  case 0
  then show ?case using assms by simp
next
  case (Suc n)
  have "(a - 1 + n) mod 255 < 255" by simp
  then show ?case using Suc by (auto simp: bump_asid_def MAX_ASID_def mod_Suc)
qed

lemma asid_loop_runs:
  assumes l: "length (used s) = 4" and a: "0 < start" "start < 256"
    and n: "n < 255" and before: "\<forall>k < n. in_use s (bumps k start)"
  shows "asid_loop start (bumps n start) s =
    (case find (\<lambda>k. \<not> in_use s (bumps k start)) [n..<255] of
       None \<Rightarrow> Some (None, s)
     | Some k \<Rightarrow> let x = bumps k start in
         Some (Some x, s\<lparr>used := (used s)[x div 64 := used s ! (x div 64) OR push_bit (x mod 64) 1],
                         next_asid := bump_asid x\<rparr>))"
  using n before
proof (induction "254 - n" arbitrary: n rule: less_induct)
  case less
  let ?x = "bumps n start"
  have x: "0 < ?x" "?x < 256" using bumps_mod [OF a] by (simp_all add: less_Suc_eq_le) 
  have free: "?x div 64 < length (used s) \<and> used s ! (?x div 64) AND push_bit (?x mod 64) 1 = 0 \<longleftrightarrow> \<not> in_use s ?x"
    using x l free_bit [of "?x mod 64" "used s ! (?x div 64)"] by (auto simp: in_use_def)
  have upt: "[n..<255] = n # [Suc n..<255]" using less.prems(1) by (simp add: upt_conv_Cons)
  show ?case
  proof (cases "in_use s ?x")
    case False
    with free show ?thesis
      by (subst asid_loop.simps) (simp add: upt Let_def)
  next
    case True
    have st: "asid_loop start ?x s = (if bumps (Suc n) start = start then Some (None, s)
        else asid_loop start (bumps (Suc n) start) s)"
      unfolding asid_loop.simps [of start ?x] Let_def free using True by simp
    show ?thesis
    proof (cases "n = 254")
      case n254: True
      have "(start - 1 + 255) mod 255 = start - 1" unfolding mod_add_self2 using a by (intro mod_less) simp
      then have "bumps (Suc n) start = start" using bumps_mod [OF a, of "Suc n"] a n254 by simp
      with st True n254 show ?thesis by simp
    next
      case False
      then have n': "Suc n < 255" using less.prems(1) by simp
      have "bumps (Suc n) start \<noteq> start"
      proof
        assume "bumps (Suc n) start = start"
        then have "(start - 1 + Suc n) mod 255 + 1 = start" unfolding bumps_mod [OF a] .
        then have "(start - 1 + Suc n) mod 255 = start - 1" by linarith
        moreover have "start - 1 < 255" using a by simp
        ultimately show False using n' by (auto simp: mod_if split: if_splits)
      qed
      moreover have "\<forall>k < Suc n. in_use s (bumps k start)" using less.prems(2) True less_Suc_eq by auto
      ultimately show ?thesis using less.hyps [OF _ n'] st True n' by (simp add: upt del: bumps.simps)
    qed
  qed
qed

lemma bumps_cover:
  assumes a: "0 < start" "start < 256" and x: "0 < x" "x < 256"
  obtains k where "k < 255" "bumps k start = x"
proof -
  define k where "k = (if start \<le> x then x - start else x + 255 - start)"
  have k: "k < 255" using a x by (auto simp: k_def)
  have "(start - 1 + k) mod 255 = x - 1"
  proof (cases "start \<le> x")
    case True
    then have "start - 1 + k = x - 1" using a x by (simp add: k_def)
    then show ?thesis using x by simp
  next
    case False
    then have "start - 1 + k = x - 1 + 255" using a x by (simp add: k_def)
    then have "(start - 1 + k) mod 255 = (x - 1) mod 255" by (simp only: mod_add_self2)
    then show ?thesis using x by simp
  qed
  with bumps_mod [OF a, of k] x have "bumps k start = x" by simp
  with k that show thesis by blast
qed

lemma asid_alloc_exact:
  assumes wf: "asid_wf s"
  obtains r s' where "asid_alloc s = Some (r, s')" "asid_wf s'"
    "case r of
       None \<Rightarrow> s' = s \<and> (\<forall>x. 0 < x \<and> x < MAX_ASID \<longrightarrow> in_use s x)
     | Some x \<Rightarrow> 0 < x \<and> x < MAX_ASID \<and> \<not> in_use s x
         \<and> (\<forall>y < MAX_ASID. in_use s' y \<longleftrightarrow> y = x \<or> in_use s y)"
proof -
  let ?st = "next_asid s"
  have l: "length (used s) = 4" and a: "0 < ?st" "?st < 256" using wf by (simp_all add: asid_wf_def MAX_ASID_def)
  have run: "asid_alloc s = (case find (\<lambda>k. \<not> in_use s (bumps k ?st)) [0..<255] of
       None \<Rightarrow> Some (None, s)
     | Some k \<Rightarrow> let x = bumps k ?st in
         Some (Some x, s\<lparr>used := (used s)[x div 64 := used s ! (x div 64) OR push_bit (x mod 64) 1],
                         next_asid := bump_asid x\<rparr>))"
    using asid_loop_runs [OF l a, of 0] unfolding asid_alloc_def Let_def by simp
  show thesis
  proof (cases "find (\<lambda>k. \<not> in_use s (bumps k ?st)) [0..<255]")
    case None
    then have all: "\<forall>k < 255. in_use s (bumps k ?st)" by (auto simp: find_None_iff)
    have "in_use s x" if "0 < x" "x < MAX_ASID" for x
      using bumps_cover [OF a that(1)] that(2) all unfolding MAX_ASID_def by metis
    with None run wf show thesis by (intro that [of None s]) auto
  next
    case (Some k)
    let ?x = "bumps k ?st"
    let ?s = "s\<lparr>used := (used s)[?x div 64 := used s ! (?x div 64) OR push_bit (?x mod 64) 1], next_asid := bump_asid ?x\<rparr>"
    from Some have f: "\<not> in_use s ?x" by (auto simp: find_Some_iff)
    have "(?st - 1 + k) mod 255 < 255" by (rule mod_less_divisor) simp
    then have x: "0 < ?x" "?x < 256" unfolding bumps_mod [OF a] by simp_all
    have "asid_wf ?s" using l x by (auto simp: asid_wf_def bump_asid_def MAX_ASID_def)
    moreover have "in_use ?s y \<longleftrightarrow> y = ?x \<or> in_use s y" if "y < MAX_ASID" for y
      using in_use_set(1) [OF x(2) _ l, of y] that by (simp add: MAX_ASID_def)
    ultimately show thesis
      using Some run f x by (intro that [of "Some ?x" ?s]) (simp_all add: Let_def MAX_ASID_def)
  qed
qed

lemma asid_free_exact:
  assumes wf: "asid_wf s" and a: "0 < a" "a < MAX_ASID"
  shows "asid_wf (asid_free a s)" "y < MAX_ASID \<Longrightarrow> in_use (asid_free a s) y \<longleftrightarrow> y \<noteq> a \<and> in_use s y"
proof -
  have l: "length (used s) = 4" using wf by (simp add: asid_wf_def)
  have w: "a div 64 < 4" using a by (simp add: MAX_ASID_def)
  show "asid_wf (asid_free a s)" using wf by (simp add: asid_wf_def asid_free_def Let_def)
  show "in_use (asid_free a s) y \<longleftrightarrow> y \<noteq> a \<and> in_use s y" if "y < MAX_ASID"
    using in_use_set(2) [of a y s] a that l w unfolding asid_free_def MAX_ASID_def Let_def by simp
qed

section \<open>Shared tables\<close>

record shared_l0_entry =
  ref_count :: nat
  deferred_user_frames :: "(u64 \<times> u32) list option"
  deferred_pt_frames :: "u64 list option"
  deferred_l0 :: "u64 option"

text \<open>\<open>SHARED_L0_TABLE\<close>, and the frames handed to \<open>free_page\<close> in order.\<close>

record lifetimes =
  SHARED_L0_TABLE :: "u64 \<Rightarrow> shared_l0_entry option"
  freed :: "u64 list"

definition new_shared :: "u64 \<Rightarrow> lifetimes \<Rightarrow> lifetimes" where
  "new_shared parent_l0_phys w =
     w\<lparr>SHARED_L0_TABLE := (SHARED_L0_TABLE w)(parent_l0_phys \<mapsto>
        (case SHARED_L0_TABLE w parent_l0_phys of
           Some e \<Rightarrow> e\<lparr>ref_count := ref_count e + 1\<rparr>
         | None \<Rightarrow> \<lparr>ref_count = 1, deferred_user_frames = None, deferred_pt_frames = None, deferred_l0 = None\<rparr>))\<rparr>"

text \<open>The owner's drop: the test under the first lock, and what follows it.\<close>

definition owner_has_shared :: "user_address_space \<Rightarrow> lifetimes \<Rightarrow> bool" where
  "owner_has_shared s w \<longleftrightarrow> (case SHARED_L0_TABLE w (l0_frame s) of Some e \<Rightarrow> ref_count e > 0 | None \<Rightarrow> False)"

definition frames_of :: "(u64 \<times> u32) list \<Rightarrow> u64 list \<Rightarrow> u64 \<Rightarrow> u64 list" where
  "frames_of uf pf l0 = map fst uf @ pf @ [l0]"

definition owner_finish :: "bool \<Rightarrow> user_address_space \<Rightarrow> lifetimes \<Rightarrow> lifetimes" where
  "owner_finish has_shared s w =
     (if has_shared
      then (case SHARED_L0_TABLE w (l0_frame s) of
              Some e \<Rightarrow> w\<lparr>SHARED_L0_TABLE := (SHARED_L0_TABLE w)(l0_frame s \<mapsto>
                  e\<lparr>deferred_user_frames := Some (user_frames s), deferred_pt_frames := Some (page_table_frames s),
                    deferred_l0 := Some (l0_frame s)\<rparr>)\<rparr>
            | None \<Rightarrow> w)
      else w\<lparr>freed := freed w @ frames_of (user_frames s) (page_table_frames s) (l0_frame s),
             SHARED_L0_TABLE := (SHARED_L0_TABLE w)(l0_frame s := None)\<rparr>)"

definition drop_owner :: "user_address_space \<Rightarrow> lifetimes \<Rightarrow> lifetimes" where
  "drop_owner s w = owner_finish (owner_has_shared s w) s w"

definition drop_shared :: "u64 \<Rightarrow> lifetimes \<Rightarrow> lifetimes" where
  "drop_shared l0_addr w =
     (case SHARED_L0_TABLE w l0_addr of
        None \<Rightarrow> w
      | Some e \<Rightarrow>
          let e1 = e\<lparr>ref_count := ref_count e - 1\<rparr> in
          if ref_count e1 = 0 \<and> deferred_l0 e1 \<noteq> None
          then (case (deferred_user_frames e1, deferred_pt_frames e1, deferred_l0 e1) of
                  (Some uf, Some pf, Some l0) \<Rightarrow>
                    w\<lparr>SHARED_L0_TABLE := (SHARED_L0_TABLE w)(l0_addr := None),
                      freed := freed w @ frames_of uf pf l0\<rparr>
                | _ \<Rightarrow> w\<lparr>SHARED_L0_TABLE := (SHARED_L0_TABLE w)(l0_addr := None)\<rparr>)
          else if ref_count e1 = 0 \<and> deferred_l0 e1 = None
          then w\<lparr>SHARED_L0_TABLE := (SHARED_L0_TABLE w)(l0_addr := None)\<rparr>
          else w\<lparr>SHARED_L0_TABLE := (SHARED_L0_TABLE w)(l0_addr \<mapsto> e1)\<rparr>)"

text \<open>
  A process's life: threads come and go while at least one view of the tables exists, and the
  owner goes once.
\<close>

datatype life_op = NewThread | DropThread | DropOwner

fun life_step :: "user_address_space \<Rightarrow> life_op \<Rightarrow> lifetimes \<Rightarrow> lifetimes" where
  "life_step s NewThread w = new_shared (l0_frame s) w"
| "life_step s DropThread w = drop_shared (l0_frame s) w"
| "life_step s DropOwner w = drop_owner s w"

fun life_ok :: "life_op list \<Rightarrow> nat \<Rightarrow> bool \<Rightarrow> bool" where
  "life_ok [] n alive \<longleftrightarrow> True"
| "life_ok (NewThread # ops) n alive \<longleftrightarrow> (alive \<or> n > 0) \<and> life_ok ops (n + 1) alive"
| "life_ok (DropThread # ops) n alive \<longleftrightarrow> n > 0 \<and> life_ok ops (n - 1) alive"
| "life_ok (DropOwner # ops) n alive \<longleftrightarrow> alive \<and> life_ok ops n False"

definition over :: "life_op list \<Rightarrow> nat \<Rightarrow> bool \<Rightarrow> bool" where
  "over ops n alive \<longleftrightarrow>
     (\<not> alive \<or> DropOwner \<in> set ops)
     \<and> n + length (filter ((=) NewThread) ops) = length (filter ((=) DropThread) ops)"

text \<open>The state the table is in when \<open>n\<close> views exist.\<close>

definition life_inv :: "user_address_space \<Rightarrow> nat \<Rightarrow> bool \<Rightarrow> u64 list \<Rightarrow> lifetimes \<Rightarrow> bool" where
  "life_inv s n alive fs w \<longleftrightarrow>
     SHARED_L0_TABLE w (l0_frame s) =
       (if n = 0 then None
        else Some \<lparr>ref_count = n,
                   deferred_user_frames = (if alive then None else Some (user_frames s)),
                   deferred_pt_frames = (if alive then None else Some (page_table_frames s)),
                   deferred_l0 = (if alive then None else Some (l0_frame s))\<rparr>)
     \<and> freed w = fs @ (if alive \<or> n > 0 then [] else frames_of (user_frames s) (page_table_frames s) (l0_frame s))"

lemma life_step_inv:
  assumes "life_inv s n alive fs w"
  shows "alive \<or> n > 0 \<Longrightarrow> life_inv s (n + 1) alive fs (life_step s NewThread w)"
    and "n > 0 \<Longrightarrow> life_inv s (n - 1) alive fs (life_step s DropThread w)"
    and "alive \<Longrightarrow> life_inv s n False fs (life_step s DropOwner w)"
  using assms
  by (auto simp: life_inv_def new_shared_def drop_shared_def drop_owner_def owner_has_shared_def
      owner_finish_def Let_def split: if_splits)

lemma life_run:
  assumes "life_inv s n alive fs w" "alive \<or> n > 0" "life_ok ops n alive"
  shows "freed (fold (life_step s) ops w) = fs @ (if over ops n alive
    then frames_of (user_frames s) (page_table_frames s) (l0_frame s) else [])"
  using assms
proof (induction ops arbitrary: n alive w)
  case Nil
  then show ?case by (auto simp: life_inv_def over_def)
next
  case (Cons op ops)
  note st = life_step_inv [OF Cons.prems(1)]
  show ?case
  proof (cases op)
    case NewThread
    with Cons.IH [OF st(1)] Cons.prems(2,3) show ?thesis by (simp add: over_def)
  next
    case DropThread
    with Cons.prems(3) have n: "n > 0" "life_ok ops (n - 1) alive" by simp_all
    have ov: "over (op # ops) n alive = over ops (n - 1) alive" using n DropThread by (auto simp: over_def)
    show ?thesis
    proof (cases "alive \<or> n - 1 > 0")
      case True
      with Cons.IH [OF st(2) [OF n(1)] True n(2)] ov DropThread show ?thesis by simp
    next
      case False
      then have n1: "n - 1 = 0" "\<not> alive" by simp_all
      with n(2) have "ops = []" by (cases ops rule: list.exhaust; cases "hd ops") auto
      with st(2) [OF n(1)] n1 DropThread ov show ?thesis by (simp add: life_inv_def over_def)
    qed
  next
    case DropOwner
    with Cons.prems(3) have al: "alive" "life_ok ops n False" by simp_all
    have ov: "over (op # ops) n alive = over ops n False" using DropOwner by (simp add: over_def)
    show ?thesis
    proof (cases "n > 0")
      case True
      with Cons.IH [OF st(3) [OF al(1)] _ al(2)] ov DropOwner show ?thesis by simp
    next
      case False
      with al(2) have "ops = []" by (cases ops rule: list.exhaust; cases "hd ops") auto
      with st(3) [OF al(1)] False DropOwner ov show ?thesis by (simp add: life_inv_def over_def)
    qed
  qed
qed

end
