(* ===== verification/Mmu_Syscall.thy ===== *)
theory Mmu_Syscall
  imports Mmu_Ranges Mmu_Lifetime Sys_Call
begin

text \<open>
  \<open>mprotect\<close> of \<open>src/syscall/mem.rs\<close> on the page tables, and the properties of page tables, address
  spaces and their life times.
\<close>

section \<open>Changing the protection of a range\<close>

text \<open>
  The recorded protection of lazily mapped regions lives in the process table; its update is the
  argument \<open>lazy\<close>. Cache maintenance after adding execute permission is not modelled.
\<close>

definition mprotect_page :: "u64 \<Rightarrow> u64 \<Rightarrow> nat \<Rightarrow> 'p space \<Rightarrow> 'p space" where
  "mprotect_page new_flags a i sk =
     (let va = a + of_nat i * 4096
      in if is_mapped va sk then snd (update_page_flags_no_flush va new_flags sk) else sk)"

definition sys_mprotect ::
    "(u64 \<Rightarrow> nat \<Rightarrow> u64 \<Rightarrow> 'l \<Rightarrow> 'l) \<Rightarrow> u64 \<Rightarrow> u64 \<Rightarrow> u32 \<Rightarrow> 'l \<times> 'p space option \<Rightarrow> u64 \<times> 'l \<times> 'p space option" where
  "sys_mprotect lazy a len prot w =
     (if len = 0 then (0, w)
      else if a AND 0xFFF \<noteq> 0 then (EINVAL, w)
      else let pages = div_ceil (unat len) 4096; new_flags = from_prot prot in
           case w of
             (l, Some sk) \<Rightarrow> (0, lazy a (pages * 4096) new_flags l, Some (fold (mprotect_page new_flags a) [0..<pages] sk))
           | (l, None) \<Rightarrow> (EINVAL, w))"

lemma from_prot_perms: "from_prot prot AND PERM_MASK = from_prot prot"
  by (simp add: from_prot_def user_NONE_def user_RW_NO_EXEC_def user_RX_def user_RO_def PERM_MASK_def flag_defs)

text \<open>No protection a program can ask for is both writable and executable at its level.\<close>

lemma from_prot_w_xor_x: "from_prot prot AND (AP_RO_ALL OR AP_RW_ALL) = AP_RW_ALL \<Longrightarrow> from_prot prot AND UXN \<noteq> 0"
  by (auto simp: from_prot_def user_NONE_def user_RW_NO_EXEC_def user_RX_def user_RO_def flag_defs split: if_splits)

lemma in_block_write:
  assumes t: "tree 3 m l0" and c: "leaf_table 3 m l0 p = Some c"
  shows "in_block (pte_write c i e m) l0 va = in_block m l0 va"
proof -
  have up: "pte_write c i e m b = m b" if "b \<in> uppers 3 m l0" for b
    using leaf_not_upper [OF t c] that by (auto simp: pte_write_def)
  show ?thesis
    using up [OF uppers_walk(2) [OF t, of va]] up [OF uppers_walk(3) [OF t, of va]]
    unfolding in_block_def Let_def up [OF uppers_walk(1) [OF t]] by auto
qed

lemma update_keeps_blocks:
  assumes t: "tree 3 (tabs k) (l0_frame s)" and nb: "\<not> in_block (tabs k) (l0_frame s) va"
    and u: "update_page_flags_no_flush va nf (s, k) = (r, s', k')"
  shows "in_block (tabs k') (l0_frame s) x = in_block (tabs k) (l0_frame s) x"
proof (cases "l3_ptr (tabs k) (l0_frame s) va")
  case None
  with u show ?thesis by (auto simp: update_page_flags_no_flush_def)
next
  case (Some c)
  then have c: "leaf_table 3 (tabs k) (l0_frame s) va = Some c" using l3_ptr_leaf [OF t nb] by simp
  from u Some in_block_write [OF t c] show ?thesis
    by (auto simp: update_page_flags_no_flush_def write_entry_def Let_def split: if_splits)
qed

lemma with_perms_twice: "nf AND PERM_MASK = nf \<Longrightarrow> with_perms nf (with_perms nf v) = with_perms nf v"
proof -
  assume nf: "nf AND PERM_MASK = nf"
  have "nf AND NOT PERM_MASK = (nf AND PERM_MASK) AND NOT PERM_MASK" by (simp only: nf)
  also have "\<dots> = nf AND (PERM_MASK AND NOT PERM_MASK)" by (rule and.assoc)
  finally have "nf AND NOT PERM_MASK = 0" by simp
  then show ?thesis by (simp add: with_perms_def bit.conj_disj_distrib2 and.assoc)
qed

lemma mprotect_page_step:
  assumes t: "tree 3 (tabs k) (l0_frame s)" and nf: "nf AND PERM_MASK = nf"
    and nb: "\<not> in_block (tabs k) (l0_frame s) (a + of_nat i * 4096)"
    and p: "mprotect_page nf a i (s, k) = (s', k')"
  shows "s' = s" "page_change (l0_frame s) (a + of_nat i * 4096) (map_option (with_perms nf)) k k'"
    "in_block (tabs k') (l0_frame s) = in_block (tabs k) (l0_frame s)"
proof -
  let ?va = "a + of_nat i * 4096"
  obtain r s1 k1 where u: "update_page_flags_no_flush ?va nf (s, k) = (r, s1, k1)"
    by (cases "update_page_flags_no_flush ?va nf (s, k)") auto
  have "s' = s \<and> page_change (l0_frame s) ?va (map_option (with_perms nf)) k k'
    \<and> in_block (tabs k') (l0_frame s) = in_block (tabs k) (l0_frame s)"
  proof (cases "is_mapped ?va (s, k)")
    case True
    with p u have "s' = s1" "k' = k1" by (simp_all add: mprotect_page_def Let_def)
    with update_flags_view [OF t nb nf u] update_keeps_blocks [OF t nb u] show ?thesis by auto
  next
    case False
    with p have "s' = s" "k' = k" by (simp_all add: mprotect_page_def Let_def)
    moreover have "view 3 (tabs k) (l0_frame s) va' = None" if e: "entry_addr va' = entry_addr ?va" for va'
    proof -
      have "is_page_mapped_ptr (tabs k) (l0_frame s) va' = is_page_mapped_ptr (tabs k) (l0_frame s) ?va"
        unfolding is_page_mapped_ptr_def idx_same [OF e] ..
      with False show ?thesis
        using mapped_view [OF t, of va'] by (cases "view 3 (tabs k) (l0_frame s) va'") (simp_all add: is_mapped_def)
    qed
    ultimately show ?thesis using t by (auto simp: page_change_def)
  qed
  then show "s' = s" "page_change (l0_frame s) ?va (map_option (with_perms nf)) k k'"
    "in_block (tabs k') (l0_frame s) = in_block (tabs k) (l0_frame s)" by blast+
qed

lemma mprotect_pages:
  assumes "tree 3 (tabs k) (l0_frame s)" "nf AND PERM_MASK = nf"
    "\<forall>i \<in> set js. \<not> in_block (tabs k) (l0_frame s) (a + of_nat i * 4096)"
    "fold (mprotect_page nf a) js (s, k) = (s', k')"
  shows "s' = s \<and> pool k' = pool k \<and> tree 3 (tabs k') (l0_frame s)
    \<and> tables 3 (tabs k') (l0_frame s) = tables 3 (tabs k) (l0_frame s)
    \<and> (\<forall>va. view 3 (tabs k') (l0_frame s) va =
          (if \<exists>i \<in> set js. entry_addr va = entry_addr (a + of_nat i * 4096)
           then map_option (with_perms nf) (view 3 (tabs k) (l0_frame s) va) else view 3 (tabs k) (l0_frame s) va))"
  using assms(1,3,4)
proof (induction js arbitrary: k)
  case (Cons i js)
  obtain s1 k1 where p: "mprotect_page nf a i (s, k) = (s1, k1)" by (cases "mprotect_page nf a i (s, k)")
  have "\<not> in_block (tabs k) (l0_frame s) (a + of_nat i * 4096)" using Cons.prems(2) by simp
  note st = mprotect_page_step [OF Cons.prems(1) assms(2) this p]
  from st(2) have pc: "pool k1 = pool k" "tree 3 (tabs k1) (l0_frame s)"
    "tables 3 (tabs k1) (l0_frame s) = tables 3 (tabs k) (l0_frame s)"
    and pv: "\<And>va. view 3 (tabs k1) (l0_frame s) va = (if entry_addr va = entry_addr (a + of_nat i * 4096)
      then map_option (with_perms nf) (view 3 (tabs k) (l0_frame s) va) else view 3 (tabs k) (l0_frame s) va)"
    by (simp_all add: page_change_def)
  have "fold (mprotect_page nf a) js (s, k1) = (s', k')" using Cons.prems(3) p st(1) by simp
  from Cons.IH [OF pc(2) _ this] Cons.prems(2) have
    ih: "s' = s" "pool k' = pool k1" "tree 3 (tabs k') (l0_frame s)"
      "tables 3 (tabs k') (l0_frame s) = tables 3 (tabs k1) (l0_frame s)"
    and iv: "\<And>va. view 3 (tabs k') (l0_frame s) va =
          (if \<exists>i \<in> set js. entry_addr va = entry_addr (a + of_nat i * 4096)
           then map_option (with_perms nf) (view 3 (tabs k1) (l0_frame s) va) else view 3 (tabs k1) (l0_frame s) va)"
    by (simp_all add: st(3))
  have "map_option (with_perms nf) (map_option (with_perms nf) v) = map_option (with_perms nf) v" for v
    by (cases v) (simp_all add: with_perms_twice [OF assms(2)])
  then show ?case using ih pc iv pv by auto
qed simp

section \<open>Properties\<close>

text \<open>A fresh space on a machine with 126 free frames, for the examples.\<close>

definition fresh_space :: user_address_space where
  "fresh_space = \<lparr>l0_frame = 0x40000000, page_table_frames = [], user_frames = [], asid = 1, shared = False\<rparr>"

definition fresh_machine :: "pmm_state \<Rightarrow> pmm_state machine" where
  "fresh_machine p = \<lparr>tabs = (\<lambda>_ _. 0), pool = p\<rparr>"

lemma fresh_tables:
  "tree n (tabs (fresh_machine p)) a" "tables n (tabs (fresh_machine p)) a = {a}"
  "view n (tabs (fresh_machine p)) a va = None" "\<not> in_block (tabs (fresh_machine p)) a va"
  using blank_table [of "tabs (fresh_machine p)" a] by (simp_all add: fresh_machine_def in_block_def)

lemma fresh_root: "entry_addr (l0_frame fresh_space) = l0_frame fresh_space"
  by (simp add: fresh_space_def entry_addr_def)

lemma boot_frames:
  assumes "pmm_init 0x40000000 0x80000 0x40002000 pmm_boot = Some p"
  shows "pmm_ready p" "card (pmm_free p) = 126" "0x40000000 \<notin> pmm_free p"
proof -
  note b = boot_128_ok [OF assms]
  show r: "pmm_ready p" using b by (simp add: pmm_ready_def)
  have inj: "inj_on (\<lambda>q. of_nat (base_addr (PMM p) + q * 4096) :: u64) {..<128}"
    using pmm_addr_inj [OF r] b(4) by (auto simp: inj_on_def)
  then have "inj_on (\<lambda>q. of_nat (base_addr (PMM p) + q * 4096) :: u64) {2..<128}"
    by (rule inj_on_subset) auto
  from card_image [OF this] show "card (pmm_free p) = 126" by (simp add: pmm_free_def b(2))
  show "0x40000000 \<notin> pmm_free p"
  proof
    assume "0x40000000 \<in> pmm_free p"
    then obtain q where q: "q \<in> {2..<128}" "(of_nat (base_addr (PMM p) + q * 4096) :: u64) = 0x40000000"
      unfolding pmm_free_def b(2) by force
    have "(of_nat (base_addr (PMM p) + 0 * 4096) :: u64) = 0x40000000" by (simp add: b(5))
    with q have "q = 0" using pmm_addr_inj [OF r, of q 0] b(4) by simp
    with q show False by simp
  qed
qed

text \<open>A space with one page, at address \<open>0x5000\<close>.\<close>

definition small_tables :: ptes where
  "small_tables a = (if a = 0x1000 then (\<lambda>_. 0)(0 := 0x2003)
     else if a = 0x2000 then (\<lambda>_. 0)(0 := 0x3003)
     else if a = 0x3000 then (\<lambda>_. 0)(0 := 0x4003)
     else if a = 0x4000 then (\<lambda>_. 0)(5 := page_entry 0x9000 user_RW_NO_EXEC)
     else (\<lambda>_. 0))"

definition small_space :: user_address_space where
  "small_space = \<lparr>l0_frame = 0x1000, page_table_frames = [0x2000, 0x3000, 0x4000], user_frames = [(0x9000, 1)],
                  asid = 1, shared = False\<rparr>"

lemma small_entry: "page_entry 0x9000 user_RW_NO_EXEC = 0x60000000009F4F"
  by (simp add: page_entry_def user_RW_NO_EXEC_def flag_defs)

lemma one_child:
  assumes "m a = (\<lambda>_. 0)(i := e)" "is_table e" "tree n m (entry_addr e)" "a \<notin> tables n m (entry_addr e)"
  shows "tree (Suc n) m a" "tables (Suc n) m a = insert a (tables n m (entry_addr e))"
proof -
  have e: "is_table (m a j) \<longleftrightarrow> j = i" "valid (m a j) \<longleftrightarrow> j = i" "m a i = e" for j
    using assms(1,2) by (auto simp: is_table_def)
  show "tree (Suc n) m a" using assms(2-4) unfolding tree.simps e by (auto simp: e is_table_def)
  show "tables (Suc n) m a = insert a (tables n m (entry_addr e))" unfolding tables.simps e by (auto simp: e)
qed

lemma small_tables_tree: "tree 3 small_tables 0x1000"
proof -
  have e: "is_table 0x2003" "is_table 0x3003" "is_table 0x4003"
    "entry_addr 0x2003 = 0x2000" "entry_addr 0x3003 = 0x3000" "entry_addr 0x4003 = 0x4000"
    by (simp_all add: is_table_def valid_def table_def VALID_def TABLE_def entry_addr_def)
  have m: "small_tables 0x1000 = (\<lambda>_. 0)(0 := 0x2003)" "small_tables 0x2000 = (\<lambda>_. 0)(0 := 0x3003)"
    "small_tables 0x3000 = (\<lambda>_. 0)(0 := 0x4003)" by (simp_all add: small_tables_def)
  have t1: "tree (Suc 0) small_tables 0x3000" "tables (Suc 0) small_tables 0x3000 = {0x3000, 0x4000}"
    using one_child [of small_tables "0x3000" 0 "0x4003" 0, OF m(3) e(3)]
    by (simp_all add: e del: tree.simps(2) tables.simps(2))
  have t2: "tree (Suc (Suc 0)) small_tables 0x2000"
    "tables (Suc (Suc 0)) small_tables 0x2000 = {0x2000, 0x3000, 0x4000}"
    using one_child [of small_tables "0x2000" 0 "0x3003" "Suc 0", OF m(2) e(2)] t1
    by (simp_all add: e del: tree.simps tables.simps)
  have "tree (Suc (Suc (Suc 0))) small_tables 0x1000"
    using one_child(1) [of small_tables "0x1000" 0 "0x2003" "Suc (Suc 0)", OF m(1) e(1)] t2
    by (simp add: e del: tree.simps tables.simps)
  then show ?thesis by (simp only: levels)
qed

lemma small_mapped:
  "\<not> in_block small_tables 0x1000 0x5000" "translate_user_va small_tables 0x1000 0x5000 = Some 0x9000"
  by (simp_all add: in_block_def translate_user_va_def Let_def l0_idx_def l1_idx_def l2_idx_def l3_idx_def
      small_tables_def valid_def table_def VALID_def TABLE_def entry_addr_def small_entry)

text \<open>
  C32: Mapping a page is exact. Whatever tables the walk has to create and whatever 2 MiB block it has to
  break up, afterwards the addresses of the page translate into the given frame with the given
  permissions and every other address translates, with the same attributes, as before. If the
  call fails, no address changes its meaning. It fails only for an unaligned address or when
  fewer than three frames are free.
\<close>

theorem map_page_exact:
  assumes "pmm_ready (pool k)" "tree 3 (tabs k) (l0_frame s)"
    and "tables 3 (tabs k) (l0_frame s) \<inter> pmm_free (pool k) = {}"
    and "entry_addr pa = pa" "entry_addr uf = 0"
    and "map_page pmm_source va pa uf (s, k) = (r, s', k')"
  shows "(\<forall>va'. translate_user_va (tabs k') (l0_frame s) va' =
        (if r = Inr () \<and> entry_addr va' = entry_addr va then Some (pa OR (va' AND 0xFFF))
         else translate_user_va (tabs k) (l0_frame s) va'))
    \<and> (\<forall>va'. view 3 (tabs k') (l0_frame s) va' =
        (if r = Inr () \<and> entry_addr va' = entry_addr va
         then Some (pa OR (va' AND 0xFFF), page_entry pa uf AND ATTR_MASK)
         else view 3 (tabs k) (l0_frame s) va'))
    \<and> (r = Inr () \<or> va AND 0xFFF \<noteq> 0 \<or> card (pmm_free (pool k)) < 3)"
proof -
  have o: "pmm_tables.owned 3 (l0_frame s) k" using assms(1-3) by (simp add: pmm_tables.owned_def)
  from pmm_tables.map_page_view [OF o assms(4-6)] have
    v: "\<forall>va'. view 3 (tabs k') (l0_frame s) va' =
        (if r = Inr () \<and> entry_addr va' = entry_addr va
         then Some (pa OR (va' AND 0xFFF), page_entry pa uf AND ATTR_MASK)
         else view 3 (tabs k) (l0_frame s) va')"
    and t: "tree 3 (tabs k') (l0_frame s)"
    and e: "\<forall>e. r = Inl e \<longrightarrow> va AND 0xFFF \<noteq> 0 \<or> card (pmm_free (pool k)) < 3"
    by (auto simp: pmm_tables.owned_def)
  show ?thesis
    using v e translate_view [OF t] translate_view [OF assms(2)] by (cases r) auto
qed

theorem map_page_exact_witness:
  "\<exists>p r s' k'. map_page pmm_source 0x400000 0x40001000 user_RX (fresh_space, fresh_machine p) = (r, s', k')
     \<and> r = Inr () \<and> translate_user_va (tabs k') 0x40000000 0x400123 = Some 0x40001123
     \<and> translate_user_va (tabs k') 0x40000000 0x401123 = None"
proof -
  obtain p where p: "pmm_init 0x40000000 0x80000 0x40002000 pmm_boot = Some p" using boot_128 by blast
  note b = boot_frames [OF p]
  obtain r s' k' where
    m: "map_page pmm_source 0x400000 0x40001000 user_RX (fresh_space, fresh_machine p) = (r, s', k')"
    by (cases "map_page pmm_source 0x400000 0x40001000 user_RX (fresh_space, fresh_machine p)") auto
  have ok: "pmm_ready (pool (fresh_machine p))"
    "tables 3 (tabs (fresh_machine p)) (l0_frame fresh_space) \<inter> pmm_free (pool (fresh_machine p)) = {}"
    using b by (simp_all add: fresh_tables) (simp_all add: fresh_machine_def fresh_space_def)
  have flags: "entry_addr (0x40001000 :: u64) = 0x40001000" "entry_addr user_RX = 0"
    by (simp_all add: entry_addr_def user_RX_def flag_defs)
  note th = map_page_exact [OF ok(1) fresh_tables(1) ok(2) flags m]
  have r: "r = Inr ()" using th b(2) by (auto simp: fresh_machine_def)
  have l0: "l0_frame fresh_space = 0x40000000" by (simp add: fresh_space_def)
  have none: "translate_user_va (tabs (fresh_machine p)) 0x40000000 va = None" for va
    by (simp add: translate_view [OF fresh_tables(1)] fresh_tables(3))
  from th r none m show ?thesis unfolding l0
    by (intro exI [of _ p] exI [of _ r] exI [of _ s'] exI [of _ k'] conjI) (simp_all add: entry_addr_def)
qed

text \<open>
  The root register of a space, and that serving a fault finds the frames it needs when three
  are free.
\<close>

definition ttbr0 :: "user_address_space \<Rightarrow> u64" where
  "ttbr0 s = push_bit 48 (of_nat (asid s)) OR l0_frame s"

lemma ttbr0_root: "entry_addr (l0_frame s) = l0_frame s \<Longrightarrow> entry_addr (ttbr0 s) = l0_frame s"
proof -
  have "entry_addr (push_bit 48 (of_nat (asid s))) = 0"
    unfolding entry_addr_def by (rule bit_word_eqI) (unfold bit_and_iff bit_addr_mask, auto simp: bit_simps)
  then show "entry_addr (l0_frame s) = l0_frame s \<Longrightarrow> entry_addr (ttbr0 s) = l0_frame s"
    by (simp add: ttbr0_def entry_addr_or)
qed

lemma map_user_page_root: "map_user_page al (entry_addr r) = map_user_page al r"
  by (simp add: fun_eq_iff map_user_page_def entry_addr_def and.assoc)

context frame_source
begin

lemma create_l3_succeeds:
  assumes o: "owned 3 (l0_frame s) k" and c: "3 \<le> card (avail (pool k))"
  obtains t s' k' where "create_l3 al va (s, k) = (Inr t, s', k')"
proof -
  obtain r s' k' where e: "create_l3 al va (s, k) = (r, s', k')" by (cases "create_l3 al va (s, k)") auto
  then have "ensure al 3 (l0_frame s) va (s, k) = (r, s', k')" by (simp add: create_l3_ensure)
  from ensure_grows [OF o this] obtain fs where
    fs: "grows 3 (l0_frame s) fs k k'" "\<forall>e. r = Inl e \<longrightarrow> avail (pool k') = {} \<and> length fs < 3" by blast
  have "r \<noteq> Inl e" for e
  proof
    assume "r = Inl e"
    with fs have "avail (pool k) = set fs" "length fs < 3" "distinct fs" by (auto simp: grows_def)
    with c show False by (simp add: distinct_card)
  qed
  then obtain t where "r = Inr t" by (cases r) auto
  with e that show thesis by blast
qed

end

text \<open>
  C34: Serving a page fault never replaces a mapping. With three free frames, the lock-free mapping
  reports success exactly when the address had no translation; then its page gets the offered
  frame and permissions, otherwise nothing changes its meaning. The tables it reports are
  exactly those that became part of the address space.
\<close>

theorem fault_never_overwrites:
  assumes "pmm_ready (pool k)" "tree 3 (tabs k) (l0_frame s)" "entry_addr (l0_frame s) = l0_frame s"
    and "tables 3 (tabs k) (l0_frame s) \<inter> pmm_free (pool k) = {}" "3 \<le> card (pmm_free (pool k))"
    and "entry_addr pa = pa" "entry_addr uf = 0"
    and "map_user_page pmm_source (ttbr0 s) va pa uf k = ((fs, installed), k')"
  shows "(installed \<longleftrightarrow> translate_user_va (tabs k) (l0_frame s) va = None)
    \<and> (\<forall>va'. view 3 (tabs k') (l0_frame s) va' =
        (if installed \<and> entry_addr va' = entry_addr va
         then Some (pa OR (va' AND 0xFFF), page_entry pa uf AND ATTR_MASK)
         else view 3 (tabs k) (l0_frame s) va'))
    \<and> distinct fs \<and> set fs = tables 3 (tabs k') (l0_frame s) - tables 3 (tabs k) (l0_frame s)"
proof -
  have o: "pmm_tables.owned 3 (l0_frame s) k" using assms(1,2,4) by (simp add: pmm_tables.owned_def)
  obtain c s1 k1 where cr: "create_l3 pmm_source va (s, k) = (Inr c, s1, k1)"
    by (rule pmm_tables.create_l3_succeeds [OF o assms(5)])
  have m: "map_user_page pmm_source (l0_frame s) va pa uf k = ((fs, installed), k')"
    using assms(8) map_user_page_root [of pmm_source "ttbr0 s"] unfolding ttbr0_root [OF assms(3)] by simp
  from pmm_tables.map_user_page_view [OF o assms(3,6,7) cr m] assms(4) show ?thesis
    by (auto simp: translate_view [OF assms(2)])
qed

theorem fault_never_overwrites_witness:
  "\<exists>p fs i k'. map_user_page pmm_source (ttbr0 fresh_space) 0x400008 0x40001000 user_RX (fresh_machine p) = ((fs, i), k')
     \<and> i \<and> view 3 (tabs k') 0x40000000 0x400010 = Some (0x40001010, page_entry 0x40001000 user_RX AND ATTR_MASK)"
proof -
  obtain p where p: "pmm_init 0x40000000 0x80000 0x40002000 pmm_boot = Some p" using boot_128 by blast
  note b = boot_frames [OF p]
  obtain fs i k' where
    m: "map_user_page pmm_source (ttbr0 fresh_space) 0x400008 0x40001000 user_RX (fresh_machine p) = ((fs, i), k')"
    by (cases "map_user_page pmm_source (ttbr0 fresh_space) 0x400008 0x40001000 user_RX (fresh_machine p)") auto
  have ok: "pmm_ready (pool (fresh_machine p))"
    "tables 3 (tabs (fresh_machine p)) (l0_frame fresh_space) \<inter> pmm_free (pool (fresh_machine p)) = {}"
    "3 \<le> card (pmm_free (pool (fresh_machine p)))"
    using b by (simp_all add: fresh_tables) (simp_all add: fresh_machine_def fresh_space_def)
  have flags: "entry_addr (0x40001000 :: u64) = 0x40001000" "entry_addr user_RX = 0"
    by (simp_all add: entry_addr_def user_RX_def flag_defs)
  note th = fault_never_overwrites [OF ok(1) fresh_tables(1) fresh_root ok(2,3) flags m]
  have l0: "l0_frame fresh_space = 0x40000000" by (simp add: fresh_space_def)
  have none: "translate_user_va (tabs (fresh_machine p)) 0x40000000 va = None" for va
    by (simp add: translate_view [OF fresh_tables(1)] fresh_tables(3))
  from th none m show ?thesis unfolding l0
    by (intro exI [of _ p] exI [of _ fs] exI [of _ i] exI [of _ k'] conjI) (simp_all add: entry_addr_def)
qed

text \<open>
  The representation of an address space on the physical memory manager: the tables form a tree;
  they are the root, the recorded page-table frames and the shared device tables \<open>D\<close>, each once;
  no table and no user frame is free, and none has two roles.
\<close>

definition space_wf :: "u64 set \<Rightarrow> pmm_state space \<Rightarrow> bool" where
  "space_wf D sk \<longleftrightarrow> (case sk of (s, k) \<Rightarrow>
     pmm_ready (pool k) \<and> entry_addr (l0_frame s) = l0_frame s \<and> tree 3 (tabs k) (l0_frame s)
     \<and> distinct (l0_frame s # page_table_frames s) \<and> D \<inter> insert (l0_frame s) (set (page_table_frames s)) = {}
     \<and> tables 3 (tabs k) (l0_frame s) = insert (l0_frame s) (set (page_table_frames s)) \<union> D
     \<and> tables 3 (tabs k) (l0_frame s) \<inter> pmm_free (pool k) = {}
     \<and> fst ` set (user_frames s) \<inter> (tables 3 (tabs k) (l0_frame s) \<union> pmm_free (pool k)) = {})"

lemma space_wf_ok: "space_wf D sk = pmm_tables.space_ok D sk"
  unfolding space_wf_def pmm_tables.space_ok_def pmm_tables.owned_def by (cases sk) blast



text \<open>
  C35: Unmapping with release is exact. Outside the kernel's 2 MiB blocks the page loses its
  translation and every other address keeps its own. If the page was mapped and its frame is on
  record, its count drops by one, and the frame is handed back for freeing exactly when the count
  was one; a frame that is not on record, as in a view shared with another owner, is never handed
  back. If the page was not mapped nothing happens.
\<close>

theorem unmap_frees_last:
  assumes "tree 3 (tabs k) (l0_frame s)" "\<not> in_block (tabs k) (l0_frame s) va"
    and "unmap_and_free_page va (s, k) = (r, s', k')"
  shows "(\<forall>va'. translate_user_va (tabs k') (l0_frame s) va' =
        (if entry_addr va' = entry_addr va then None else translate_user_va (tabs k) (l0_frame s) va'))
    \<and> (case translate_user_va (tabs k) (l0_frame s) (entry_addr va) of
         None \<Rightarrow> r = None \<and> s' = s
       | Some pa \<Rightarrow>
           (case map_of (user_frames s) pa of
              None \<Rightarrow> r = None \<and> s' = s
            | Some n \<Rightarrow> r = (if n = 1 then Some pa else None)
                \<and> map_of (user_frames s') = (map_of (user_frames s))(pa := if n = 1 then None else Some (n - 1))))"
proof -
  note v = unmap_and_free_view [OF assms(1,2) assms(3) [unfolded unmap_and_free_page_def]]
  have t': "tree 3 (tabs k') (l0_frame s)" using v(1) by (simp add: page_change_def)
  have eq: "s' = s" if "s'\<lparr>user_frames := user_frames s\<rparr> = s" "user_frames s' = user_frames s"
    using that by (metis user_address_space.surjective user_address_space.update_convs(3))
  show ?thesis
    using v unfolding translate_view [OF assms(1)] translate_view [OF t'] page_change_def released_def
    by (auto split: option.splits intro: eq)
qed

theorem unmap_frees_last_witness:
  "\<exists>s' k'. unmap_and_free_page 0x5000 (small_space, \<lparr>tabs = small_tables, pool = ()\<rparr>) = (Some 0x9000, s', k')
     \<and> translate_user_va (tabs k') 0x1000 0x5123 = None \<and> map_of (user_frames s') 0x9000 = None"
proof -
  let ?k = "\<lparr>tabs = small_tables, pool = ()\<rparr>"
  obtain r s' k' where u: "unmap_and_free_page 0x5000 (small_space, ?k) = (r, s', k')"
    by (cases "unmap_and_free_page 0x5000 (small_space, ?k)") auto
  have l0: "l0_frame small_space = 0x1000" "tabs ?k = small_tables" "map_of (user_frames small_space) 0x9000 = Some 1"
    by (simp_all add: small_space_def)
  have pre: "tree 3 (tabs ?k) (l0_frame small_space)" "\<not> in_block (tabs ?k) (l0_frame small_space) 0x5000"
    unfolding l0 by (rule small_tables_tree, rule small_mapped(1))
  have e: "entry_addr 0x5000 = 0x5000" "entry_addr 0x5123 = 0x5000" by (simp_all add: entry_addr_def)
  from unmap_frees_last [OF pre u] have
    "r = Some 0x9000" "translate_user_va (tabs k') 0x1000 0x5123 = None" "map_of (user_frames s') 0x9000 = None"
    unfolding l0 e small_mapped(2) option.case by (auto simp: e)
  with u show ?thesis by blast
qed

text \<open>
  C36: Changing the protection of a range is exact. For an aligned address outside the kernel's blocks,
  every mapped page of the range gets precisely the permission bits of the requested protection,
  with its frame and its other attributes unchanged, every other address keeps its meaning, and
  no page of the range is left both writable and executable for the program.
\<close>

theorem mprotect_exact:
  assumes "tree 3 (tabs k) (l0_frame s)" "len \<noteq> 0" "a AND 0xFFF = 0"
    and "\<forall>i < div_ceil (unat len) 4096. \<not> in_block (tabs k) (l0_frame s) (a + of_nat i * 4096)"
    and "sys_mprotect lazy a len prot (l, Some (s, k)) = (r, l', Some (s', k'))"
  shows "r = 0 \<and> s' = s \<and> (\<forall>va. view 3 (tabs k') (l0_frame s) va =
        (if \<exists>i < div_ceil (unat len) 4096. entry_addr va = entry_addr (a + of_nat i * 4096)
         then map_option (\<lambda>(pa, attrs). (pa, (attrs AND NOT PERM_MASK) OR from_prot prot))
                (view 3 (tabs k) (l0_frame s) va)
         else view 3 (tabs k) (l0_frame s) va))
    \<and> (\<forall>va pa attrs. (\<exists>i < div_ceil (unat len) 4096. entry_addr va = entry_addr (a + of_nat i * 4096))
         \<and> view 3 (tabs k') (l0_frame s) va = Some (pa, attrs)
         \<longrightarrow> \<not> (attrs AND (AP_RO_ALL OR AP_RW_ALL) = AP_RW_ALL \<and> attrs AND UXN = 0))"
proof -
  let ?n = "div_ceil (unat len) 4096" and ?nf = "from_prot prot"
  have run: "r = 0" "fold (mprotect_page ?nf a) [0..<?n] (s, k) = (s', k')"
    using assms(2,3,5) by (simp_all add: sys_mprotect_def Let_def)
  have nb: "\<forall>i \<in> set [0..<?n]. \<not> in_block (tabs k) (l0_frame s) (a + of_nat i * 4096)" using assms(4) by simp
  have wp: "with_perms ?nf = (\<lambda>(pa, attrs). (pa, (attrs AND NOT PERM_MASK) OR ?nf))"
    by (simp add: fun_eq_iff with_perms_def)
  from mprotect_pages [OF assms(1) from_prot_perms nb run(2)] have
    v: "s' = s" "\<And>va. view 3 (tabs k') (l0_frame s) va =
        (if \<exists>i < ?n. entry_addr va = entry_addr (a + of_nat i * 4096)
         then map_option (\<lambda>(pa, attrs). (pa, (attrs AND NOT PERM_MASK) OR ?nf)) (view 3 (tabs k) (l0_frame s) va)
         else view 3 (tabs k) (l0_frame s) va)"
    unfolding wp by auto
  have ex: "((x AND NOT PERM_MASK) OR ?nf) AND (AP_RO_ALL OR AP_RW_ALL) = ?nf AND (AP_RO_ALL OR AP_RW_ALL)"
    "((x AND NOT PERM_MASK) OR ?nf) AND UXN = ?nf AND UXN" for x
    unfolding bit.conj_disj_distrib2 by (simp_all add: PERM_MASK_def flag_defs and.assoc bit.conj_disj_distrib2)
  have "\<not> (attrs AND (AP_RO_ALL OR AP_RW_ALL) = AP_RW_ALL \<and> attrs AND UXN = 0)"
    if "\<exists>i < ?n. entry_addr va = entry_addr (a + of_nat i * 4096)" "view 3 (tabs k') (l0_frame s) va = Some (pa, attrs)"
    for va pa attrs
  proof -
    from that v(2) [of va] obtain x where "attrs = (x AND NOT PERM_MASK) OR ?nf" by auto
    with ex [of x] from_prot_w_xor_x [of prot] show ?thesis by simp
  qed
  with run(1) v show ?thesis by blast
qed

theorem mprotect_exact_witness:
  "\<exists>s' k'. sys_mprotect (\<lambda>_ _ _ l. l) 0x5000 100 4 ((), Some (small_space, \<lparr>tabs = small_tables, pool = ()\<rparr>))
       = (0, (), Some (s', k'))
     \<and> (\<forall>va. entry_addr va = 0x5000 \<longrightarrow> view 3 (tabs k') 0x1000 va =
          map_option (\<lambda>(pa, attrs). (pa, (attrs AND NOT PERM_MASK) OR user_RX)) (view 3 small_tables 0x1000 va))"
proof -
  let ?k = "\<lparr>tabs = small_tables, pool = ()\<rparr>"
  obtain s' k' where "fold (mprotect_page (from_prot 4) 0x5000) [0..<div_ceil (unat (100 :: u64)) 4096] (small_space, ?k) = (s', k')"
    by (meson surj_pair)
  then have m: "sys_mprotect (\<lambda>_ _ _ l. l) 0x5000 100 4 ((), Some (small_space, ?k)) = (0, (), Some (s', k'))"
    by (simp add: sys_mprotect_def Let_def)
  have l0: "l0_frame small_space = 0x1000" "tabs ?k = small_tables" by (simp_all add: small_space_def)
  have one: "div_ceil (unat (100 :: u64)) 4096 = 1" by (simp add: div_ceil_def)
  have t: "tree 3 (tabs ?k) (l0_frame small_space)" unfolding l0 by (rule small_tables_tree)
  have nb: "\<forall>i < div_ceil (unat (100 :: u64)) 4096. \<not> in_block (tabs ?k) (l0_frame small_space) (0x5000 + of_nat i * 4096)"
    using small_mapped(1) unfolding l0 one by simp
  have e: "entry_addr (0x5000 :: u64) = 0x5000" by (simp add: entry_addr_def)
  have "from_prot 4 = user_RX" by (simp add: from_prot_def)
  moreover from mprotect_exact [OF t _ _ nb m]
  have "\<forall>va. view 3 (tabs k') 0x1000 va = (if entry_addr va = 0x5000
      then map_option (\<lambda>(pa, attrs). (pa, (attrs AND NOT PERM_MASK) OR from_prot 4)) (view 3 small_tables 0x1000 va)
      else view 3 small_tables 0x1000 va)"
    unfolding l0 one by (simp add: e)
  ultimately show ?thesis using m by auto
qed

end
