(* ===== verification/Mmu_Properties.thy ===== *)
theory Mmu_Properties
  imports Mmu_Syscall
begin

text \<open>
  The properties of range walks, address space identifiers and shared tables, and what the model
  shows about walks into blocks, exhausted memory and the owner's two-step drop.
\<close>

section \<open>Ranges\<close>

text \<open>
  C37: The sparse walks that fork uses to find a region's pages, which skip whole missing tables, end
  and return exactly what a translation of every single page of the range returns, in order and
  each page once, leaving out only pages that are part of a 2 MiB block.
\<close>

theorem fork_collects_every_page:
  assumes "tree 3 m l0" "unat va_start + unat pages * 4096 \<le> 2 ^ 48"
  shows "collect_mapped_pages_sparse m l0 va_start pages =
      Some (List.map_filter
        (\<lambda>n. if in_block m l0 (page_va n) then None
             else map_option (Pair (page_va n)) (translate_user_va m l0 (page_va n)))
        (range_pages va_start pages))
    \<and> collect_mapped_pages_with_flags m l0 va_start pages =
      Some (List.map_filter
        (\<lambda>n. if in_block m l0 (page_va n) then None
             else map_option (\<lambda>e. (page_va n, entry_addr e, e AND (AP_RO_ALL OR UXN OR PXN)))
                    (read_l3_page_entry m l0 (page_va n)))
        (range_pages va_start pages))"
proof -
  have t: "(if in_block m l0 (page_va n) then None else map_option (Pair (page_va n)) (translate_user_va m l0 (page_va n)))
      = map_option (\<lambda>e. (page_va n, entry_addr e OR (page_va n AND 0xFFF))) (small_page m l0 (page_va n))" for n
    using arg_cong [OF small_page_walks(1) [OF assms(1), of "page_va n"], of "map_option (Pair (page_va n))"]
    by (auto simp: option.map_comp comp_def split: if_splits)
  have f: "(if in_block m l0 (page_va n) then None
        else map_option (\<lambda>e. (page_va n, entry_addr e, e AND (AP_RO_ALL OR UXN OR PXN))) (read_l3_page_entry m l0 (page_va n)))
      = map_option (\<lambda>e. (page_va n, entry_addr e, e AND (AP_RO_ALL OR UXN OR PXN))) (small_page m l0 (page_va n))" for n
    using arg_cong [OF small_page_walks(2) [OF assms(1) page_va_aligned(1)],
        of "map_option (\<lambda>e. (page_va n, entry_addr e, e AND (AP_RO_ALL OR UXN OR PXN)))" n]
    by (auto split: if_splits)
  show ?thesis
    unfolding t f collect_mapped_pages_sparse_def collect_mapped_pages_with_flags_def
    by (intro conjI collect_visits [OF assms(2)]) (simp_all add: Let_def)
qed

theorem fork_collects_every_page_witness:
  "collect_mapped_pages_sparse small_tables 0x1000 0x4000 3 = Some [(0x5000, 0x9000)]"
proof -
  have "unat (0x4000 :: u64) + unat (3 :: u64) * 4096 \<le> 2 ^ 48" by simp
  note th = fork_collects_every_page [OF small_tables_tree this]
  have r: "range_pages 0x4000 3 = [4, 5, 6]" by (simp add: range_pages_def page_numbers_def upt_rec)
  have v: "translate_user_va small_tables 0x1000 0x4000 = None" "translate_user_va small_tables 0x1000 0x6000 = None"
    "in_block small_tables 0x1000 0x4000 = False" "in_block small_tables 0x1000 0x6000 = False"
    by (simp_all add: in_block_def translate_user_va_def Let_def l0_idx_def l1_idx_def l2_idx_def l3_idx_def
        small_tables_def valid_def table_def VALID_def TABLE_def entry_addr_def)
  from th show ?thesis unfolding r by (simp add: map_filter_simps v small_mapped)
qed

lemma range_pages_small:
  assumes "unat va_start + unat pages * 4096 \<le> 2 ^ 48" "n \<in> set (range_pages va_start pages)"
  shows "n * 4096 < 2 ^ 48"
  using assms by (auto simp: range_pages_def page_numbers_def split: if_splits)

lemma demote_range_visits:
  assumes "unat va_start + unat pages * 4096 \<le> 2 ^ 48" "tree 3 m l0"
  shows "demote_range_to_ro m l0 va_start pages
    = Some (fold (visit fst demote_entry l0) (range_pages va_start pages) (m, 0))"
proof (cases "pages = 0")
  case True
  then show ?thesis by (simp add: demote_range_to_ro_def range_pages_def)
next
  case False
  obtain e where e: "range_end va_start pages = Some e" "unat e = unat va_start + unat pages * 4096"
    "va_start < e" using range_end_small [OF assms(1)] False by metis
  have st: "tree 3 (fst (demote_entry l3 (l3_idx p) p s)) l0
      \<and> range_walk (fst (demote_entry l3 (l3_idx p) p s)) l0 = range_walk (fst s) l0"
    if "tree 3 (fst s) l0" "range_walk (fst s) l0 p = Inr l3" for l3 p and s :: "ptes \<times> nat"
  proof -
    have lt: "leaf_table 3 (fst s) l0 p = Some l3" using that range_walk_leaf by blast
    show ?thesis
      using that view_leaf_write(1) [OF that(1) lt] range_walk_write [OF that]
      by (auto simp: demote_entry_def Let_def idx_levels split: prod.splits)
  qed
  have "range_loop fst demote_entry l0 e va_start (m, 0)
      = Some (fold (visit fst demote_entry l0) (range_pages va_start pages) (m, 0))"
    using range_loop_visits [of "\<lambda>s. tree 3 (fst s) l0" fst l0 demote_entry e "(m, 0)" va_start] st assms e False
    by (simp add: range_pages_def)
  with e False show ?thesis by (simp add: demote_range_to_ro_def)
qed

text \<open>
  C38: Demoting a range for copy-on-write is exact: the walk ends, and every address of the range
  that is not part of a 2 MiB block keeps its frame and its other attributes but is read-only
  if it was writable for the program; all other addresses keep their meaning. So nothing in the
  range is left writable, and the number returned is the number of pages that were.
\<close>

theorem demote_range_exact:
  assumes "tree 3 m l0" "unat va_start + unat pages * 4096 \<le> 2 ^ 48"
  shows "\<exists>m' demoted. demote_range_to_ro m l0 va_start pages = Some (m', demoted)
    \<and> (\<forall>va. view 3 m' l0 va =
        (if entry_addr va \<in> page_va ` set (range_pages va_start pages) \<and> \<not> in_block m l0 va
         then map_option read_only (view 3 m l0 va) else view 3 m l0 va))
    \<and> (\<forall>va. entry_addr va \<in> page_va ` set (range_pages va_start pages) \<and> \<not> in_block m l0 va
         \<longrightarrow> \<not> user_writable (view 3 m' l0 va))
    \<and> demoted = length (filter (\<lambda>n. \<not> in_block m l0 (page_va n) \<and> user_writable (view 3 m l0 (page_va n)))
                          (range_pages va_start pages))"
proof -
  let ?ns = "range_pages va_start pages"
  obtain m' c where f: "fold (visit fst demote_entry l0) ?ns (m, 0) = (m', c)"
    by (cases "fold (visit fst demote_entry l0) ?ns (m, 0)")
  have small: "n * 4096 < 2 ^ 48" if "n \<in> set ?ns" for n by (rule range_pages_small [OF assms(2) that])
  have al: "\<forall>n \<in> set ?ns. entry_addr (page_va n) = page_va n"
    using small by (intro ballI entry_addr_of_nat) simp_all
  have inj: "inj_on (\<lambda>n. page_va n) (set ?ns)"
  proof (rule inj_onI)
    fix x y assume x: "x \<in> set ?ns" and y: "y \<in> set ?ns" and eq: "page_va x = page_va y"
    have u: "unat (page_va n) = n * 4096" if "n \<in> set ?ns" for n
      by (rule unat_of_nat_small, rule less_trans [OF small [OF that]]) simp
    have "x * 4096 = y * 4096" using u [OF x] u [OF y] eq by metis
    then show "x = y" by simp
  qed
  have ds: "distinct ?ns" by (simp add: range_pages_def page_numbers_def)
  from demote_visits [OF assms(1) ds al inj f] have
    v: "\<And>va. view 3 m' l0 va = (if entry_addr va \<in> page_va ` set ?ns \<and> has_table m l0 va
          then map_option read_only (view 3 m l0 va) else view 3 m l0 va)"
    and c: "c = length (filter (\<lambda>n. has_table m l0 (page_va n) \<and> user_writable (view 3 m l0 (page_va n))) ?ns)"
    by simp_all
  have hv: "has_table m l0 va \<or> view 3 m l0 va = None" if "\<not> in_block m l0 va" for va
    using no_leaf_no_view [OF assms(1) that] range_walk_leaf [OF assms(1), of va]
    by (cases "leaf_table 3 m l0 va") auto
  have hb: "\<not> has_table m l0 va" if "in_block m l0 va" for va
    using that by (auto simp: in_block_def range_walk_def Let_def split: if_splits)
  have v': "view 3 m' l0 va = (if entry_addr va \<in> page_va ` set ?ns \<and> \<not> in_block m l0 va
      then map_option read_only (view 3 m l0 va) else view 3 m l0 va)" for va
    unfolding v using hv [of va] hb [of va] by (cases "in_block m l0 va") auto
  have ro: "\<not> user_writable (map_option read_only w)" for w
    by (cases w) (auto simp: user_writable_def read_only_def flag_defs bit.conj_disj_distrib2 and.assoc split: prod.splits)
  have uw: "has_table m l0 va \<and> user_writable (view 3 m l0 va) \<longleftrightarrow> \<not> in_block m l0 va \<and> user_writable (view 3 m l0 va)" for va
    using hv [of va] hb [of va] by (auto simp: user_writable_def)
  have "demote_range_to_ro m l0 va_start pages = Some (m', c)"
    using demote_range_visits [OF assms(2,1)] f by simp
  with v' ro c show ?thesis unfolding uw
    by (intro exI [of _ m'] exI [of _ c] conjI allI impI) simp_all
qed

theorem demote_range_exact_witness:
  "\<exists>m' demoted. demote_range_to_ro small_tables 0x1000 0x4000 3 = Some (m', demoted)
     \<and> \<not> user_writable (view 3 m' 0x1000 0x5000) \<and> user_writable (view 3 small_tables 0x1000 0x5000)"
proof -
  have "unat (0x4000 :: u64) + unat (3 :: u64) * 4096 \<le> 2 ^ 48" by simp
  from demote_range_exact [OF small_tables_tree this] obtain m' d where
    d: "demote_range_to_ro small_tables 0x1000 0x4000 3 = Some (m', d)"
    and w: "\<And>va. entry_addr va \<in> page_va ` set (range_pages 0x4000 3) \<and> \<not> in_block small_tables 0x1000 va
         \<Longrightarrow> \<not> user_writable (view 3 m' 0x1000 va)" by blast
  have "range_pages 0x4000 3 = [4, 5, 6]" by (simp add: range_pages_def page_numbers_def upt_rec)
  then have "\<not> user_writable (view 3 m' 0x1000 0x5000)"
    by (intro w conjI) (simp_all add: entry_addr_def small_mapped)
  moreover have "user_writable (view 3 small_tables 0x1000 0x5000)"
    unfolding view_3(1) [OF small_tables_tree]
    by (simp add: l0_idx_def l1_idx_def l2_idx_def idx_def Let_def small_tables_def valid_def table_def VALID_def
        TABLE_def entry_addr_def small_entry user_writable_def leaf_def flag_defs)
  ultimately show ?thesis using d by blast
qed

section \<open>Identifiers and shared tables\<close>

text \<open>
  C39: The search for an address space identifier always ends. It returns an identifier between 1 and
  255 that nobody holds and marks exactly that one, or reports failure with nothing changed,
  which it does only when all 255 are held. Giving one back frees exactly that one.
\<close>

theorem asid_alloc_sound_complete:
  assumes "asid_wf s"
  shows "(\<exists>r s'. asid_alloc s = Some (r, s') \<and> asid_wf s'
      \<and> (case r of
           None \<Rightarrow> s' = s \<and> (\<forall>x. 0 < x \<and> x < MAX_ASID \<longrightarrow> in_use s x)
         | Some x \<Rightarrow> 0 < x \<and> x < MAX_ASID \<and> \<not> in_use s x
             \<and> (\<forall>y < MAX_ASID. in_use s' y \<longleftrightarrow> y = x \<or> in_use s y)))
    \<and> (\<forall>a. 0 < a \<and> a < MAX_ASID \<longrightarrow> asid_wf (asid_free a s)
         \<and> (\<forall>y < MAX_ASID. in_use (asid_free a s) y \<longleftrightarrow> y \<noteq> a \<and> in_use s y))"
proof (intro conjI allI impI)
  obtain r s' where r: "asid_alloc s = Some (r, s')" "asid_wf s'"
    "case r of
       None \<Rightarrow> s' = s \<and> (\<forall>x. 0 < x \<and> x < MAX_ASID \<longrightarrow> in_use s x)
     | Some x \<Rightarrow> 0 < x \<and> x < MAX_ASID \<and> \<not> in_use s x
         \<and> (\<forall>y < MAX_ASID. in_use s' y \<longleftrightarrow> y = x \<or> in_use s y)"
    by (rule asid_alloc_exact [OF assms])
  then show "\<exists>r s'. asid_alloc s = Some (r, s') \<and> asid_wf s'
      \<and> (case r of
           None \<Rightarrow> s' = s \<and> (\<forall>x. 0 < x \<and> x < MAX_ASID \<longrightarrow> in_use s x)
         | Some x \<Rightarrow> 0 < x \<and> x < MAX_ASID \<and> \<not> in_use s x
             \<and> (\<forall>y < MAX_ASID. in_use s' y \<longleftrightarrow> y = x \<or> in_use s y))" by blast
qed (use asid_free_exact [OF assms] in \<open>auto\<close>)

theorem asid_alloc_sound_complete_witness:
  "asid_wf AsidAllocator_new \<and> (\<exists>x s'. asid_alloc AsidAllocator_new = Some (Some x, s') \<and> in_use s' x)"
proof -
  have wf: "asid_wf AsidAllocator_new" by (simp add: asid_wf_def AsidAllocator_new_def MAX_ASID_def)
  have nu: "\<not> in_use AsidAllocator_new 1" by (simp add: in_use_def AsidAllocator_new_def)
  from asid_alloc_sound_complete [OF wf] obtain r s' where
    r: "asid_alloc AsidAllocator_new = Some (r, s')"
    "case r of
       None \<Rightarrow> s' = AsidAllocator_new \<and> (\<forall>x. 0 < x \<and> x < MAX_ASID \<longrightarrow> in_use AsidAllocator_new x)
     | Some x \<Rightarrow> 0 < x \<and> x < MAX_ASID \<and> \<not> in_use AsidAllocator_new x
         \<and> (\<forall>y < MAX_ASID. in_use s' y \<longleftrightarrow> y = x \<or> in_use AsidAllocator_new y)" by blast
  have "\<not> (\<forall>x. 0 < x \<and> x < MAX_ASID \<longrightarrow> in_use AsidAllocator_new x)"
    using nu by (intro notI) (drule spec [of _ 1], simp add: MAX_ASID_def)
  with r(2) obtain x where "r = Some x" "in_use s' x" by (cases r) auto
  with r(1) wf show ?thesis by blast
qed

text \<open>
  C40: The frames of a process's address space are freed exactly once, by whoever leaves last. Over
  any order in which the owner and the threads sharing its tables come and go, nothing of it is
  handed to the allocator while the owner or a thread is left, and its user frames, page tables
  and root are handed over, each entry once, when the last one has gone. Each arrival and each
  drop is one step here; the owner's drop in two steps is \<open>owner_race_leaks\<close> below.
\<close>

theorem frames_freed_by_last:
  assumes "SHARED_L0_TABLE w (l0_frame s) = None" "life_ok ops 0 True"
  shows "freed (fold (life_step s) ops w) =
    freed w @ (if DropOwner \<in> set ops
                  \<and> length (filter ((=) NewThread) ops) = length (filter ((=) DropThread) ops)
               then map fst (user_frames s) @ page_table_frames s @ [l0_frame s] else [])"
proof -
  have "life_inv s 0 True (freed w) w" using assms(1) by (simp add: life_inv_def)
  from life_run [OF this _ assms(2)] show ?thesis by (simp add: over_def frames_of_def)
qed

theorem frames_freed_by_last_witness:
  "freed (fold (life_step small_space) [NewThread, DropOwner, NewThread, DropThread, DropThread]
      \<lparr>SHARED_L0_TABLE = Map.empty, freed = []\<rparr>) = [0x9000, 0x2000, 0x3000, 0x4000, 0x1000]"
  by (subst frames_freed_by_last) (simp_all add: small_space_def)

section \<open>What the model shows\<close>

text \<open>
  The walk of unmapping, eviction and permission changes does not test whether the third
  descriptor is a block. For an address in the kernel's identity map it takes the block's memory
  for a table: \<open>mprotect\<close>, which asks only whether the address is mapped, rewrites a word of it.
\<close>

lemma protect_writes_into_block:
  assumes "tree 3 (tabs k) (l0_frame s)" "in_block (tabs k) (l0_frame s) (a + of_nat i * 4096)"
  defines "va \<equiv> a + of_nat i * 4096"
  shows "\<exists>b. l3_ptr (tabs k) (l0_frame s) va = Some b \<and> (valid (tabs k b (l3_idx va)) \<longrightarrow>
    mprotect_page nf a i (s, k) = write_entry b (l3_idx va) ((tabs k b (l3_idx va) AND NOT PERM_MASK) OR nf) (s, k))"
proof -
  have m: "is_mapped va (s, k)" and p: "l3_ptr (tabs k) (l0_frame s) va \<noteq> None"
    using assms(2) view_3(3,4) [OF assms(1), of va] unfolding va_def [symmetric]
    by (auto simp: is_mapped_def is_page_mapped_ptr_def in_block_def l3_ptr_def Let_def)
  then obtain b where "l3_ptr (tabs k) (l0_frame s) va = Some b" by auto
  with m show ?thesis
    unfolding mprotect_page_def va_def [symmetric] Let_def by (auto simp: update_page_flags_no_flush_def Let_def)
qed

text \<open>Without a free frame, serving a fault installs the page in a table at address 0.\<close>

lemma fault_without_frames:
  assumes "\<And>p. al p = (None, p)" "tabs k = (\<lambda>_ _. 0)"
  shows "map_user_page al root va pa uf k =
    (([], True), k\<lparr>tabs := pte_write 0 (l3_idx va) (page_entry pa uf) (\<lambda>_ _. 0)\<rparr>)"
proof -
  have g: "get_or_create_table_atomic al tbl i k = ((0, None), k)" for tbl i
    by (simp add: get_or_create_table_atomic_def alloc_zeroed_def assms)
  show ?thesis by (simp add: map_user_page_def g push_table_def assms(2))
qed

text \<open>
  The owner tests for sharing threads and deposits its frames under two separate locks. If the
  last thread leaves in between, nobody frees them.
\<close>

lemma owner_race_leaks:
  assumes "SHARED_L0_TABLE w (l0_frame s) = None"
  shows "let w1 = new_shared (l0_frame s) w; has_shared = owner_has_shared s w1;
             w2 = drop_shared (l0_frame s) w1; w3 = owner_finish has_shared s w2
         in freed w3 = freed w \<and> SHARED_L0_TABLE w3 (l0_frame s) = None"
  using assms by (simp add: new_shared_def owner_has_shared_def drop_shared_def owner_finish_def Let_def)

text \<open>A page mapped for reading only is executable, by the program and by the kernel.\<close>

lemma read_only_is_executable: "from_prot 1 AND (UXN OR PXN) = 0"
  by (simp add: from_prot_def user_RO_def flag_defs)

end
