(* ===== verification/Spec2Isabelle.thy ===== *)
theory Spec2Isabelle
  imports Pmm_Global Smp_Ring_Concurrent Smp_Pump Vfs_Kernel Ipc_Futex Ipc_Msgqueue Fd_Properties Mmu_Properties
begin

text \<open>
  Verification library of the Akuma kernel, a bare-metal AArch64 operating system written in
  Rust. Source paths below are relative to the repository: \<^verbatim>\<open>src/\<close> is the kernel binary,
  \<^verbatim>\<open>crates/\<close> holds the libraries it is linked from.

  \<^bold>\<open>The program and its parts.\<close> A boot core owns the devices and most of the memory. Physical
  frames come from the bitmap allocator of \<^verbatim>\<open>src/pmm.rs\<close>; the page tables of user address spaces
  (\<^verbatim>\<open>crates/akuma-exec/src/mmu\<close>) are built from them. Threads
  (\<^verbatim>\<open>crates/akuma-exec/src/threading\<close>) are scheduled round robin out of a fixed array of slots.
  User programs enter through \<^verbatim>\<open>src/syscall\<close>: handlers validate user pointers, look descriptors up
  in the table of the calling process and act on kernel objects (pipes, event counters, futex
  queues, message queues, files), on which threads may block. Files live behind the virtual
  filesystem of \<^verbatim>\<open>crates/akuma-vfs\<close> and \<^verbatim>\<open>src/vfs\<close>; a container ("box") sees it through its own
  mount namespace. Secondary cores run their own kernels on lent memory and talk to the boot core
  over lock-free rings in a shared descriptor (\<^verbatim>\<open>crates/akuma-smp\<close>, \<^verbatim>\<open>src/smp.rs\<close>), over which they
  also forward system calls.

  \<^bold>\<open>Modelling conventions.\<close> A struct is a \<^theory_text>\<open>record\<close>, an enum a \<^theory_text>\<open>datatype\<close>. Counters and masks that
  wrap or are compared bitwise are words of their width; sizes and indices that the code keeps in
  range are natural numbers. Global statics are fields of an explicit state that each operation
  returns updated; a lock makes its critical section one step. Every early return, error number
  and panic is a value (\<^theory_text>\<open>option\<close> or a sum). \<^verbatim>\<open>BTreeMap\<close> and \<^verbatim>\<open>BTreeSet\<close> are sorted lists
  (Ordered_Map). User memory is a partial map from addresses to bytes. A system call that may
  block is split into what it does on entry and one round of its waiting loop, and a whole call
  is a sequence of such steps with other threads' steps between them. Code outside the sources,
  or another part of the kernel whose behaviour a function only relies on, is an argument of the
  definition.

  \<^bold>\<open>Theories and what they model.\<close>
  \<^item> Akuma_Prelude, Ordered_Map: machine integers, Rust's saturating arithmetic, error numbers,
    ordered maps and sets with their lookup laws.
  \<^item> Frame_Interface, Pmm, Pmm_Global (\<^verbatim>\<open>src/pmm.rs\<close>): the bitmap with single, batch and contiguous
    allocation; the global counters, zeroing, user reserve, copy-on-write counts and the debug
    tracker. Frames are never handed out twice, batches are all-or-nothing, contiguous
    search is sound and complete, the reported free count is exact, the last owner of a shared
    frame frees it.
  \<^item> Fifo_Interface, Smp_Ring, Smp_Ring_Concurrent (\<^verbatim>\<open>akuma-smp/src/ring.rs\<close>): the bounded
    multi-producer ring, sequentially and as an interleaving of its atomic steps; a run of the ring
    is a run of a bounded queue, and under any interleaving what is popped is what was pushed in
    ticket order.
  \<^item> Smp_Core, Smp_Channels, Smp_Forward, Smp_Pump (\<^verbatim>\<open>state_machine.rs\<close>, \<^verbatim>\<open>console_ring.rs\<close>,
    \<^verbatim>\<open>fwd_bounce.rs\<close>, \<^verbatim>\<open>init_program.rs\<close>, \<^verbatim>\<open>descriptor.rs\<close>, the inbox loop and forwarding of
    \<^verbatim>\<open>src/smp.rs\<close>): the memory-debt protocol repays exactly what is owed, a forwarded call returns
    the owner's result and bytes, the pump terminates and conserves memory.
  \<^item> Vfs_Path, Vfs_Memfs, Vfs_Memfs_Proofs, Vfs_Mount, Vfs_Kernel (\<^verbatim>\<open>akuma-vfs\<close>,
    \<^verbatim>\<open>akuma-isolation\<close>, \<^verbatim>\<open>src/vfs/mod.rs\<close>, \<^verbatim>\<open>src/fs.rs\<close>): path normal forms, the in-memory filesystem
    against a map from component lists to entries, longest-prefix mounts, confinement of boxes,
    symbolic links.
  \<^item> Thr_Sched (\<^verbatim>\<open>akuma-exec/src/threading\<close>): thread states, the scheduler and per-thread signals;
    at most one thread runs per core, scheduling is sound, complete and fair.
  \<^item> Sys_Call, Sig_Syscall (\<^verbatim>\<open>src/syscall/mod.rs\<close>, \<^verbatim>\<open>signal.rs\<close>, \<^verbatim>\<open>user_access.rs\<close>): pointer
    validation, the copy loops and the signal system calls.
  \<^item> Ipc_Wait, Ipc_Pipe, Ipc_Eventfd, Ipc_Futex, Ipc_Msgqueue (\<^verbatim>\<open>pipe.rs\<close>, \<^verbatim>\<open>eventfd.rs\<close>,
    \<^verbatim>\<open>sync.rs\<close>, \<^verbatim>\<open>msgqueue.rs\<close> of \<^verbatim>\<open>src/syscall\<close>): byte order, conservation, accounting and box
    isolation of the objects; a thread registered as waiting is woken, proved once in the locale
    \<open>wait_object\<close>.
  \<^item> Fd_Table, Fd_Refs, Fd_Syscall, Fd_Steps, Fd_Proofs, Fd_Properties
    (\<^verbatim>\<open>akuma-exec/src/process/fd.rs\<close>, the descriptor calls of \<^verbatim>\<open>src/syscall/fs.rs\<close>, \<^verbatim>\<open>proc.rs\<close>,
    \<^verbatim>\<open>net.rs\<close>, \<^verbatim>\<open>pipe.rs\<close>): descriptor tables of any number of processes over the shared objects;
    counts equal the references held in all tables, so end of file is reported exactly when no
    writer is left.
  \<^item> Mmu_Tables, Mmu_Space, Mmu_Proofs, Mmu_Steps, Mmu_Ranges, Mmu_Lifetime, Mmu_Syscall,
    Mmu_Properties (\<^verbatim>\<open>akuma-exec/src/mmu\<close>, \<^verbatim>\<open>sys_mprotect\<close> of \<^verbatim>\<open>src/syscall/mem.rs\<close>): four-level page
    tables as a memory of descriptors, whose meaning is the function \<open>view\<close> from addresses to
    frames and attributes. Mapping, faulting, unmapping and protecting change that function at
    exactly the pages named, the tables stay a tree made of the frames on record, fork's sparse
    walks agree with translating page by page, identifiers are handed out once, and the last
    user of shared tables frees them. Unmapping and protecting are exact outside the kernel's
    2 MiB blocks only; \<open>protect_writes_into_block\<close> shows what happens inside one.

  \<^bold>\<open>Interfaces.\<close> \<open>frame_allocator\<close> is interpreted on the bitmap, \<open>bounded_fifo\<close> on the
  message and console rings, \<open>mount_points\<close> on the global and the per-box mount tables,
  \<open>wait_object\<close> on pipes, event counters and futexes, \<open>ref_counted\<close> and \<open>fd_objects\<close> on pipe
  ends and event counters, \<open>frame_source\<close>, on which the page tables rely, on the physical memory
  manager of Pmm_Global.

  \<^bold>\<open>Bounds and fuel.\<close> Scans of the bitmap, the slot array and descriptor numbers recurse on the
  distance to the end of the array. The pump's fuel is the number of queued messages, and
  symbolic links are followed at most as often as the code's own limit. Loops that wait for
  another thread are not iterated: they are step sequences of any length. The range walks over
  page tables and the search for an identifier are partial functions; they are shown to return
  for ranges within the 48 bits of a user address and for every well-formed allocator.

  \<^bold>\<open>Structure taken from the reference developments.\<close> Interfaces as locales with \<open>sublocale\<close> and
  interpretation follow the data-structure specifications of HOL-Data_Structures and the
  algebraic hierarchy; interleavings as step relations with rule induction follow IMP and
  the distributed-algorithm examples; functional refinement through an abstraction function
  follows the library's \<open>Mapping\<close>, \<open>RBT\<close> and \<open>AList\<close>.

  \<^bold>\<open>Not modelled.\<close> Device and interrupt drivers, boot code, exception entry and the register
  context switch are assembly and memory-mapped input and output. The network stack, its
  encryption and the SSH transport call external crates for every effect that matters. The
  shell, editor, terminal and user programs are applications above the system-call boundary. The
  second-stage filesystem drivers (ext2, procfs) act on block devices and kernel statistics, and
  process creation, ELF loading and the fault handler act on address spaces. Of the address spaces
  themselves, the kernel's mappings in a fresh one, the boot tables, the identifier kept by each
  view, and the maintenance of translation and instruction caches are left out: the properties
  speak of the tables in memory. The compare-and-exchange of a descriptor in the fault path is
  taken to succeed, and a drop of a shared view is one step.
\<close>

end
